(* ===== verification/Prelude.thy ===== *)
theory Prelude
  imports Main "HOL-Library.Word" "HOL-Library.Monad_Syntax" "HOL-Library.Multiset"
    "HOL-Library.Product_Lexorder" "HOL-Library.List_Lexorder" "HOL-Library.Char_ord"
begin

section \<open>Shared vocabulary of the kernel model\<close>

text \<open>
  What every component of the model uses: Rust's machine integers as they behave in a
  release build (arithmetic wraps), the result types of the kernel, the outcome of polling a
  future, and the ordered map of the standard library (\<open>BTreeMap\<close>) as a strictly sorted
  association list. The collections \<open>bt_laws\<close> and \<open>wrap_laws\<close> carry the generic facts
  the component proofs rest on.
\<close>

named_theorems wrap_laws \<open>machine arithmetic that stays in range is plain arithmetic\<close>
named_theorems bt_laws \<open>laws of the ordered map\<close>

subsection \<open>Machine integers\<close>

type_synonym byte = "8 word"
type_synonym u32 = "32 word"
type_synonym u64 = "64 word"

text \<open>
  A \<open>usize\<close> is a natural number below \<open>2 ^ 64\<close>; the operations below are Rust's \<open>+\<close>, \<open>-\<close>
  and \<open>*\<close> on it without overflow checks. An \<open>isize\<close> is an integer, \<open>swrap\<close> is its two's
  complement wrap-around.
\<close>

definition usize_lim :: nat where
  "usize_lim = 2 ^ 64"

definition uadd :: "nat \<Rightarrow> nat \<Rightarrow> nat" where
  "uadd a b = (a + b) mod usize_lim"

definition usub :: "nat \<Rightarrow> nat \<Rightarrow> nat" where
  "usub a b = (a + (usize_lim - b mod usize_lim)) mod usize_lim"

definition umul :: "nat \<Rightarrow> nat \<Rightarrow> nat" where
  "umul a b = (a * b) mod usize_lim"

definition swrap :: "int \<Rightarrow> int" where
  "swrap x = (x + 2 ^ 63) mod 2 ^ 64 - 2 ^ 63"

text \<open>\<open>u64::checked_add_signed\<close>: the sum, unless it leaves the range.\<close>

definition checked_add_signed :: "nat \<Rightarrow> int \<Rightarrow> nat option" where
  "checked_add_signed a d =
     (if 0 \<le> int a + d \<and> int a + d < int usize_lim then Some (nat (int a + d)) else None)"

lemma uadd_eq [wrap_laws]: "a + b < usize_lim \<Longrightarrow> uadd a b = a + b"
  by (simp add: uadd_def)

lemma umul_eq [wrap_laws]: "a * b < usize_lim \<Longrightarrow> umul a b = a * b"
  by (simp add: umul_def)

lemma usub_eq [wrap_laws]: "b \<le> a \<Longrightarrow> a < usize_lim \<Longrightarrow> usub a b = a - b"
proof -
  assume b: "b \<le> a" and a: "a < usize_lim"
  then have "a + (usize_lim - b) = (a - b) + usize_lim" and "b mod usize_lim = b"
    by simp_all
  then have "usub a b = ((a - b) + usize_lim) mod usize_lim"
    by (simp only: usub_def)
  also have "\<dots> = a - b"
    using a by simp
  finally show "usub a b = a - b" .
qed

lemma usub_self_add [simp]: "usub (uadd a b) a = b mod usize_lim"
proof -
  have "a mod usize_lim \<le> usize_lim"
    by (simp add: usize_lim_def order_less_imp_le)
  then have *: "(a mod usize_lim + b) + (usize_lim - a mod usize_lim) = b + usize_lim"
    by linarith
  have "((a + b) mod usize_lim + (usize_lim - a mod usize_lim)) mod usize_lim
      = ((a mod usize_lim + b) + (usize_lim - a mod usize_lim)) mod usize_lim"
    by (metis mod_add_left_eq)
  then show ?thesis
    by (simp add: usub_def uadd_def *)
qed

lemma swrap_id [wrap_laws]: "- (2 ^ 63) \<le> x \<Longrightarrow> x < 2 ^ 63 \<Longrightarrow> swrap x = x"
  by (simp add: swrap_def)

lemma swrap_range: "- (2 ^ 63) \<le> swrap x \<and> swrap x < 2 ^ 63"
  by (simp add: swrap_def)

subsection \<open>Results and polling\<close>

text \<open>
  The error kinds of \<open>axerrno\<close> the modelled code returns. A fallible operation returns
  \<open>ax_error + 'a\<close> (\<open>Inl\<close> the error). A panic (\<open>unwrap\<close> of an error, a failed assertion, an
  index out of range) is \<open>None\<close> of an option around the whole result, written with
  do-notation, so a panic stops the computation.
\<close>

datatype ax_error =
    AlreadyExists | BadAddress | DirectoryNotEmpty | Interrupted | InvalidInput | Io | IsADirectory
  | NoMemory | NotADirectory | NotFound | PermissionDenied | Unsupported | WouldBlock
  | InvalidData | UnexpectedEof | WriteZero

datatype linux_error =
    EPERM | ENOENT | EINTR | EBADF | EAGAIN | ENOMEM | EACCES | EFAULT | EEXIST | EINVAL | ENOSYS | ETIMEDOUT

type_synonym 'a ax_result = "ax_error + 'a"
type_synonym 'a sys_result = "linux_error + 'a"

datatype 'a poll = Ready 'a | Pending

text \<open>A position in a file or stream: from its start, its end or the current position.\<close>

datatype SeekFrom = Start nat | End int | Current int

definition rassert :: "bool \<Rightarrow> unit option" where
  "rassert b = (if b then Some () else None)"

lemma rassert_simps [simp]:
  "rassert True = Some ()" "rassert False = None"
  "rassert b = Some u \<longleftrightarrow> b" "rassert b = None \<longleftrightarrow> \<not> b"
  by (simp_all add: rassert_def)

lemma bind_rassert [simp]: "Option.bind (rassert b) f = (if b then f () else None)"
  by (simp add: rassert_def)

subsection \<open>The ordered map of the standard library\<close>

fun bt_insert :: "'k::linorder \<Rightarrow> 'v \<Rightarrow> ('k \<times> 'v) list \<Rightarrow> ('k \<times> 'v) list" where
  "bt_insert k v [] = [(k, v)]"
| "bt_insert k v ((k', v') # m) =
     (if k < k' then (k, v) # (k', v') # m
      else if k = k' then (k, v) # m
      else (k', v') # bt_insert k v m)"

definition bt_remove :: "'k \<Rightarrow> ('k \<times> 'v) list \<Rightarrow> ('k \<times> 'v) list" where
  "bt_remove k m = filter (\<lambda>kv. fst kv \<noteq> k) m"

definition bt_inv :: "('k::linorder \<times> 'v) list \<Rightarrow> bool" where
  "bt_inv m \<longleftrightarrow> sorted_wrt (<) (map fst m)"

lemma bt_inv_Nil [simp, bt_laws]: "bt_inv []"
  by (simp add: bt_inv_def)

lemma bt_inv_Cons [simp]: "bt_inv ((k, v) # m) \<longleftrightarrow> (\<forall>k' \<in> fst ` set m. k < k') \<and> bt_inv m"
  by (auto simp: bt_inv_def)

lemma fst_set_bt_insert [simp]: "fst ` set (bt_insert k v m) = insert k (fst ` set m)"
  by (induction k v m rule: bt_insert.induct) auto

lemma bt_inv_insert [bt_laws]: "bt_inv m \<Longrightarrow> bt_inv (bt_insert k v m)"
proof (induction k v m rule: bt_insert.induct)
  case (1 k v)
  then show ?case by simp
next
  case (2 k v k' v' m)
  then show ?case by (auto simp del: fst_set_bt_insert simp: fst_set_bt_insert [of k v m])
qed

lemma map_of_bt_insert [bt_laws]:
  "bt_inv m \<Longrightarrow> map_of (bt_insert k v m) = (map_of m)(k \<mapsto> v)"
proof (induction k v m rule: bt_insert.induct)
  case (1 k v)
  then show ?case by simp
next
  case (2 k v k' v' m)
  then show ?case by (auto simp: fun_upd_twist)
qed

lemma bt_inv_distinct: "bt_inv m \<Longrightarrow> distinct (map fst m)"
  by (simp add: bt_inv_def strict_sorted_iff)

lemma set_bt_insert_fresh:
  "bt_inv m \<Longrightarrow> k \<notin> fst ` set m \<Longrightarrow> set (bt_insert k v m) = insert (k, v) (set m)"
  by (induction k v m rule: bt_insert.induct) auto

lemma mset_bt_insert_fresh:
  "k \<notin> fst ` set m \<Longrightarrow> mset (bt_insert k v m) = add_mset (k, v) (mset m)"
  by (induction k v m rule: bt_insert.induct) auto

lemma bt_inv_remove [bt_laws]: "bt_inv m \<Longrightarrow> bt_inv (bt_remove k m)"
  unfolding bt_remove_def by (induction m) auto

lemma map_of_bt_remove [bt_laws]: "map_of (bt_remove k m) = (map_of m)(k := None)"
  unfolding bt_remove_def by (induction m) auto

lemma set_bt_remove: "set (bt_remove k m) = {kv \<in> set m. fst kv \<noteq> k}"
  by (simp add: bt_remove_def)

lemma bt_first_least:
  "bt_inv ((k, v) # m) \<Longrightarrow> (k', v') \<in> set ((k, v) # m) \<Longrightarrow> k \<le> k'"
  by (auto simp: image_iff)

lemma map_of_mem_iff:
  "bt_inv m \<Longrightarrow> map_of m k = Some v \<longleftrightarrow> (k, v) \<in> set m"
  by (meson bt_inv_distinct map_of_SomeD map_of_is_SomeI)

lemma bt_inv_append:
  "bt_inv (xs @ ys) \<longleftrightarrow> bt_inv xs \<and> bt_inv ys \<and> (\<forall>x \<in> fst ` set xs. \<forall>y \<in> fst ` set ys. x < y)"
  by (auto simp: bt_inv_def sorted_wrt_append)

lemma bt_inv_filter: "bt_inv m \<Longrightarrow> bt_inv (filter P m)"
  by (induction m) auto

subsection \<open>Pairwise related lists\<close>

text \<open>For a symmetric relation the order of the list does not matter.\<close>

lemma sorted_wrt_mset:
  assumes "sorted_wrt R xs" "mset xs = mset ys" "\<And>a b. R a b \<Longrightarrow> R b a"
  shows "sorted_wrt R ys"
  using assms(1,2)
proof (induction ys arbitrary: xs)
  case (Cons y ys)
  then have "y \<in> set xs"
    by (metis list.set_intros(1) set_mset_mset)
  then obtain as bs where xs: "xs = as @ y # bs"
    by (auto simp: in_set_conv_decomp)
  with Cons.prems(2) have m: "mset (as @ bs) = mset ys"
    by simp
  from Cons.prems(1) xs have "sorted_wrt R (as @ bs)" and y: "\<forall>z \<in> set as. R z y" "\<forall>z \<in> set bs. R y z"
    by (auto simp: sorted_wrt_append)
  with Cons.IH [OF _ m] have "sorted_wrt R ys" by blast
  moreover have "set ys = set as \<union> set bs"
    using m by (metis set_append set_mset_mset)
  ultimately show ?case
    using y assms(3) by auto
qed simp

end
