(* ===== verification/Event_Fd.thy ===== *)
theory Event_Fd
  imports Prelude
begin

unbundle bit_operations_syntax

section \<open>Event counters\<close>

text \<open>
  The event counter behind an \<open>eventfd\<close> descriptor (\<open>syscall_fs/ctype/eventfd.rs\<close>): a 64-bit counter
  that writes add to and reads take from. An operation is one poll; \<open>free\<close> says whether the lock of the
  counter can be taken. The bytes of a value are in the order of the machine, little endian.
\<close>

fun le_bytes :: "nat \<Rightarrow> nat \<Rightarrow> byte list" where
  "le_bytes 0 v = []"
| "le_bytes (Suc k) v = of_nat (v mod 256) # le_bytes k (v div 256)"

fun from_le_bytes :: "byte list \<Rightarrow> nat" where
  "from_le_bytes [] = 0"
| "from_le_bytes (b # bs) = unat b + 256 * from_le_bytes bs"

lemma le_bytes_roundtrip: "v < 256 ^ k \<Longrightarrow> from_le_bytes (le_bytes k v) = v"
  by (induction k arbitrary: v) (auto simp: unat_of_nat div_less_iff_less_mult ac_simps)

lemma length_le_bytes [simp]: "length (le_bytes k v) = k"
  by (induction k arbitrary: v) auto

record EventFd =
  evalue :: nat
  eflags :: u32

definition eventfd_new :: "nat \<Rightarrow> u32 \<Rightarrow> EventFd" where
  "eventfd_new initval flags = \<lparr>evalue = initval, eflags = flags\<rparr>"

abbreviation "EFD_SEMAPHORE \<equiv> 0x1 :: u32"
abbreviation "EFD_NONBLOCK \<equiv> 0x800 :: u32"

definition should_block :: "EventFd \<Rightarrow> bool" where
  "should_block e \<longleftrightarrow> eflags e AND EFD_NONBLOCK = 0"

definition has_semaphore_set :: "EventFd \<Rightarrow> bool" where
  "has_semaphore_set e \<longleftrightarrow> eflags e AND EFD_SEMAPHORE \<noteq> 0"

text \<open>The result of a read comes with the bytes put into the buffer of length \<open>n\<close>. The decremented
  value of a semaphore is computed and dropped.\<close>

definition eventfd_read :: "bool \<Rightarrow> nat \<Rightarrow> EventFd \<Rightarrow> nat ax_result poll \<times> byte list \<times> EventFd" where
  "eventfd_read free n e =
     (if n < 8 then (Ready (Inl InvalidInput), [], e)
      else if \<not> free then (Pending, [], e)
      else if \<not> has_semaphore_set e \<and> evalue e \<noteq> 0 then (Ready (Inr 8), le_bytes 8 (evalue e), e\<lparr>evalue := 0\<rparr>)
      else if has_semaphore_set e \<and> evalue e \<noteq> 0 then (Ready (Inr 8), le_bytes 8 1, e)
      else if evalue e \<noteq> 0 then (Ready (Inr 8), le_bytes 8 (evalue e), e)
      else if should_block e then (Pending, [], e)
      else (Ready (Inl WouldBlock), [], e))"

text \<open>The first eight bytes are taken before the length is checked: a shorter buffer panics.\<close>

definition eventfd_write :: "bool \<Rightarrow> byte list \<Rightarrow> EventFd \<Rightarrow> (nat ax_result poll \<times> EventFd) option" where
  "eventfd_write free buf e =
     (if length buf < 8 then None
      else let val = from_le_bytes (take 8 buf)
           in if val = usize_lim - 1 then Some (Ready (Inl InvalidInput), e)
              else if \<not> free then Some (Pending, e)
              else if evalue e + (val + 1) < usize_lim then Some (Ready (Inr 8), e\<lparr>evalue := uadd (evalue e) val\<rparr>)
              else if should_block e then Some (Pending, e)
              else Some (Ready (Inl WouldBlock), e))"

definition eventfd_ready_to_read :: "bool \<Rightarrow> EventFd \<Rightarrow> bool poll" where
  "eventfd_ready_to_read free e = (if free then Ready (evalue e > 0) else Pending)"

definition eventfd_ready_to_write :: "bool \<Rightarrow> EventFd \<Rightarrow> bool poll" where
  "eventfd_ready_to_write free e = (if free then Ready (evalue e < usize_lim - 1 - 1) else Pending)"

subsection \<open>Runs\<close>

text \<open>A run of polls: a write of a value or a read. The result of a run are the values read.\<close>

datatype event_op = EWrite nat | ERead

definition event_step :: "EventFd \<Rightarrow> event_op \<Rightarrow> (nat list \<times> nat list \<times> EventFd) option" where
  "event_step e op =
     (case op of
        EWrite v \<Rightarrow> (case eventfd_write True (le_bytes 8 v) e of
            None \<Rightarrow> None
          | Some (Ready (Inr _), e') \<Rightarrow> Some ([v], [], e')
          | Some (_, e') \<Rightarrow> Some ([], [], e'))
      | ERead \<Rightarrow> (case eventfd_read True 8 e of
            (Ready (Inr _), bs, e') \<Rightarrow> Some ([], [from_le_bytes bs], e')
          | (_, _, e') \<Rightarrow> Some ([], [], e')))"

fun event_run :: "EventFd \<Rightarrow> event_op list \<Rightarrow> (nat list \<times> nat list \<times> EventFd) option" where
  "event_run e [] = Some ([], [], e)"
| "event_run e (op # ops) =
     (case event_step e op of
        None \<Rightarrow> None
      | Some (w, r, e') \<Rightarrow> map_option (\<lambda>(ws, rs, e''). (w @ ws, r @ rs, e'')) (event_run e' ops))"

lemma lim_256: "usize_lim = 256 ^ 8"
  by (simp add: usize_lim_def)

lemma event_step_conserves:
  assumes "\<not> has_semaphore_set e" "evalue e < usize_lim - 1" "case op of EWrite v \<Rightarrow> v < usize_lim | ERead \<Rightarrow> True"
  obtains w r e' where "event_step e op = Some (w, r, e')" "evalue e + sum_list w = sum_list r + evalue e'"
    "evalue e' < usize_lim - 1" "eflags e' = eflags e"
proof (cases op)
  case (EWrite v)
  with assms have v: "from_le_bytes (le_bytes 8 v) = v"
    by (intro le_bytes_roundtrip) (simp add: lim_256)
  show thesis
  proof (cases "evalue e + (v + 1) < usize_lim")
    case True
    then have "v \<noteq> usize_lim - 1" "uadd (evalue e) v = evalue e + v" by (auto intro: uadd_eq)
    with EWrite v True that [of "[v]" "[]" "e\<lparr>evalue := evalue e + v\<rparr>"] show thesis
      by (simp add: event_step_def eventfd_write_def)
  next
    case False
    with EWrite v assms(2) that [of "[]" "[]" e] show thesis
      by (auto simp: event_step_def eventfd_write_def)
  qed
next
  case ERead
  have v: "from_le_bytes (le_bytes 8 (evalue e)) = evalue e"
    using assms(2) by (intro le_bytes_roundtrip) (simp add: lim_256)
  show thesis
  proof (cases "evalue e = 0")
    case True
    with ERead assms that [of "[]" "[]" e] show thesis
      by (auto simp: event_step_def eventfd_read_def)
  next
    case False
    with ERead assms(1,2) v that [of "[]" "[evalue e]" "e\<lparr>evalue := 0\<rparr>"] show thesis
      by (auto simp: event_step_def eventfd_read_def)
  qed
qed

subsection \<open>Properties\<close>



text \<open>A read of a semaphore does not take from the counter: it succeeds forever.\<close>

lemma semaphore_never_drained:
  assumes "has_semaphore_set e" "evalue e \<noteq> 0" "8 \<le> n"
  shows "eventfd_read True n e = (Ready (Inr 8), le_bytes 8 1, e)"
  using assms by (simp add: eventfd_read_def)

end
