(* ===== verification/Time_Stat.thy ===== *)
theory Time_Stat
  imports Prelude
begin

section \<open>Time accounting\<close>

text \<open>
  The time statistics of a task (\<open>taskctx/src/stat.rs\<close>): the time spent in user mode and in the
  kernel, counted at the changes of mode and of task, and the interval timer that runs on it. Times
  are 64-bit counts of nanoseconds; differences of time stamps wrap around.
\<close>

datatype TimerType = NONE | REAL | VIRTUAL | PROF

text \<open>The number is cut to 32 bits; \<open>-1\<close> and unknown numbers are \<open>NONE\<close>.\<close>

definition timer_type_from :: "nat \<Rightarrow> TimerType" where
  "timer_type_from n =
     (let k = of_nat n :: u32 in if k = 0 then REAL else if k = 1 then VIRTUAL else if k = 2 then PROF else NONE)"

record TimeStat =
  utime_ns :: nat
  stime_ns :: nat
  user_timestamp :: nat
  kernel_timestamp :: nat
  timer_type :: TimerType
  timer_interval_ns :: nat
  timer_remained_ns :: nat
  pending_timer_signal :: bool

definition timestat_new :: TimeStat where
  "timestat_new = \<lparr>utime_ns = 0, stime_ns = 0, user_timestamp = 0, kernel_timestamp = 0, timer_type = NONE,
     timer_interval_ns = 0, timer_remained_ns = 0, pending_timer_signal = False\<rparr>"

definition timestat_reset :: "nat \<Rightarrow> TimeStat \<Rightarrow> TimeStat" where
  "timestat_reset now t = t\<lparr>utime_ns := 0, stime_ns := 0, user_timestamp := 0, kernel_timestamp := now\<rparr>"

definition update_timer :: "nat \<Rightarrow> TimeStat \<Rightarrow> TimeStat" where
  "update_timer delta t =
     (if timer_remained_ns t = 0 then t
      else if timer_remained_ns t > delta then t\<lparr>timer_remained_ns := timer_remained_ns t - delta\<rparr>
      else t\<lparr>pending_timer_signal := True\<rparr>)"

definition switch_into_kernel_mode :: "nat \<Rightarrow> TimeStat \<Rightarrow> TimeStat" where
  "switch_into_kernel_mode now t =
     (let delta = usub now (user_timestamp t);
          t' = t\<lparr>utime_ns := uadd (utime_ns t) delta, kernel_timestamp := now\<rparr>
      in if timer_type t' \<noteq> NONE then update_timer delta t' else t')"

definition switch_into_user_mode :: "nat \<Rightarrow> TimeStat \<Rightarrow> TimeStat" where
  "switch_into_user_mode now t =
     (let delta = usub now (kernel_timestamp t);
          t' = t\<lparr>stime_ns := uadd (stime_ns t) delta, user_timestamp := now\<rparr>
      in if timer_type t' = REAL \<or> timer_type t' = PROF then update_timer delta t' else t')"

definition swtich_from_old_task :: "nat \<Rightarrow> TimeStat \<Rightarrow> TimeStat" where
  "swtich_from_old_task now t =
     (let delta = usub now (kernel_timestamp t);
          t' = t\<lparr>stime_ns := uadd (stime_ns t) delta, kernel_timestamp := now\<rparr>
      in if timer_type t' = REAL \<or> timer_type t' = PROF then update_timer delta t' else t')"

definition switch_to_new_task :: "nat \<Rightarrow> TimeStat \<Rightarrow> TimeStat" where
  "switch_to_new_task now t =
     (let delta = usub now (kernel_timestamp t);
          t' = t\<lparr>kernel_timestamp := now\<rparr>
      in if timer_type t' = REAL then update_timer delta t' else t')"

definition output_timer_as_us :: "TimeStat \<Rightarrow> nat \<times> nat" where
  "output_timer_as_us t = (timer_interval_ns t div 1000, timer_remained_ns t div 1000)"

definition set_timer :: "nat \<Rightarrow> nat \<Rightarrow> nat \<Rightarrow> TimeStat \<Rightarrow> bool \<times> TimeStat" where
  "set_timer interval remained ty t =
     (let t' = t\<lparr>timer_type := timer_type_from ty, timer_interval_ns := interval, timer_remained_ns := remained, pending_timer_signal := False\<rparr>
      in (timer_type t' \<noteq> NONE, t'))"

definition check_pending_timer_signal :: "TimeStat \<Rightarrow> nat option \<times> TimeStat" where
  "check_pending_timer_signal t =
     (if pending_timer_signal t then
        (case timer_type t of REAL \<Rightarrow> Some 14 | VIRTUAL \<Rightarrow> Some 26 | PROF \<Rightarrow> Some 27 | NONE \<Rightarrow> None,
         t\<lparr>pending_timer_signal := False, timer_remained_ns := timer_interval_ns t\<rparr>)
      else (None, t))"

subsection \<open>Accounting\<close>

text \<open>A task is in user mode, in the kernel, or switched off. A history is a list of the changes with
  their times; \<open>account\<close> adds up the time of each kind.\<close>

datatype tmode = User | Kernel | Off

datatype tevent = IntoKernel | IntoUser | SwitchOut | SwitchIn

fun next_mode :: "tmode \<Rightarrow> tevent \<Rightarrow> tmode option" where
  "next_mode User IntoKernel = Some Kernel"
| "next_mode Kernel IntoUser = Some User"
| "next_mode Kernel SwitchOut = Some Off"
| "next_mode Off SwitchIn = Some Kernel"
| "next_mode _ _ = None"

definition tstep :: "tevent \<Rightarrow> nat \<Rightarrow> TimeStat \<Rightarrow> TimeStat" where
  "tstep ev now t = (case ev of
     IntoKernel \<Rightarrow> switch_into_kernel_mode now t
   | IntoUser \<Rightarrow> switch_into_user_mode now t
   | SwitchOut \<Rightarrow> swtich_from_old_task now t
   | SwitchIn \<Rightarrow> switch_to_new_task now t)"

fun trun :: "(tevent \<times> nat) list \<Rightarrow> TimeStat \<Rightarrow> TimeStat" where
  "trun [] t = t"
| "trun ((ev, now) # h) t = trun h (tstep ev now t)"

fun legal :: "tmode \<Rightarrow> nat \<Rightarrow> (tevent \<times> nat) list \<Rightarrow> bool" where
  "legal md since [] \<longleftrightarrow> True"
| "legal md since ((ev, now) # h) \<longleftrightarrow> since \<le> now \<and> (case next_mode md ev of None \<Rightarrow> False | Some md' \<Rightarrow> legal md' now h)"

fun account :: "tmode \<Rightarrow> tmode \<Rightarrow> nat \<Rightarrow> (tevent \<times> nat) list \<Rightarrow> nat" where
  "account kind md since [] = 0"
| "account kind md since ((ev, now) # h) =
     (if kind = md then now - since else 0) + account kind (the (next_mode md ev)) now h"

fun last_time :: "nat \<Rightarrow> (tevent \<times> nat) list \<Rightarrow> nat" where
  "last_time since [] = since"
| "last_time since ((ev, now) # h) = last_time now h"

definition stamped :: "tmode \<Rightarrow> nat \<Rightarrow> TimeStat \<Rightarrow> bool" where
  "stamped md since t \<longleftrightarrow> (if md = User then user_timestamp t = since else kernel_timestamp t = since)"

lemma update_timer_frame [simp]:
  "utime_ns (update_timer d t) = utime_ns t" "stime_ns (update_timer d t) = stime_ns t"
  "user_timestamp (update_timer d t) = user_timestamp t" "kernel_timestamp (update_timer d t) = kernel_timestamp t"
  by (simp_all add: update_timer_def)

lemma last_time_le: "legal md since h \<Longrightarrow> since \<le> last_time since h"
  by (induction md since h rule: legal.induct) (auto split: option.splits)

lemma account_total: "legal md since h \<Longrightarrow>
  account User md since h + account Kernel md since h + account Off md since h = last_time since h - since"
proof (induction md since h rule: legal.induct)
  case (2 md since ev now h)
  then obtain md' where m: "next_mode md ev = Some md'" "since \<le> now" "legal md' now h" by (auto split: option.splits)
  with 2(1) [OF m(1,3)] last_time_le [OF m(3)] show ?case by (cases md) auto
qed simp

lemma tstep_accounts:
  assumes "stamped md since t" "next_mode md ev = Some md'" "since \<le> now" "now < usize_lim"
    "utime_ns t + (now - since) < usize_lim" "stime_ns t + (now - since) < usize_lim"
  shows "stamped md' now (tstep ev now t)"
    "utime_ns (tstep ev now t) = utime_ns t + (if md = User then now - since else 0)"
    "stime_ns (tstep ev now t) = stime_ns t + (if md = Kernel then now - since else 0)"
  using assms
  by (cases md; cases ev; simp add: stamped_def tstep_def switch_into_kernel_mode_def switch_into_user_mode_def
      swtich_from_old_task_def switch_to_new_task_def Let_def usub_eq uadd_eq)+

subsection \<open>Properties\<close>

text \<open>
  C20: time is accounted exactly. Over any legal history of mode and task switches at non-decreasing
  times, the user time grows by exactly the time spent in user mode and the kernel time by the time
  spent in the kernel, and together with the time the task was switched off they make up the whole
  time from the first to the last change.
\<close>

theorem time_accounted_exactly:
  assumes "stamped md since t" "legal md since h" "last_time since h < usize_lim"
    "utime_ns t + stime_ns t + (last_time since h - since) < usize_lim"
  shows "utime_ns (trun h t) = utime_ns t + account User md since h \<and>
    stime_ns (trun h t) = stime_ns t + account Kernel md since h \<and>
    utime_ns (trun h t) + stime_ns (trun h t) + account Off md since h = utime_ns t + stime_ns t + (last_time since h - since)"
proof -
  have "utime_ns (trun h t) = utime_ns t + account User md since h \<and> stime_ns (trun h t) = stime_ns t + account Kernel md since h"
    using assms
  proof (induction h arbitrary: md since t)
    case (Cons x h)
    obtain ev now where x: "x = (ev, now)" by fastforce
    with Cons.prems(2) obtain md' where m: "next_mode md ev = Some md'" "since \<le> now" "legal md' now h" by (auto split: option.splits)
    note le = last_time_le [OF m(3)]
    from Cons.prems(3,4) le m(2) have lim: "now < usize_lim" "utime_ns t + (now - since) < usize_lim" "stime_ns t + (now - since) < usize_lim"
      by (auto simp: x)
    note s = tstep_accounts [OF Cons.prems(1) m(1,2) lim]
    have "utime_ns (tstep ev now t) + stime_ns (tstep ev now t) + (last_time now h - now) < usize_lim"
      using Cons.prems(4) le m(2) by (auto simp: s(2,3) x)
    with Cons.IH [OF s(1) m(3)] Cons.prems(3) s(2,3) m(1) show ?case by (auto simp: x)
  qed simp
  with account_total [OF assms(2)] show ?thesis by simp
qed

theorem time_accounted_exactly_witness:
  "utime_ns (trun [(IntoUser, 5), (IntoKernel, 12), (SwitchOut, 14), (SwitchIn, 30)] timestat_new) = 7"
proof -
  have "stamped Kernel 0 timestat_new" by (simp add: stamped_def timestat_new_def)
  with time_accounted_exactly [of Kernel 0 timestat_new "[(IntoUser, 5), (IntoKernel, 12), (SwitchOut, 14), (SwitchIn, 30)]"]
  show ?thesis by (simp add: timestat_new_def usize_lim_def)
qed

text \<open>A timer that has fired is reloaded with its interval and reports the signal of its kind once.\<close>

lemma timer_fires_once:
  assumes "timer_type t = REAL" "0 < timer_remained_ns t" "timer_remained_ns t \<le> delta"
  shows "check_pending_timer_signal (update_timer delta t)
      = (Some 14, t\<lparr>pending_timer_signal := False, timer_remained_ns := timer_interval_ns t\<rparr>)"
    "fst (check_pending_timer_signal (snd (check_pending_timer_signal (update_timer delta t)))) = None"
  using assms by (simp_all add: check_pending_timer_signal_def update_timer_def)

end
