(* ===== verification/Task_State.thy ===== *)
theory Task_State
  imports Prelude
begin

section \<open>Task states, wake-ups and the trampoline\<close>

text \<open>
  The life of a task: its control block (\<open>taskctx/src/task.rs\<close>), the per-CPU current task
  (\<open>taskctx/src/current.rs\<close>), \<open>wakeup_task\<close> (\<open>taskctx/src/lib.rs\<close>), the trampoline's
  \<open>run_task\<close> (\<open>trampoline/src/lib.rs\<close>) and the context switch of the preemptive build
  (\<open>set_task_tf\<close>, \<open>trampoline/src/task_api.rs\<close>). Every operation here runs under the state lock of
  one task, so it is one atomic step; the steps of any number of CPUs interleave in
  \<open>kstep\<close>. The ready queue is the first-in-first-out queue of the default build, seen through its
  contract. \<open>strong\<close> counts the references to a task that the queue, the CPUs and the blocked
  tasks own; references held elsewhere are not counted.
\<close>

subsection \<open>The task control block\<close>

datatype TaskState = Running | Runable | Blocking | Waked | Blocked | Exited

datatype SchedPolicy =
  SCHED_OTHER | SCHED_FIFO | SCHED_RR | SCHED_BATCH | SCHED_IDLE | SCHED_UNKNOWN

definition SchedPolicy_from :: "nat \<Rightarrow> SchedPolicy" where
  "SchedPolicy_from p =
     (if p = 0 then SCHED_OTHER else if p = 1 then SCHED_FIFO else if p = 2 then SCHED_RR
      else if p = 3 then SCHED_BATCH else if p = 5 then SCHED_IDLE else SCHED_UNKNOWN)"

fun SchedPolicy_into :: "SchedPolicy \<Rightarrow> int" where
  "SchedPolicy_into SCHED_OTHER = 0"
| "SchedPolicy_into SCHED_FIFO = 1"
| "SchedPolicy_into SCHED_RR = 2"
| "SchedPolicy_into SCHED_BATCH = 3"
| "SchedPolicy_into SCHED_IDLE = 5"
| "SchedPolicy_into SCHED_UNKNOWN = - 1"

type_synonym tid = nat
type_synonym cpu = nat

record TaskInner =
  is_init :: bool
  task_state :: TaskState
  exit_code :: int
  wait_wakers :: "tid list"
  strong :: nat
  process_id :: nat
  page_table_token :: nat
  is_leader :: bool
  sched_policy :: SchedPolicy
  sched_priority :: nat
  cpu_set :: u64

text \<open>\<open>set_cpu_set\<close> stores \<open>mask & 1 << (len - 1)\<close>; the shift binds tighter than the
  conjunction, and a shift amount is taken modulo the width.\<close>

unbundle bit_operations_syntax

definition set_cpu_set :: "u64 \<Rightarrow> nat \<Rightarrow> nat \<Rightarrow> TaskInner \<Rightarrow> TaskInner" where
  "set_cpu_set cpu_mask set_size max_cpu_num ti =
     (let len = (if umul set_size 4 > max_cpu_num then max_cpu_num else umul set_size 4)
      in ti\<lparr>cpu_set := cpu_mask AND push_bit (usub len 1 mod 64) 1\<rparr>)"

text \<open>\<open>smp\<close> is the number of CPUs of the configuration.\<close>

definition task_new :: "nat \<Rightarrow> bool \<Rightarrow> nat \<Rightarrow> nat \<Rightarrow> TaskInner" where
  "task_new smp init pid token =
     set_cpu_set (push_bit (smp mod 64) 1 - 1) 1 smp
       \<lparr>is_init = init, task_state = Runable, exit_code = 0, wait_wakers = [], strong = 1,
        process_id = pid, page_table_token = token, is_leader = False,
        sched_policy = SCHED_FIFO, sched_priority = 1, cpu_set = 0\<rparr>"

subsection \<open>Operations\<close>

record kernel =
  tasks :: "tid \<rightharpoonup> TaskInner"
  ready_queue :: "tid list"
  current :: "cpu \<rightharpoonup> tid"

definition upd_task :: "tid \<Rightarrow> (TaskInner \<Rightarrow> TaskInner) \<Rightarrow> kernel \<Rightarrow> kernel" where
  "upd_task t f k = k\<lparr>tasks := (tasks k)(t := map_option f (tasks k t))\<rparr>"

definition set_state :: "TaskState \<Rightarrow> tid \<Rightarrow> kernel \<Rightarrow> kernel" where
  "set_state st t k = upd_task t (task_state_update (\<lambda>_. st)) k"

definition spawn_raw :: "nat \<Rightarrow> bool \<Rightarrow> nat \<Rightarrow> tid \<Rightarrow> kernel \<Rightarrow> kernel" where
  "spawn_raw smp init pid t k =
     k\<lparr>tasks := (tasks k)(t \<mapsto> task_new smp init pid 0), ready_queue := ready_queue k @ [t]\<rparr>"

definition wakeup_task :: "tid \<Rightarrow> kernel \<Rightarrow> kernel option" where
  "wakeup_task t k = do {
     ti \<leftarrow> tasks k t;
     case task_state ti of
       Running \<Rightarrow> Some k
     | Blocking \<Rightarrow> Some (set_state Waked t k)
     | Runable \<Rightarrow> Some k
     | Blocked \<Rightarrow> (let k' = set_state Runable t k in Some (k'\<lparr>ready_queue := ready_queue k' @ [t]\<rparr>))
     | Waked \<Rightarrow> None
     | Exited \<Rightarrow> None
   }"

definition init_current :: "cpu \<Rightarrow> tid \<Rightarrow> kernel \<Rightarrow> kernel" where
  "init_current c t k = (let k' = set_state Running t k in k'\<lparr>current := (current k')(c \<mapsto> t)\<rparr>)"

definition clean_current :: "cpu \<Rightarrow> kernel \<Rightarrow> kernel option" where
  "clean_current c k = do {
     t \<leftarrow> current k c;
     let k' = upd_task t (strong_update (\<lambda>n. n - 1)) k;
     Some (k'\<lparr>current := (current k')(c := None)\<rparr>)
   }"

definition clean_current_without_drop :: "cpu \<Rightarrow> kernel \<Rightarrow> kernel" where
  "clean_current_without_drop c k = k\<lparr>current := (current k)(c := None)\<rparr>"

definition put_prev_clone :: "tid \<Rightarrow> kernel \<Rightarrow> kernel" where
  "put_prev_clone t k =
     (let k' = upd_task t (strong_update Suc) k in k'\<lparr>ready_queue := ready_queue k' @ [t]\<rparr>)"

text \<open>\<open>notify_waker_for_exit\<close> empties the waker queue of the task front to back.\<close>

fun wake_all :: "tid list \<Rightarrow> kernel \<Rightarrow> kernel option" where
  "wake_all [] k = Some k"
| "wake_all (w # ws) k = do { k' \<leftarrow> wakeup_task w k; wake_all ws k' }"

definition notify_waker_for_exit :: "tid \<Rightarrow> kernel \<Rightarrow> kernel option" where
  "notify_waker_for_exit t k = do {
     ti \<leftarrow> tasks k t;
     wake_all (wait_wakers ti) (upd_task t (wait_wakers_update (\<lambda>_. [])) k)
   }"

definition join :: "tid \<Rightarrow> tid \<Rightarrow> kernel \<Rightarrow> kernel" where
  "join t waker k = upd_task t (wait_wakers_update (\<lambda>ws. ws @ [waker])) (set_state Blocking waker k)"

datatype poll_result = PollReady int | PollPending

datatype run_result = Continue kernel | UserReturn kernel | Terminate

text \<open>
  One turn of \<open>run_task\<close> after the poll of the task's future. \<open>trap_done\<close>: the task has a user
  trap frame whose status is \<open>Done\<close>, so the CPU returns to user mode. \<open>sole_ref\<close>: the assertion
  on the reference count of the initial task.
\<close>

definition run_task :: "poll_result \<Rightarrow> bool \<Rightarrow> bool \<Rightarrow> cpu \<Rightarrow> kernel \<Rightarrow> run_result option" where
  "run_task res trap_done sole_ref c k = do {
     t \<leftarrow> current k c;
     ti \<leftarrow> tasks k t;
     case res of
       PollReady code \<Rightarrow> do {
         k1 \<leftarrow> notify_waker_for_exit t (upd_task t (exit_code_update (\<lambda>_. code)) (set_state Exited t k));
         if is_init ti then do { rassert sole_ref; Some Terminate }
         else do { k2 \<leftarrow> clean_current c k1; Some (Continue k2) }
       }
     | PollPending \<Rightarrow>
         (case task_state ti of
            Running \<Rightarrow>
              if trap_done then Some (UserReturn k)
              else do {
                k1 \<leftarrow> clean_current c (put_prev_clone t (set_state Runable t k));
                Some (Continue k1)
              }
          | Runable \<Rightarrow> None
          | Blocking \<Rightarrow> Some (Continue (clean_current_without_drop c (set_state Blocked t k)))
          | Waked \<Rightarrow> Some (Continue (set_state Running t k))
          | Blocked \<Rightarrow> None
          | Exited \<Rightarrow> None)
   }"

text \<open>The switch of the thread and preemption builds. The flag of the result tells whether the
  task keeps the CPU.\<close>

definition set_task_tf :: "cpu \<Rightarrow> kernel \<Rightarrow> (bool \<times> kernel) option" where
  "set_task_tf c k = do {
     t \<leftarrow> current k c;
     ti \<leftarrow> tasks k t;
     case task_state ti of
       Running \<Rightarrow> do {
         k1 \<leftarrow> clean_current c (put_prev_clone t (set_state Runable t k));
         Some (False, k1)
       }
     | Runable \<Rightarrow> None
     | Blocking \<Rightarrow> Some (False, clean_current_without_drop c (set_state Blocked t k))
     | Waked \<Rightarrow> Some (True, set_state Running t k)
     | Blocked \<Rightarrow> None
     | Exited \<Rightarrow> None
   }"

text \<open>The dispatch part of the trampoline loop: keep the current task or pick the next one.\<close>

definition trampoline_pick :: "cpu \<Rightarrow> kernel \<Rightarrow> kernel" where
  "trampoline_pick c k =
     (case current k c of
        Some _ \<Rightarrow> k
      | None \<Rightarrow> (case ready_queue k of
            [] \<Rightarrow> k
          | t # q \<Rightarrow> init_current c t (k\<lparr>ready_queue := q\<rparr>)))"

definition is_exited_in :: "kernel \<Rightarrow> tid \<Rightarrow> bool" where
  "is_exited_in k t \<longleftrightarrow> (\<exists>ti. tasks k t = Some ti \<and> task_state ti = Exited)"

definition exit_current_task :: "int \<Rightarrow> cpu \<Rightarrow> kernel \<Rightarrow> kernel option" where
  "exit_current_task code c k = do {
     t \<leftarrow> current k c;
     Some (set_state Exited t (upd_task t (exit_code_update (\<lambda>_. code)) k))
   }"

subsection \<open>Interleaved steps and their invariant\<close>

text \<open>
  One step of the machine: a spawn, a dispatch on some CPU, a wait registration by a running
  task (which makes it \<open>Blocking\<close>), a join registration, a wake-up from anywhere, an exit request
  of a running task, the end of a poll on some CPU, or a context switch.
\<close>

inductive kstep :: "kernel \<Rightarrow> kernel \<Rightarrow> bool" where
  ks_spawn: "tasks k t = None \<Longrightarrow> kstep k (spawn_raw smp ini pid t k)"
| ks_pick: "kstep k (trampoline_pick c k)"
| ks_block: "current k c = Some t \<Longrightarrow> \<not> is_exited_in k t \<Longrightarrow> kstep k (set_state Blocking t k)"
| ks_join: "current k c = Some t \<Longrightarrow> \<not> is_exited_in k t \<Longrightarrow> kstep k (join u t k)"
| ks_wake: "wakeup_task t k = Some k' \<Longrightarrow> kstep k k'"
| ks_exit: "exit_current_task code c k = Some k' \<Longrightarrow> kstep k k'"
| ks_run: "run_task res td sr c k = Some (Continue k') \<Longrightarrow> kstep k k'"
| ks_user: "run_task res td sr c k = Some (UserReturn k') \<Longrightarrow> kstep k k'"
| ks_switch: "set_task_tf c k = Some (b, k') \<Longrightarrow> kstep k k'"

definition kernel_init :: kernel where
  "kernel_init = \<lparr>tasks = Map.empty, ready_queue = [], current = Map.empty\<rparr>"

inductive reachable :: "kernel \<Rightarrow> bool" where
  reach_init: "reachable kernel_init"
| reach_step: "reachable k \<Longrightarrow> kstep k k' \<Longrightarrow> reachable k'"

text \<open>
  The invariant: a task is on at most one CPU; the tasks on a CPU are \<open>Running\<close>, \<open>Blocking\<close>,
  \<open>Waked\<close> or \<open>Exited\<close>, and every task in one of the first three states is on a CPU; the ready
  queue holds exactly the \<open>Runable\<close> tasks, each once; and exactly one counted reference exists
  for every task that has not exited or is still on a CPU.
\<close>

definition on_cpu :: "kernel \<Rightarrow> tid \<Rightarrow> bool" where
  "on_cpu k t \<longleftrightarrow> (\<exists>c. current k c = Some t)"

definition task_ok :: "kernel \<Rightarrow> tid \<Rightarrow> TaskInner \<Rightarrow> bool" where
  "task_ok k t ti \<longleftrightarrow>
     (task_state ti \<in> {Running, Blocking, Waked} \<longrightarrow> on_cpu k t) \<and>
     (on_cpu k t \<longrightarrow> task_state ti \<in> {Running, Blocking, Waked, Exited}) \<and>
     (t \<in> set (ready_queue k) \<longleftrightarrow> task_state ti = Runable) \<and>
     strong ti = (if task_state ti \<noteq> Exited \<or> on_cpu k t then 1 else 0)"

definition kinv :: "kernel \<Rightarrow> bool" where
  "kinv k \<longleftrightarrow> distinct (ready_queue k) \<and> set (ready_queue k) \<subseteq> dom (tasks k) \<and>
     (\<forall>c c' t. current k c = Some t \<longrightarrow> current k c' = Some t \<longrightarrow> c = c') \<and>
     (\<forall>t. on_cpu k t \<longrightarrow> t \<in> dom (tasks k)) \<and>
     (\<forall>t ti. tasks k t = Some ti \<longrightarrow> task_ok k t ti)"

lemma kinv_init: "kinv kernel_init"
  by (simp add: kinv_def kernel_init_def on_cpu_def)

text \<open>Each operation changes one task, its place in the queue and at most one CPU slot; the
  next lemma reduces preservation to a condition on that task.\<close>

lemma kinv_change:
  assumes inv: "kinv k" and t: "tasks k' = (tasks k)(t \<mapsto> ti)"
    and cur: "\<And>c u. u \<noteq> t \<Longrightarrow> current k' c = Some u \<longleftrightarrow> current k c = Some u"
    and one: "\<And>c c'. current k' c = Some t \<Longrightarrow> current k' c' = Some t \<Longrightarrow> c = c'"
    and q: "distinct (ready_queue k')" "\<And>u. u \<noteq> t \<Longrightarrow> u \<in> set (ready_queue k') \<longleftrightarrow> u \<in> set (ready_queue k)"
    and ok: "task_ok k' t ti"
  shows "kinv k'"
proof -
  have on: "on_cpu k' u = on_cpu k u" if "u \<noteq> t" for u
    using cur [OF that] by (simp add: on_cpu_def)
  have "task_ok k' u ui" if "tasks k' u = Some ui" for u ui
  proof (cases "u = t")
    case True
    with that t ok show ?thesis by simp
  next
    case False
    with that t have "tasks k u = Some ui" by simp
    with inv have "task_ok k u ui" by (simp add: kinv_def)
    with False on q(2) show ?thesis by (simp add: task_ok_def)
  qed
  moreover have "u \<in> dom (tasks k')" if "on_cpu k' u" for u
    using inv on that t by (cases "u = t") (auto simp: kinv_def)
  moreover have "set (ready_queue k') \<subseteq> dom (tasks k')"
  proof
    fix u assume "u \<in> set (ready_queue k')"
    with inv q(2) t show "u \<in> dom (tasks k')" by (cases "u = t") (auto simp: kinv_def)
  qed
  moreover have "c = c'" if "current k' c = Some u" "current k' c' = Some u" for c c' u
  proof (cases "u = t")
    case True
    with that one show ?thesis by simp
  next
    case False
    with that cur inv show ?thesis unfolding kinv_def by metis
  qed
  ultimately show ?thesis
    unfolding kinv_def using q(1) by blast
qed

lemma kinv_distinct: "kinv k \<Longrightarrow> distinct (ready_queue k)"
  by (simp add: kinv_def)

lemma kinv_unique: "kinv k \<Longrightarrow> current k c = Some t \<Longrightarrow> current k c' = Some t \<Longrightarrow> c = c'"
  by (simp add: kinv_def)

lemma kinv_task: "kinv k \<Longrightarrow> tasks k t = Some ti \<Longrightarrow> task_ok k t ti"
  by (simp add: kinv_def)

lemma kinv_current:
  assumes "kinv k" "current k c = Some t"
  obtains ti where "tasks k t = Some ti" "task_state ti \<in> {Running, Blocking, Waked, Exited}"
    "strong ti = 1" "t \<notin> set (ready_queue k)"
proof -
  from assms(2) have on: "on_cpu k t" by (auto simp: on_cpu_def)
  with assms(1) obtain ti where ti: "tasks k t = Some ti" unfolding kinv_def by blast
  from kinv_task [OF assms(1) ti] on show ?thesis
    by (intro that [OF ti]) (auto simp: task_ok_def)
qed

lemma kinv_upd_same:
  assumes inv: "kinv k" and f: "\<And>ti. task_state (f ti) = task_state ti" "\<And>ti. strong (f ti) = strong ti"
  shows "kinv (upd_task t f k)"
proof (cases "tasks k t")
  case None
  then have "upd_task t f k = k" by (simp add: upd_task_def fun_upd_idem)
  with inv show ?thesis by simp
next
  case (Some ti)
  show ?thesis
    by (rule kinv_change [OF inv, where t = t and ti = "f ti"])
      (use kinv_distinct [OF inv] Some kinv_task [OF inv Some] f in \<open>auto dest: kinv_unique [OF inv] simp: upd_task_def task_ok_def on_cpu_def\<close>)
qed

lemma kinv_set_on_cpu:
  assumes inv: "kinv k" and c: "current k c = Some t" and st: "st \<in> {Running, Blocking, Waked, Exited}"
  shows "kinv (set_state st t k)"
proof -
  from kinv_current [OF inv c] obtain ti where ti: "tasks k t = Some ti" "strong ti = 1" "t \<notin> set (ready_queue k)"
    by blast
  show ?thesis
    by (rule kinv_change [OF inv, where t = t and ti = "ti\<lparr>task_state := st\<rparr>"])
      (use kinv_distinct [OF inv] ti c st in \<open>auto dest: kinv_unique [OF inv] simp: set_state_def upd_task_def task_ok_def on_cpu_def\<close>)
qed

lemma kinv_spawn:
  assumes inv: "kinv k" and new: "tasks k t = None"
  shows "kinv (spawn_raw smp ini pid t k)"
proof -
  have out: "t \<notin> set (ready_queue k)" "\<not> on_cpu k t"
    using inv new by (auto simp: kinv_def)
  have fields: "task_state (task_new smp ini pid 0) = Runable" "strong (task_new smp ini pid 0) = 1"
    by (simp_all add: task_new_def set_cpu_set_def Let_def)
  show ?thesis
    by (rule kinv_change [OF inv, where t = t and ti = "task_new smp ini pid 0"])
      (use kinv_distinct [OF inv] out fields in \<open>auto dest: kinv_unique [OF inv] simp: spawn_raw_def task_ok_def on_cpu_def\<close>)
qed

lemma kinv_wakeup:
  assumes inv: "kinv k" and wake: "wakeup_task t k = Some k'"
  shows "kinv k'"
proof -
  from wake obtain ti where ti: "tasks k t = Some ti"
    by (auto simp: wakeup_task_def bind_eq_Some_conv)
  note ok = kinv_task [OF inv ti]
  show ?thesis
  proof (cases "task_state ti")
    case Blocking
    with ok obtain c where "current k c = Some t" by (auto simp: task_ok_def on_cpu_def)
    from kinv_set_on_cpu [OF inv this, of Waked] wake ti Blocking show ?thesis
      by (simp add: wakeup_task_def)
  next
    case Blocked
    with wake ti have k': "k' = (set_state Runable t k)\<lparr>ready_queue := ready_queue k @ [t]\<rparr>"
      by (simp add: wakeup_task_def set_state_def upd_task_def Let_def)
    show ?thesis
      by (rule kinv_change [OF inv, where t = t and ti = "ti\<lparr>task_state := Runable\<rparr>"])
        (use kinv_distinct [OF inv] ti ok Blocked in \<open>auto dest: kinv_unique [OF inv] simp: k' set_state_def upd_task_def task_ok_def on_cpu_def\<close>)
  qed (use wake ti inv in \<open>simp_all add: wakeup_task_def\<close>)
qed

lemma kinv_wake_all: "kinv k \<Longrightarrow> wake_all ws k = Some k' \<Longrightarrow> kinv k'"
  by (induction ws arbitrary: k) (auto simp: bind_eq_Some_conv dest: kinv_wakeup)

lemma kinv_pick:
  assumes inv: "kinv k"
  shows "kinv (trampoline_pick c k)"
proof (cases "current k c = None \<and> ready_queue k \<noteq> []")
  case False
  then have "trampoline_pick c k = k"
    by (auto simp: trampoline_pick_def split: option.splits list.splits)
  with inv show ?thesis by simp
next
  case True
  then obtain t q where q: "ready_queue k = t # q" and c: "current k c = None"
    by (auto simp: neq_Nil_conv)
  with inv obtain ti where ti: "tasks k t = Some ti" by (auto simp: kinv_def)
  from kinv_task [OF inv ti] q have st: "task_state ti = Runable" "\<not> on_cpu k t" "strong ti = 1"
    by (auto simp: task_ok_def)
  show ?thesis
    by (rule kinv_change [OF inv, where t = t and ti = "ti\<lparr>task_state := Running\<rparr>"])
      (use kinv_distinct [OF inv] ti q c st in \<open>auto dest: kinv_unique [OF inv] simp: trampoline_pick_def init_current_def set_state_def upd_task_def
         task_ok_def on_cpu_def Let_def split: if_splits\<close>)
qed

lemma strong_inc_dec [simp]: "strong_update ((\<lambda>n. n - Suc 0) \<circ> Suc) ti = ti"
  by (cases ti) (simp add: o_def)

lemma kinv_yield:
  assumes inv: "kinv k" and c: "current k c = Some t"
    and k': "clean_current c (put_prev_clone t (set_state Runable t k)) = Some k'"
  shows "kinv k'"
proof -
  from kinv_current [OF inv c] obtain ti where ti: "tasks k t = Some ti" "strong ti = 1" "t \<notin> set (ready_queue k)"
    by blast
  have only: "current k c' \<noteq> Some t" if "c' \<noteq> c" for c'
    using inv c that by (auto simp: kinv_def)
  have eq: "k' = k\<lparr>tasks := (tasks k)(t \<mapsto> ti\<lparr>task_state := Runable\<rparr>), ready_queue := ready_queue k @ [t],
      current := (current k)(c := None)\<rparr>"
    using k' c ti by (auto simp: clean_current_def put_prev_clone_def set_state_def upd_task_def Let_def)
  show ?thesis
    by (rule kinv_change [OF inv, where t = t and ti = "ti\<lparr>task_state := Runable\<rparr>"])
      (use kinv_distinct [OF inv] ti only c in \<open>auto dest: kinv_unique [OF inv] simp: eq task_ok_def on_cpu_def split: if_splits\<close>)
qed

lemma kinv_to_blocked:
  assumes inv: "kinv k" and c: "current k c = Some t"
  shows "kinv (clean_current_without_drop c (set_state Blocked t k))"
proof -
  from kinv_current [OF inv c] obtain ti where ti: "tasks k t = Some ti" "strong ti = 1" "t \<notin> set (ready_queue k)"
    by blast
  have only: "current k c' \<noteq> Some t" if "c' \<noteq> c" for c'
    using inv c that by (auto simp: kinv_def)
  show ?thesis
    by (rule kinv_change [OF inv, where t = t and ti = "ti\<lparr>task_state := Blocked\<rparr>"])
      (use kinv_distinct [OF inv] ti only c in \<open>auto dest: kinv_unique [OF inv] simp: clean_current_without_drop_def set_state_def upd_task_def          task_ok_def on_cpu_def split: if_splits\<close>)
qed

lemma kinv_drop_exited:
  assumes inv: "kinv k" and c: "current k c = Some t" and ti: "tasks k t = Some ti" "task_state ti = Exited"
    and k': "clean_current c k = Some k'"
  shows "kinv k'"
proof -
  from kinv_current [OF inv c] ti have more: "strong ti = 1" "t \<notin> set (ready_queue k)"
    by auto
  have only: "current k c' \<noteq> Some t" if "c' \<noteq> c" for c'
    using kinv_unique [OF inv c] that by auto
  have "strong_update (\<lambda>n. n - Suc 0) ti = ti\<lparr>strong := 0\<rparr>"
    using more by (cases ti) simp
  then have eq: "k' = k\<lparr>tasks := (tasks k)(t \<mapsto> ti\<lparr>strong := 0\<rparr>), current := (current k)(c := None)\<rparr>"
    using k' c ti by (auto simp: clean_current_def upd_task_def Let_def)
  show ?thesis
    by (rule kinv_change [OF inv, where t = t and ti = "ti\<lparr>strong := 0\<rparr>"])
      (use kinv_distinct [OF inv] ti more only c in \<open>auto simp: eq task_ok_def on_cpu_def split: if_splits\<close>)
qed

text \<open>Waking other tasks never touches a CPU slot or an exited task.\<close>

lemma wakeup_keeps:
  assumes "wakeup_task w k = Some k'"
  shows "current k' = current k" "tasks k t = Some ti \<Longrightarrow> task_state ti = Exited \<Longrightarrow> tasks k' t = Some ti"
proof -
  from assms obtain wi where wi: "tasks k w = Some wi"
    by (auto simp: wakeup_task_def bind_eq_Some_conv)
  show "current k' = current k" "tasks k t = Some ti \<Longrightarrow> task_state ti = Exited \<Longrightarrow> tasks k' t = Some ti"
    using assms wi by (cases "task_state wi"; auto simp: wakeup_task_def set_state_def upd_task_def Let_def)+
qed

lemma wake_all_keeps:
  "wake_all ws k = Some k' \<Longrightarrow> current k' = current k \<and>
     (tasks k t = Some ti \<longrightarrow> task_state ti = Exited \<longrightarrow> tasks k' t = Some ti)"
  by (induction ws arbitrary: k) (auto simp: bind_eq_Some_conv dest: wakeup_keeps)

lemma kinv_exit:
  assumes inv: "kinv k" and "exit_current_task code c k = Some k'"
  shows "kinv k'"
proof -
  from assms(2) obtain t where c: "current k c = Some t"
    and k': "k' = set_state Exited t (upd_task t (exit_code_update (\<lambda>_. code)) k)"
    by (auto simp: exit_current_task_def bind_eq_Some_conv)
  from kinv_upd_same [OF inv] have "kinv (upd_task t (exit_code_update (\<lambda>_. code)) k)"
    by simp
  from kinv_set_on_cpu [OF this, of c] c show ?thesis
    by (simp add: k' upd_task_def)
qed

lemma kinv_run_ready:
  assumes inv: "kinv k" and run: "run_task (PollReady code) td sr c k = Some (Continue k')"
  shows "kinv k'"
proof -
  from run obtain t ti k1 where c: "current k c = Some t" and ti: "tasks k t = Some ti"
    and n: "notify_waker_for_exit t (upd_task t (exit_code_update (\<lambda>_. code)) (set_state Exited t k)) = Some k1"
    and k': "clean_current c k1 = Some k'"
    by (auto simp: run_task_def bind_eq_Some_conv split: if_splits)
  define ti' where "ti' = ti\<lparr>task_state := Exited, exit_code := code, wait_wakers := []\<rparr>"
  define k0 where "k0 = upd_task t (wait_wakers_update (\<lambda>_. [])) (upd_task t (exit_code_update (\<lambda>_. code)) (set_state Exited t k))"
  have k0: "kinv k0"
    unfolding k0_def by (intro kinv_upd_same kinv_set_on_cpu [OF inv c]) simp_all
  have t0: "tasks k0 t = Some ti'" "current k0 = current k"
    using ti by (simp_all add: k0_def ti'_def upd_task_def set_state_def)
  from n ti have w: "wake_all (wait_wakers ti) k0 = Some k1"
    by (simp add: notify_waker_for_exit_def k0_def upd_task_def set_state_def)
  from wake_all_keeps [OF w, of t ti'] t0 c have "current k1 c = Some t" "tasks k1 t = Some ti'"
    by (simp_all add: ti'_def)
  then show ?thesis
    by (rule kinv_drop_exited [OF kinv_wake_all [OF k0 w] _ _ _ k']) (simp add: ti'_def)
qed

lemma kinv_run_pending:
  assumes inv: "kinv k" and run: "run_task PollPending td sr c k = Some r" "r = Continue k' \<or> r = UserReturn k'"
  shows "kinv k'"
proof -
  from run obtain t ti where c: "current k c = Some t" and ti: "tasks k t = Some ti"
    by (auto simp: run_task_def bind_eq_Some_conv)
  show ?thesis
  proof (cases "task_state ti")
    case Running
    with run c ti inv show ?thesis
      by (auto simp: run_task_def bind_eq_Some_conv dest: kinv_yield [OF inv c] split: if_splits)
  next
    case Blocking
    with run c ti kinv_to_blocked [OF inv c] show ?thesis by (auto simp: run_task_def)
  next
    case Waked
    with run c ti kinv_set_on_cpu [OF inv c, of Running] show ?thesis by (auto simp: run_task_def)
  qed (use run c ti in \<open>auto simp: run_task_def\<close>)
qed

lemma kinv_switch:
  assumes inv: "kinv k" and "set_task_tf c k = Some (b, k')"
  shows "kinv k'"
proof -
  from assms(2) obtain t ti where c: "current k c = Some t" and ti: "tasks k t = Some ti"
    by (auto simp: set_task_tf_def bind_eq_Some_conv)
  show ?thesis
  proof (cases "task_state ti")
    case Running
    with assms(2) c ti show ?thesis
      by (auto simp: set_task_tf_def bind_eq_Some_conv dest: kinv_yield [OF inv c])
  next
    case Blocking
    with assms(2) c ti kinv_to_blocked [OF inv c] show ?thesis by (auto simp: set_task_tf_def)
  next
    case Waked
    with assms(2) c ti kinv_set_on_cpu [OF inv c, of Running] show ?thesis by (auto simp: set_task_tf_def)
  qed (use assms(2) c ti in \<open>auto simp: set_task_tf_def\<close>)
qed

lemma kinv_step: "kstep k k' \<Longrightarrow> kinv k \<Longrightarrow> kinv k'"
proof (induction rule: kstep.induct)
  case (ks_join k c t u)
  then show ?case
    unfolding join_def by (intro kinv_upd_same kinv_set_on_cpu [of k c t]) simp_all
next
  case (ks_run res td sr c k k')
  then show ?case by (cases res) (auto dest: kinv_run_ready kinv_run_pending)
next
  case (ks_user res td sr c k k')
  show ?case
  proof (cases res)
    case (PollReady code)
    with ks_user show ?thesis by (auto simp: run_task_def bind_eq_Some_conv split: if_splits)
  next
    case PollPending
    with ks_user kinv_run_pending show ?thesis by blast
  qed
qed (auto intro: kinv_spawn kinv_pick kinv_set_on_cpu dest: kinv_wakeup kinv_exit kinv_switch)

lemma reachable_kinv: "reachable k \<Longrightarrow> kinv k"
  by (induction rule: reachable.induct) (auto intro: kinv_init dest: kinv_step)

subsection \<open>Properties\<close>

text \<open>
  C1: the task state machine is sound on any number of CPUs. In every reachable state, over
  any interleaving of spawns, dispatches, wait registrations, wake-ups, exits and context
  switches, no task is current on two CPUs; the ready queue holds each ready task exactly once
  and nothing else; a task is current exactly when its state says so; and every task that can
  still run is owned by exactly one counted reference, so its wakers never point to a freed
  task.
\<close>

theorem task_machine_sound:
  assumes "reachable k"
  shows "(\<forall>c c' t. current k c = Some t \<longrightarrow> current k c' = Some t \<longrightarrow> c = c') \<and>
    distinct (ready_queue k) \<and>
    (\<forall>t. t \<in> set (ready_queue k) \<longleftrightarrow> (\<exists>ti. tasks k t = Some ti \<and> task_state ti = Runable)) \<and>
    (\<forall>t ti. tasks k t = Some ti \<longrightarrow> task_state ti \<noteq> Exited \<longrightarrow>
       strong ti = 1 \<and> (on_cpu k t \<longleftrightarrow> task_state ti \<in> {Running, Blocking, Waked}))"
proof -
  note inv = reachable_kinv [OF assms]
  have "(t \<in> set (ready_queue k)) = (\<exists>ti. tasks k t = Some ti \<and> task_state ti = Runable)" for t
  proof (cases "tasks k t")
    case None
    with inv show ?thesis by (auto simp: kinv_def)
  next
    case (Some ti)
    from kinv_task [OF inv Some] Some show ?thesis by (simp add: task_ok_def)
  qed
  moreover have "strong ti = 1 \<and> (on_cpu k t \<longleftrightarrow> task_state ti \<in> {Running, Blocking, Waked})"
    if "tasks k t = Some ti" "task_state ti \<noteq> Exited" for t ti
    using kinv_task [OF inv that(1)] that(2) by (auto simp: task_ok_def)
  ultimately show ?thesis
    using kinv_distinct [OF inv] kinv_unique [OF inv] by blast
qed

lemma reachable_spawned: "reachable (trampoline_pick 0 (spawn_raw 1 False 1 7 kernel_init))"
  by (intro reach_step [OF reach_step [OF reach_init ks_spawn] ks_pick]) (simp add: kernel_init_def)

lemma spawned_current:
  "current (trampoline_pick 0 (spawn_raw 1 False 1 7 kernel_init)) 0 = Some 7"
  "tasks (trampoline_pick 0 (spawn_raw 1 False 1 7 kernel_init)) 7 =
     Some (task_state_update (\<lambda>_. Running) (task_new 1 False 1 0))"
  by (simp_all add: trampoline_pick_def spawn_raw_def kernel_init_def init_current_def set_state_def
      upd_task_def Let_def)

theorem task_machine_sound_witness:
  "let k = trampoline_pick 0 (spawn_raw 1 False 1 7 kernel_init)
   in current k 0 = Some 7 \<and> 7 \<notin> set (ready_queue k) \<and> (\<forall>c. current k c = Some 7 \<longrightarrow> c = 0)"
  using task_machine_sound [OF reachable_spawned] spawned_current by (auto simp: Let_def)



text \<open>
  C13: no wake-up is lost. Waking a task that is giving up its CPU (\<open>Blocking\<close>) or has given it
  up (\<open>Blocked\<close>) makes it run again: in the first case its pending poll leaves it current and
  \<open>Running\<close>, so it is polled again; in the second it is in the ready queue.
\<close>

theorem wakeup_not_lost:
  assumes "reachable k" "tasks k t = Some ti" "wakeup_task t k = Some k'"
  shows "(task_state ti = Blocking \<longrightarrow> (\<exists>c k''. current k c = Some t \<and>
       run_task PollPending td sr c k' = Some (Continue k'') \<and> current k'' c = Some t \<and>
       map_option task_state (tasks k'' t) = Some Running)) \<and>
    (task_state ti = Blocked \<longrightarrow> t \<in> set (ready_queue k'))"
proof -
  have "\<exists>c k''. current k c = Some t \<and> run_task PollPending td sr c k' = Some (Continue k'') \<and>
      current k'' c = Some t \<and> map_option task_state (tasks k'' t) = Some Running"
    if blk: "task_state ti = Blocking"
  proof -
    from kinv_task [OF reachable_kinv [OF assms(1)] assms(2)] blk obtain c where c: "current k c = Some t"
      by (auto simp: task_ok_def on_cpu_def)
    from assms(2,3) blk have k': "k' = set_state Waked t k"
      by (simp add: wakeup_task_def)
    have "run_task PollPending td sr c k' = Some (Continue (set_state Running t k'))"
      using c assms(2) by (simp add: run_task_def k' set_state_def upd_task_def)
    with c assms(2) show ?thesis
      by (intro exI [of _ c] exI [of _ "set_state Running t k'"]) (simp add: k' set_state_def upd_task_def)
  qed
  moreover have "t \<in> set (ready_queue k')" if "task_state ti = Blocked"
    using assms(2,3) that by (auto simp: wakeup_task_def set_state_def upd_task_def Let_def)
  ultimately show ?thesis by blast
qed

theorem wakeup_not_lost_witness:
  "let k = set_state Blocking 7 (trampoline_pick 0 (spawn_raw 1 False 1 7 kernel_init))
   in \<exists>k' c k''. wakeup_task 7 k = Some k' \<and> run_task PollPending False False c k' = Some (Continue k'') \<and>
        current k'' c = Some 7"
proof -
  let ?k0 = "trampoline_pick 0 (spawn_raw 1 False 1 7 kernel_init)"
  let ?k = "set_state Blocking 7 ?k0"
  have reach: "reachable ?k"
    using spawned_current by (intro reach_step [OF reachable_spawned ks_block]) (auto simp: is_exited_in_def)
  have ti: "tasks ?k 7 = Some (task_state_update (\<lambda>_. Blocking) (task_new 1 False 1 0))"
    using spawned_current(2) by (simp add: set_state_def upd_task_def)
  then have "wakeup_task 7 ?k = Some (set_state Waked 7 ?k)"
    by (simp add: wakeup_task_def)
  from wakeup_not_lost [OF reach ti this, of False False] this show ?thesis
    by (auto simp: Let_def)
qed

text \<open>
  A second wake-up of a task that is still giving up its CPU panics. The first wake-up
  turns \<open>Blocking\<close> into \<open>Waked\<close>, and \<open>wakeup_task\<close> panics on a \<open>Waked\<close> task, although two
  wakers (for example an alarm and a notification) may fire before the task returns to the
  trampoline.
\<close>

lemma double_wakeup_panics:
  assumes "tasks k t = Some ti" "task_state ti = Blocking"
  shows "\<exists>k'. wakeup_task t k = Some k' \<and> wakeup_task t k' = None"
  using assms by (simp add: wakeup_task_def set_state_def upd_task_def)

lemma double_wakeup_panics_witness:
  "\<exists>k. reachable k \<and> (\<exists>k'. wakeup_task 7 k = Some k' \<and> wakeup_task 7 k' = None)"
proof -
  let ?k0 = "trampoline_pick 0 (spawn_raw 1 False 1 7 kernel_init)"
  have "reachable (set_state Blocking 7 ?k0)"
    using spawned_current by (intro reach_step [OF reachable_spawned ks_block]) (auto simp: is_exited_in_def)
  moreover have "tasks (set_state Blocking 7 ?k0) 7 = Some (task_state_update (\<lambda>_. Blocking) (task_new 1 False 1 0))"
    using spawned_current(2) by (simp add: set_state_def upd_task_def)
  from double_wakeup_panics [OF this] have "\<exists>k'. wakeup_task 7 (set_state Blocking 7 ?k0) = Some k' \<and> wakeup_task 7 k' = None"
    by simp
  ultimately show ?thesis by blast
qed

text \<open>
  The CPU set of a task never holds more than one CPU. \<open>set_cpu_set\<close> masks with a single
  bit, so whatever mask is given, the stored set has at most the bit of the last CPU it counts;
  a new task on a machine with two CPUs may run on the second one only.
\<close>

lemma cpu_set_at_most_one_bit:
  "\<exists>n. cpu_set (set_cpu_set m bytes cpus ti) = 0 \<or> cpu_set (set_cpu_set m bytes cpus ti) = push_bit n 1"
proof -
  define n where "n = usub (if umul bytes 4 > cpus then cpus else umul bytes 4) 1 mod 64"
  have "m AND push_bit n 1 = 0 \<or> m AND push_bit n 1 = push_bit n 1"
  proof (cases "bit m n")
    case True
    have "m AND push_bit n 1 = push_bit n 1"
      by (rule bit_word_eqI) (use True in \<open>auto simp: bit_simps\<close>)
    then show ?thesis ..
  next
    case False
    have "m AND push_bit n 1 = 0"
      by (rule bit_word_eqI) (use False in \<open>auto simp: bit_simps\<close>)
    then show ?thesis ..
  qed
  then show ?thesis
    by (auto simp: set_cpu_set_def Let_def n_def)
qed

end
