(* ===== verification/Signals.thy ===== *)
theory Signals
  imports Task_State Time_Stat
begin

section \<open>Signals\<close>

text \<open>
  Sending, delivering and returning from signals (\<open>executor/src/signal.rs\<close>), on RISC-V. The pending
  set of a thread, the table of actions and the records put on the user stack belong to the external
  crate \<open>axsignal\<close>; what the kernel reads of them is the record \<open>axsignal\<close>, an argument of the
  operations. User memory is of any type \<open>'m\<close>; preparing a range of it, which
  the address space does in \<open>manual_alloc_range_for_lazy\<close> of \<open>Mem_Set\<close>, is here the operation
  \<open>user_alloc\<close>, which fails when the range is not mapped. A call that panics is \<open>None\<close>.
\<close>

subsection \<open>Trap frames\<close>

datatype GeneralRegisters =
    Ra | Sp | Gp | Tp | T0 | T1 | T2 | S0 | S1 | A0 | A1 | A2 | A3 | A4 | A5 | A6 | A7
  | S2 | S3 | S4 | S5 | S6 | S7 | S8 | S9 | S10 | S11 | T3 | T4 | T5 | T6

datatype TrapStatus = TrapDone | TrapBlocked | TrapUnknown

record TrapFrame =
  regs :: "GeneralRegisters \<Rightarrow> nat"
  sepc :: nat
  sstatus :: nat
  tf_fs :: "nat \<times> nat"
  scause :: nat
  stval :: nat
  trap_status :: TrapStatus
  kernel_sp :: nat

text \<open>The setters of a frame store into one register: \<open>set_user_sp\<close>, \<open>set_ra\<close>, \<open>set_arg0\<close>,
  \<open>set_arg1\<close> and \<open>set_arg2\<close> are \<open>set_reg\<close> at that register.\<close>

definition set_reg :: "GeneralRegisters \<Rightarrow> nat \<Rightarrow> TrapFrame \<Rightarrow> TrapFrame" where
  "set_reg r v tf = tf\<lparr>regs := (regs tf)(r := v)\<rparr>"

definition tf_set_pc :: "nat \<Rightarrow> TrapFrame \<Rightarrow> TrapFrame" where
  "tf_set_pc pc tf = tf\<lparr>sepc := pc\<rparr>"

subsection \<open>The external crate\<close>

datatype SignalDefault = Terminate | Ignore | Core | Stop | Cont

text \<open>Of an action the kernel reads the handler, two flags, the restart flag and the restorer.\<close>

record SigAction =
  sa_handler :: nat
  sa_onstack :: bool
  sa_siginfo :: bool
  need_restart :: bool
  get_storer :: "nat option"

record SignalStack =
  ss_sp :: nat
  ss_flags :: nat
  ss_size :: nat

record ('set, 'hd, 'info, 'm) axsignal =
  set_new :: 'set
  find_signal :: "'set \<Rightarrow> nat option"
  get_one_signal :: "'set \<Rightarrow> (nat \<times> 'set) option"
  try_add_signal :: "nat \<Rightarrow> 'info option \<Rightarrow> 'set \<Rightarrow> 'set"
  set_mask :: "'set \<Rightarrow> nat"
  set_info :: "'set \<Rightarrow> nat \<Rightarrow> 'info option"
  handler_new :: 'hd
  get_action :: "'hd \<Rightarrow> nat \<Rightarrow> SigAction"
  signo_from :: "nat \<Rightarrow> nat"
  default_action :: "nat \<Rightarrow> SignalDefault"
  default_info :: "nat \<Rightarrow> 'info"
  default_stack :: SignalStack
  SIG_DFL :: nat
  SIG_IGN :: nat
  SS_DISABLE :: nat
  SIGSEGV :: nat
  SIGBUS :: nat
  SIGNAL_TRAMPOLINE :: nat
  siginfo_size :: nat
  ucontext_size :: nat
  user_alloc :: "nat \<Rightarrow> nat \<Rightarrow> 'm \<Rightarrow> 'm option"
  write_info :: "nat \<Rightarrow> 'info \<Rightarrow> 'm \<Rightarrow> 'm"
  write_ucontext :: "nat \<Rightarrow> nat \<Rightarrow> nat \<Rightarrow> 'm \<Rightarrow> 'm"
  ucontext_pc :: "nat \<Rightarrow> 'm \<Rightarrow> nat"

text \<open>A user context written to memory with a program counter is read back with it.\<close>

definition ucontext_law :: "('set, 'hd, 'info, 'm) axsignal \<Rightarrow> bool" where
  "ucontext_law A \<longleftrightarrow> (\<forall>a pc smask m. ucontext_pc A a (write_ucontext A a pc smask m) = pc)"

subsection \<open>Signal modules\<close>

record ('set, 'hd) SignalModule =
  sig_info :: bool
  last_trap_frame_for_signal :: "TrapFrame option"
  signal_handler :: 'hd
  signal_set :: 'set
  exit_signal :: "nat option"
  alternate_stack :: SignalStack

definition init_signal :: "('set, 'hd, 'info, 'm) axsignal \<Rightarrow> 'hd option \<Rightarrow> ('set, 'hd) SignalModule" where
  "init_signal A h =
     \<lparr>sig_info = False, last_trap_frame_for_signal = None,
      signal_handler = (case h of Some h' \<Rightarrow> h' | None \<Rightarrow> handler_new A),
      signal_set = set_new A, exit_signal = None, alternate_stack = default_stack A\<rparr>"

definition have_restart_signal :: "('set, 'hd, 'info, 'm) axsignal \<Rightarrow> ('set, 'hd) SignalModule \<Rightarrow> bool option" where
  "have_restart_signal A m = map_option (\<lambda>n. need_restart (get_action A (signal_handler m) n)) (find_signal A (signal_set m))"

text \<open>The processes by identifier, the tasks registered by identifier, the user trap frames and time
  statistics of the tasks, and the memory of the user.\<close>

record ('set, 'hd) process =
  is_zombie :: bool
  main_task :: "tid option"
  signal_modules :: "tid \<rightharpoonup> ('set, 'hd) SignalModule"

record ('set, 'hd, 'm) sigstate =
  skern :: kernel
  PID2PC :: "nat \<rightharpoonup> ('set, 'hd) process"
  TID2TASK :: "tid set"
  utrap_frame :: "tid \<rightharpoonup> TrapFrame"
  stime :: "tid \<Rightarrow> TimeStat"
  umem :: 'm

definition module_of :: "nat \<Rightarrow> tid \<Rightarrow> ('set, 'hd, 'm) sigstate \<Rightarrow> ('set, 'hd) SignalModule option" where
  "module_of p t s = do { pr \<leftarrow> PID2PC s p; signal_modules pr t }"

definition put_module :: "nat \<Rightarrow> tid \<Rightarrow> ('set, 'hd) SignalModule \<Rightarrow> ('set, 'hd, 'm) sigstate \<Rightarrow> ('set, 'hd, 'm) sigstate" where
  "put_module p t m s = s\<lparr>PID2PC := (PID2PC s)(p := map_option (\<lambda>pr. pr\<lparr>signal_modules := (signal_modules pr)(t \<mapsto> m)\<rparr>) (PID2PC s p))\<rparr>"

subsection \<open>Sending\<close>

text \<open>The end of both sending functions: a blocked task is woken.\<close>

definition wake_blocked :: "tid \<Rightarrow> ('set, 'hd, 'm) sigstate \<Rightarrow> ('set, 'hd, 'm) sigstate option" where
  "wake_blocked t s = do {
     ti \<leftarrow> tasks (skern s) t;
     if task_state ti = Blocked then map_option (\<lambda>k. s\<lparr>skern := k\<rparr>) (wakeup_task t (skern s)) else Some s
   }"

definition add_signal ::
  "('set, 'hd, 'info, 'm) axsignal \<Rightarrow> nat \<Rightarrow> 'info option \<Rightarrow> ('set, 'hd) SignalModule \<Rightarrow> ('set, 'hd) SignalModule" where
  "add_signal A signum info m = m\<lparr>signal_set := try_add_signal A signum info (signal_set m)\<rparr>"

definition send_signal_to_process ::
  "('set, 'hd, 'info, 'm) axsignal \<Rightarrow> nat \<Rightarrow> nat \<Rightarrow> 'info option \<Rightarrow> ('set, 'hd, 'm) sigstate
     \<Rightarrow> (unit ax_result \<times> ('set, 'hd, 'm) sigstate) option" where
  "send_signal_to_process A pid signum info s =
     (case PID2PC s pid of
        None \<Rightarrow> Some (Inl NotFound, s)
      | Some pr \<Rightarrow>
          (case main_task pr of
             None \<Rightarrow> Some (Inr (), s)
           | Some t \<Rightarrow> do {
               m \<leftarrow> signal_modules pr t;
               s' \<leftarrow> wake_blocked t (put_module pid t (add_signal A signum info m) s);
               Some (Inr (), s')
             }))"

definition send_signal_to_thread ::
  "('set, 'hd, 'info, 'm) axsignal \<Rightarrow> tid \<Rightarrow> nat \<Rightarrow> ('set, 'hd, 'm) sigstate
     \<Rightarrow> (unit ax_result \<times> ('set, 'hd, 'm) sigstate) option" where
  "send_signal_to_thread A t signum s =
     (if t \<notin> TID2TASK s then Some (Inl NotFound, s)
      else do {
        ti \<leftarrow> tasks (skern s) t;
        case module_of (process_id ti) t s of
          None \<Rightarrow> Some (Inl NotFound, s)
        | Some m \<Rightarrow> do {
            s' \<leftarrow> wake_blocked t (put_module (process_id ti) t (add_signal A signum None m) s);
            Some (Inr (), s')
          }
      })"

subsection \<open>Delivering\<close>

text \<open>The result of a call is the exit code when the task exits, which it does not come back from.\<close>

definition terminate_process ::
  "('set, 'hd, 'info, 'm) axsignal \<Rightarrow> tid \<Rightarrow> nat \<Rightarrow> 'info option \<Rightarrow> ('set, 'hd, 'm) sigstate
     \<Rightarrow> (int option \<times> ('set, 'hd, 'm) sigstate) option" where
  "terminate_process A t signal info s = do {
     ti \<leftarrow> tasks (skern s) t;
     if is_leader ti then Some (Some (int signal), s)
     else do {
       (r, s') \<leftarrow> send_signal_to_process A (process_id ti) signal info s;
       case r of Inl _ \<Rightarrow> None | Inr _ \<Rightarrow> Some (Some (- 1), s')
     }
   }"

definition load_trap_for_signal ::
  "('set, 'hd, 'info, 'm) axsignal \<Rightarrow> nat \<Rightarrow> tid \<Rightarrow> ('set, 'hd, 'm) sigstate \<Rightarrow> (bool \<times> ('set, 'hd, 'm) sigstate) option" where
  "load_trap_for_signal A p t s = do {
     m \<leftarrow> module_of p t s;
     case last_trap_frame_for_signal m of
       None \<Rightarrow> Some (False, s)
     | Some old \<Rightarrow> do {
         now_trap_frame \<leftarrow> utrap_frame s t;
         let tf = (if sig_info m then tf_set_pc (ucontext_pc A (regs now_trap_frame Sp) (umem s)) old else old);
         let s' = put_module p t (m\<lparr>last_trap_frame_for_signal := None\<rparr>) s;
         Some (True, s'\<lparr>utrap_frame := (utrap_frame s')(t \<mapsto> tf)\<rparr>)
       }
   }"

definition align16 :: "nat \<Rightarrow> nat" where
  "align16 a = a - a mod 16"

text \<open>The stack the handler starts on: the alternate stack, or the interrupted stack below a
  protected area of 512 bytes.\<close>

definition handler_sp :: "('set, 'hd, 'info, 'm) axsignal \<Rightarrow> SigAction \<Rightarrow> SignalStack \<Rightarrow> TrapFrame \<Rightarrow> nat" where
  "handler_sp A action alt tf =
     (if sa_onstack action \<and> ss_flags alt \<noteq> SS_DISABLE A then align16 (usub (uadd (ss_sp alt) (ss_size alt)) 1)
      else usub (regs tf Sp) 512)"

text \<open>The information record and the user context are put below it, each aligned.\<close>

definition push_siginfo ::
  "('set, 'hd, 'info, 'm) axsignal \<Rightarrow> nat \<Rightarrow> 'info \<Rightarrow> nat \<Rightarrow> nat \<Rightarrow> TrapFrame \<Rightarrow> 'm \<Rightarrow> (nat \<times> TrapFrame \<times> 'm) option" where
  "push_siginfo A sp info old_pc smask tf mem = do {
     let sp1 = align16 (usub sp (siginfo_size A));
     let sp2 = align16 (usub sp1 (ucontext_size A));
     mem1 \<leftarrow> user_alloc A sp2 sp mem;
     Some (sp2, set_reg A2 sp2 (set_reg A1 sp1 tf), write_ucontext A sp2 old_pc smask (write_info A sp1 info mem1))
   }"

definition enter_handler ::
  "('set, 'hd, 'info, 'm) axsignal \<Rightarrow> nat \<Rightarrow> SigAction \<Rightarrow> ('set, 'hd) SignalModule \<Rightarrow> TrapFrame \<Rightarrow> 'm
     \<Rightarrow> (('set, 'hd) SignalModule \<times> TrapFrame \<times> 'm) option" where
  "enter_handler A sig_num action m tf mem = do {
     let sp = handler_sp A action (alternate_stack m) tf;
     let restorer = (case get_storer action of Some addr \<Rightarrow> addr | None \<Rightarrow> SIGNAL_TRAMPOLINE A);
     let tf1 = set_reg A0 sig_num (tf_set_pc (sa_handler action) (set_reg Ra restorer tf));
     if sa_siginfo action then do {
       let info = (case set_info A (signal_set m) (usub sig_num 1) of Some i \<Rightarrow> i | None \<Rightarrow> default_info A sig_num);
       (sp', tf2, mem') \<leftarrow> push_siginfo A sp info (sepc tf) (set_mask A (signal_set m)) tf1 mem;
       Some (m\<lparr>sig_info := True\<rparr>, set_reg Sp sp' tf2, mem')
     }
     else Some (m, set_reg Sp sp tf1, mem)
   }"

text \<open>The part of \<open>handle_signals\<close> from the saving of the frame: \<open>m\<close> is the module, without a saved
  frame, after the signal was taken from its set.\<close>

definition deliver_signal ::
  "('set, 'hd, 'info, 'm) axsignal \<Rightarrow> nat \<Rightarrow> tid \<Rightarrow> nat \<Rightarrow> ('set, 'hd) SignalModule \<Rightarrow> ('set, 'hd, 'm) sigstate
     \<Rightarrow> (int option \<times> ('set, 'hd, 'm) sigstate) option" where
  "deliver_signal A p t sig_num m s = do {
     tf \<leftarrow> utrap_frame s t;
     let m1 = m\<lparr>last_trap_frame_for_signal := Some tf, sig_info := False\<rparr>;
     let s1 = put_module p t m1 s;
     let action = get_action A (signal_handler m1) sig_num;
     if sa_handler action = SIG_DFL A then
       (case default_action A (signo_from A sig_num) of
          Ignore \<Rightarrow> map_option (\<lambda>(_, s'). (None, s')) (load_trap_for_signal A p t s1)
        | Terminate \<Rightarrow> terminate_process A t (signo_from A sig_num) None s1
        | Stop \<Rightarrow> None
        | Cont \<Rightarrow> None
        | Core \<Rightarrow> terminate_process A t (signo_from A sig_num) None s1)
     else if sa_handler action = SIG_IGN A then Some (None, s1)
     else do {
       (m2, tf', mem) \<leftarrow> enter_handler A sig_num action m1 tf (umem s1);
       Some (None, (put_module p t m2 s1)\<lparr>utrap_frame := (utrap_frame s1)(t \<mapsto> tf'), umem := mem\<rparr>)
     }
   }"

text \<open>A timer signal of the current task is sent first; a failure to send it is only logged.\<close>

definition send_timer_signal ::
  "('set, 'hd, 'info, 'm) axsignal \<Rightarrow> tid \<Rightarrow> ('set, 'hd, 'm) sigstate \<Rightarrow> ('set, 'hd, 'm) sigstate option" where
  "send_timer_signal A t s =
     (case check_pending_timer_signal (stime s t) of
        (None, ts) \<Rightarrow> Some (s\<lparr>stime := (stime s)(t := ts)\<rparr>)
      | (Some n, ts) \<Rightarrow> map_option snd (send_signal_to_thread A t n (s\<lparr>stime := (stime s)(t := ts)\<rparr>)))"

text \<open>\<open>p\<close> is the current process, \<open>t\<close> the current task. The kernel's own process gets no signals.\<close>

abbreviation KERNEL_EXECUTOR_ID :: nat where "KERNEL_EXECUTOR_ID \<equiv> 1"

definition handle_signals ::
  "('set, 'hd, 'info, 'm) axsignal \<Rightarrow> nat \<Rightarrow> tid \<Rightarrow> ('set, 'hd, 'm) sigstate
     \<Rightarrow> (int option \<times> ('set, 'hd, 'm) sigstate) option" where
  "handle_signals A p t s0 = do {
     s \<leftarrow> send_timer_signal A t s0;
     ti \<leftarrow> tasks (skern s) t;
     pr \<leftarrow> PID2PC s p;
     if is_zombie pr then (if is_leader ti then Some (None, s) else Some (Some 0, s))
     else if p = KERNEL_EXECUTOR_ID then Some (None, s)
     else do {
       m \<leftarrow> signal_modules pr t;
       case get_one_signal A (signal_set m) of
         None \<Rightarrow> Some (None, s)
       | Some (sig_num, set') \<Rightarrow>
           let m1 = m\<lparr>signal_set := set'\<rparr>
           in if last_trap_frame_for_signal m1 \<noteq> None then
                if signo_from A sig_num = SIGSEGV A \<or> signo_from A sig_num = SIGBUS A then Some (Some (- 1), put_module p t m1 s)
                else Some (None, put_module p t m1 s)
              else deliver_signal A p t sig_num m1 s
     }
   }"

definition signal_return ::
  "('set, 'hd, 'info, 'm) axsignal \<Rightarrow> nat \<Rightarrow> tid \<Rightarrow> ('set, 'hd, 'm) sigstate \<Rightarrow> (int \<times> ('set, 'hd, 'm) sigstate) option" where
  "signal_return A p t s = do {
     (restored, s') \<leftarrow> load_trap_for_signal A p t s;
     if restored then do { tf \<leftarrow> utrap_frame s' t; Some (swrap (int (regs tf A0)), s') }
     else Some (- 1, s')
   }"

definition have_signals ::
  "('set, 'hd, 'info, 'm) axsignal \<Rightarrow> nat \<Rightarrow> tid \<Rightarrow> ('set, 'hd, 'm) sigstate \<Rightarrow> (nat option \<times> ('set, 'hd, 'm) sigstate) option" where
  "have_signals A p t s = do {
     m \<leftarrow> module_of p t s;
     case find_signal A (signal_set m) of
       Some n \<Rightarrow> Some (Some n, s)
     | None \<Rightarrow> (let (r, ts) = check_pending_timer_signal (stime s t) in Some (r, s\<lparr>stime := (stime s)(t := ts)\<rparr>))
   }"

subsection \<open>Delivery and return\<close>

lemma module_put [simp]: "module_of p t (put_module p t m s) = (if PID2PC s p = None then None else Some m)"
  by (auto simp: module_of_def put_module_def split: option.splits bind_splits)

lemma module_frame [simp]:
  "module_of p t (s\<lparr>utrap_frame := f\<rparr>) = module_of p t s" "module_of p t (s\<lparr>umem := mem\<rparr>) = module_of p t s"
  "module_of p t (s\<lparr>stime := ts\<rparr>) = module_of p t s"
  by (simp_all add: module_of_def)

lemma put_module_frame [simp]:
  "utrap_frame (put_module p t m s) = utrap_frame s" "umem (put_module p t m s) = umem s"
  "skern (put_module p t m s) = skern s" "stime (put_module p t m s) = stime s"
  "PID2PC (put_module p t m s) p = None \<longleftrightarrow> PID2PC s p = None"
  by (simp_all add: put_module_def)

lemma regs_set_reg [simp]: "regs (set_reg r v tf) q = (if q = r then v else regs tf q)" "sepc (set_reg r v tf) = sepc tf"
  "regs (tf_set_pc pc tf) = regs tf" "sepc (tf_set_pc pc tf) = pc"
  by (simp_all add: set_reg_def tf_set_pc_def)

lemma set_pc_same [simp]: "tf_set_pc (sepc tf) tf = tf"
  by (simp add: tf_set_pc_def)

text \<open>Task \<open>t\<close> of the user process \<open>p\<close> has the module \<open>m\<close> and the user frame \<open>tf\<close>; no timer has
  fired, and \<open>sig_num\<close> is the next signal, which leaves the set \<open>rest\<close>.\<close>

definition next_signal ::
  "('set, 'hd, 'info, 'm) axsignal \<Rightarrow> nat \<Rightarrow> tid \<Rightarrow> ('set, 'hd) SignalModule \<Rightarrow> TrapFrame \<Rightarrow> nat \<Rightarrow> 'set \<Rightarrow> ('set, 'hd, 'm) sigstate \<Rightarrow> bool" where
  "next_signal A p t m tf sig_num rest s \<longleftrightarrow>
     tasks (skern s) t \<noteq> None \<and> p \<noteq> KERNEL_EXECUTOR_ID \<and> map_option is_zombie (PID2PC s p) = Some False \<and>
     module_of p t s = Some m \<and> utrap_frame s t = Some tf \<and> \<not> pending_timer_signal (stime s t) \<and>
     get_one_signal A (signal_set m) = Some (sig_num, rest)"

lemma handle_next_signal:
  assumes "next_signal A p t m tf sig_num rest s"
  shows "handle_signals A p t s =
    (if last_trap_frame_for_signal m = None then deliver_signal A p t sig_num (m\<lparr>signal_set := rest\<rparr>) s
     else Some (if signo_from A sig_num = SIGSEGV A \<or> signo_from A sig_num = SIGBUS A then Some (- 1) else None,
       put_module p t (m\<lparr>signal_set := rest\<rparr>) s))"
proof -
  from assms obtain ti pr where st: "tasks (skern s) t = Some ti" "PID2PC s p = Some pr" "\<not> is_zombie pr" "p \<noteq> KERNEL_EXECUTOR_ID"
    "signal_modules pr t = Some m" "get_one_signal A (signal_set m) = Some (sig_num, rest)" "\<not> pending_timer_signal (stime s t)"
    by (auto simp: next_signal_def module_of_def)
  then have "send_timer_signal A t s = Some s"
    by (simp add: send_timer_signal_def check_pending_timer_signal_def)
  with st show ?thesis by (simp add: handle_signals_def)
qed

lemma enter_handler_frame:
  assumes "\<And>a b. user_alloc A a b mem \<noteq> None"
  obtains tf' mem' where
    "enter_handler A sig_num action m tf mem = Some (m\<lparr>sig_info := sa_siginfo action \<or> sig_info m\<rparr>, tf', mem')"
    "sepc tf' = sa_handler action" "regs tf' A0 = sig_num" "regs tf' Ra = (case get_storer action of Some a \<Rightarrow> a | None \<Rightarrow> SIGNAL_TRAMPOLINE A)"
    "ucontext_law A \<Longrightarrow> sa_siginfo action \<Longrightarrow> ucontext_pc A (regs tf' Sp) mem' = sepc tf"
proof (cases "sa_siginfo action")
  case True
  define sp1 where "sp1 = align16 (usub (handler_sp A action (alternate_stack m) tf) (siginfo_size A))"
  define sp2 where "sp2 = align16 (usub sp1 (ucontext_size A))"
  obtain mem1 where "user_alloc A sp2 (handler_sp A action (alternate_stack m) tf) mem = Some mem1"
    using assms by blast
  with True show thesis
    by (intro that) (auto simp: enter_handler_def push_siginfo_def sp1_def sp2_def ucontext_law_def Let_def split: option.splits)
next
  case False
  then have "m\<lparr>sig_info := sa_siginfo action \<or> sig_info m\<rparr> = m" by simp
  with False show thesis
    by (intro that) (auto simp: enter_handler_def Let_def split: option.splits)
qed

subsection \<open>Properties\<close>


text \<open>A concrete instance: pending sets are lists of numbers, memory holds the program counter of a
  context at its address, every signal has the handler at address 100.\<close>

definition sample_axsignal :: "(nat list, unit, unit, nat \<Rightarrow> nat) axsignal" where
  "sample_axsignal =
     \<lparr>set_new = [], find_signal = (\<lambda>xs. case xs of [] \<Rightarrow> None | x # _ \<Rightarrow> Some x),
      get_one_signal = (\<lambda>xs. case xs of [] \<Rightarrow> None | x # ys \<Rightarrow> Some (x, ys)), try_add_signal = (\<lambda>n _ xs. xs @ [n]),
      set_mask = (\<lambda>_. 0), set_info = (\<lambda>_ _. None), handler_new = (),
      get_action = (\<lambda>_ _. \<lparr>sa_handler = 100, sa_onstack = False, sa_siginfo = True, need_restart = False, get_storer = None\<rparr>),
      signo_from = (\<lambda>n. n), default_action = (\<lambda>_. Terminate), default_info = (\<lambda>_. ()),
      default_stack = \<lparr>ss_sp = 0, ss_flags = 2, ss_size = 0\<rparr>, SIG_DFL = 0, SIG_IGN = 1, SS_DISABLE = 2, SIGSEGV = 11, SIGBUS = 7,
      SIGNAL_TRAMPOLINE = 4096, siginfo_size = 128, ucontext_size = 960,
      user_alloc = (\<lambda>_ _ m. Some m), write_info = (\<lambda>_ _ m. m), write_ucontext = (\<lambda>a pc _ m. m(a := pc)), ucontext_pc = (\<lambda>a m. m a)\<rparr>"

definition sample_frame :: TrapFrame where
  "sample_frame = \<lparr>regs = (\<lambda>_. 0)(Sp := 8192, A0 := 5), sepc = 64, sstatus = 0, tf_fs = (0, 0), scause = 0, stval = 0, trap_status = TrapDone, kernel_sp = 0\<rparr>"

definition sample_module :: "(nat list, unit) SignalModule" where
  "sample_module = add_signal sample_axsignal 10 None (init_signal sample_axsignal None)"

definition sample_state :: "(nat list, unit, nat \<Rightarrow> nat) sigstate" where
  "sample_state =
     \<lparr>skern = \<lparr>tasks = [3 \<mapsto> task_new 1 False 2 0], ready_queue = [], current = Map.empty\<rparr>,
      PID2PC = [2 \<mapsto> \<lparr>is_zombie = False, main_task = Some 3, signal_modules = [3 \<mapsto> sample_module]\<rparr>],
      TID2TASK = {3}, utrap_frame = [3 \<mapsto> sample_frame], stime = (\<lambda>_. timestat_new), umem = (\<lambda>_. 0)\<rparr>"


text \<open>An ignored signal leaves its saved frame behind: the next signal is taken for a nested one and
  lost, whatever its action, and a fault ends the task.\<close>

lemma ignored_signal_blocks_later:
  assumes "next_signal A p t m tf sig_num pending s" "last_trap_frame_for_signal m = None"
    and "sa_handler (get_action A (signal_handler m) sig_num) = SIG_IGN A" "SIG_IGN A \<noteq> SIG_DFL A"
    and "get_one_signal A pending = Some (later, rest)"
  shows "\<exists>s1 m1. handle_signals A p t s = Some (None, s1) \<and> module_of p t s1 = Some m1 \<and> signal_set m1 = pending \<and>
    handle_signals A p t s1 = Some (if signo_from A later = SIGSEGV A \<or> signo_from A later = SIGBUS A then Some (- 1) else None,
      put_module p t (m1\<lparr>signal_set := rest\<rparr>) s1)"
proof -
  define m1 where "m1 = m\<lparr>signal_set := pending, last_trap_frame_for_signal := Some tf, sig_info := False\<rparr>"
  define s1 where "s1 = put_module p t m1 s"
  from assms(1) have pr: "PID2PC s p \<noteq> None" "utrap_frame s t = Some tf" by (auto simp: next_signal_def)
  have h: "handle_signals A p t s = Some (None, s1)"
    using handle_next_signal [OF assms(1)] assms(2,3,4) pr by (simp add: deliver_signal_def Let_def s1_def m1_def)
  have mod: "module_of p t s1 = Some m1" using pr by (simp add: s1_def)
  have "next_signal A p t m1 tf later rest s1"
    using assms(1,5) mod by (auto simp: next_signal_def s1_def m1_def put_module_def option.map_comp comp_def)
  with handle_next_signal [OF this] h mod show ?thesis by (simp add: m1_def)
qed

end
