(* ===== verification/Open_Flags.thy ===== *)
theory Open_Flags
  imports Prelude
begin

section \<open>Open flags (async_fs/src/api/port.rs)\<close>

text \<open>
  The flag word of an open file: the bit constants of \<open>OpenFlags\<close>, the predicates the kernel
  reads off it and the truncating conversion from a user-supplied word. A flag set is the
  32-bit word the \<open>bitflags!\<close> declaration wraps; \<open>contains\<close> asks for all bits of a flag and
  \<open>from_bits_truncate\<close> drops the bits no constant names.
\<close>

unbundle bit_operations_syntax

type_synonym OpenFlags = u32

abbreviation RDONLY :: OpenFlags where "RDONLY \<equiv> 0"
abbreviation WRONLY :: OpenFlags where "WRONLY \<equiv> 0x1"
abbreviation RDWR :: OpenFlags where "RDWR \<equiv> 0x2"
abbreviation CREATE :: OpenFlags where "CREATE \<equiv> 0x40"
abbreviation EXCLUSIVE :: OpenFlags where "EXCLUSIVE \<equiv> 0x80"
abbreviation NOCTTY :: OpenFlags where "NOCTTY \<equiv> 0x100"
abbreviation TRUNC :: OpenFlags where "TRUNC \<equiv> 0x200"
abbreviation NON_BLOCK :: OpenFlags where "NON_BLOCK \<equiv> 0x800"
abbreviation TEXT :: OpenFlags where "TEXT \<equiv> 0x4000"
abbreviation BINARY :: OpenFlags where "BINARY \<equiv> 0x8000"
abbreviation DSYNC :: OpenFlags where "DSYNC \<equiv> 0x10000"
abbreviation NOFOLLOW :: OpenFlags where "NOFOLLOW \<equiv> 0x20000"
abbreviation CLOEXEC :: OpenFlags where "CLOEXEC \<equiv> 0x80000"
abbreviation DIR :: OpenFlags where "DIR \<equiv> 0x200000"

definition open_flags_all :: OpenFlags where
  "open_flags_all = WRONLY OR RDWR OR CREATE OR EXCLUSIVE OR NOCTTY OR TRUNC OR NON_BLOCK OR TEXT
     OR BINARY OR DSYNC OR NOFOLLOW OR CLOEXEC OR DIR"

definition contains_flag :: "OpenFlags \<Rightarrow> OpenFlags \<Rightarrow> bool" where
  "contains_flag fl f \<longleftrightarrow> fl AND f = f"

definition flag_complement :: "OpenFlags \<Rightarrow> OpenFlags" where
  "flag_complement f = NOT f AND open_flags_all"

definition OpenFlags_from :: "u64 \<Rightarrow> OpenFlags" where
  "OpenFlags_from val = ucast val AND open_flags_all"

definition flags_read_write :: "OpenFlags \<Rightarrow> bool \<times> bool" where
  "flags_read_write fl =
     (if fl = 0 then (True, False)
      else if contains_flag fl WRONLY then (False, True)
      else (True, True))"

definition flags_readable :: "OpenFlags \<Rightarrow> bool" where
  "flags_readable fl \<longleftrightarrow> \<not> contains_flag fl WRONLY"

definition flags_writable :: "OpenFlags \<Rightarrow> bool" where
  "flags_writable fl \<longleftrightarrow> contains_flag fl WRONLY \<or> contains_flag fl RDWR"

definition flags_creatable :: "OpenFlags \<Rightarrow> bool" where
  "flags_creatable fl \<longleftrightarrow> contains_flag fl CREATE"

definition flags_new_creatable :: "OpenFlags \<Rightarrow> bool" where
  "flags_new_creatable fl \<longleftrightarrow> contains_flag fl EXCLUSIVE"

definition flags_is_dir :: "OpenFlags \<Rightarrow> bool" where
  "flags_is_dir fl \<longleftrightarrow> contains_flag fl DIR"

definition is_close_on_exec :: "OpenFlags \<Rightarrow> bool" where
  "is_close_on_exec fl \<longleftrightarrow> contains_flag fl CLOEXEC"

lemma contains_iff_bits: "contains_flag fl f \<longleftrightarrow> (\<forall>n. bit f n \<longrightarrow> bit fl n)"
proof
  assume "contains_flag fl f"
  then have "bit f n = bit (fl AND f) n" for n
    by (simp add: contains_flag_def)
  then show "\<forall>n. bit f n \<longrightarrow> bit fl n"
    unfolding bit_and_iff by blast
next
  assume "\<forall>n. bit f n \<longrightarrow> bit fl n"
  then show "contains_flag fl f"
    unfolding contains_flag_def by (intro bit_eqI) (auto simp: bit_and_iff)
qed

lemma contains_or_self [simp]: "contains_flag (fl OR f) f"
  by (simp add: contains_iff_bits bit_or_iff)

lemma contains_or_mono: "contains_flag fl g \<Longrightarrow> contains_flag (fl OR f) g"
  by (simp add: contains_iff_bits bit_or_iff)

lemma contains_clear:
  assumes "f \<noteq> 0"
  shows "\<not> contains_flag (fl AND flag_complement f) f"
proof -
  from assms obtain n where "bit f n"
    by (metis bit_0_eq bit_eqI bot_apply bot_bool_def)
  moreover from this have "\<not> bit (fl AND flag_complement f) n"
    by (simp add: flag_complement_def bit_and_iff bit_not_iff)
  ultimately show ?thesis
    unfolding contains_iff_bits by blast
qed

end
