(* ===== verification/Task_Futures.thy ===== *)
theory Task_Futures
  imports Prelude
begin

section \<open>Kernel guards and the futures of the task API\<close>

text \<open>
  \<open>kernel_guard\<close> (interrupt and preemption guards, RISC-V) and the futures of \<open>task_api\<close>
  that give up the processor: \<open>yield_.rs\<close>, \<open>block.rs\<close>, \<open>exit.rs\<close>, \<open>sleep.rs\<close> and \<open>join.rs\<close>, in the
  coroutine build with interrupts and preemption (the features of the monolithic kernel). A
  future takes a guard when it is created or first polled and has to give it back when it
  completes; the lemmas say for which futures the guards of the task are balanced.
\<close>

subsection \<open>Guards\<close>

text \<open>
  \<open>sie\<close> is the interrupt-enable bit of the hart, \<open>preempt_disable_count\<close> the counter of the
  current task. The guard interface does nothing to the counter when no task is current.
\<close>

record guard_state =
  sie :: bool
  has_current :: bool
  preempt_disable_count :: nat

definition SIE_BIT :: nat where
  "SIE_BIT = 2"

definition local_irq_save_and_disable :: "guard_state \<Rightarrow> nat \<times> guard_state" where
  "local_irq_save_and_disable g = (if sie g then SIE_BIT else 0, g\<lparr>sie := False\<rparr>)"

definition local_irq_restore :: "nat \<Rightarrow> guard_state \<Rightarrow> guard_state" where
  "local_irq_restore fl g = g\<lparr>sie := sie g \<or> odd (fl div SIE_BIT)\<rparr>"

definition disable_preempt :: "guard_state \<Rightarrow> guard_state" where
  "disable_preempt g =
     (if has_current g then g\<lparr>preempt_disable_count := uadd (preempt_disable_count g) 1\<rparr> else g)"

definition enable_preempt :: "guard_state \<Rightarrow> guard_state" where
  "enable_preempt g =
     (if has_current g then g\<lparr>preempt_disable_count := usub (preempt_disable_count g) 1\<rparr> else g)"

definition can_preempt :: "guard_state \<Rightarrow> bool" where
  "can_preempt g \<longleftrightarrow> preempt_disable_count g = 0"

definition guard_acquire :: "guard_state \<Rightarrow> nat \<times> guard_state" where
  "guard_acquire g = local_irq_save_and_disable (disable_preempt g)"

definition guard_release :: "nat \<Rightarrow> guard_state \<Rightarrow> guard_state" where
  "guard_release st g = enable_preempt (local_irq_restore st g)"

subsection \<open>The futures\<close>

record YieldFuture =
  has_polled :: bool
  irq_state :: nat

type_synonym BlockFuture = YieldFuture

definition yield_new :: "guard_state \<Rightarrow> YieldFuture \<times> guard_state" where
  "yield_new g = (let (st, g') = guard_acquire g in (\<lparr>has_polled = False, irq_state = st\<rparr>, g'))"

definition yield_poll :: "YieldFuture \<Rightarrow> guard_state \<Rightarrow> unit poll \<times> YieldFuture \<times> guard_state" where
  "yield_poll f g =
     (if has_polled f then (Ready (), f, guard_release (irq_state f) g)
      else (Pending, f\<lparr>has_polled := True\<rparr>, g))"

definition block_new :: "guard_state \<Rightarrow> BlockFuture \<times> guard_state" where
  "block_new g = (let (st, g') = guard_acquire g in (\<lparr>has_polled = False, irq_state = st\<rparr>, g'))"

definition block_poll :: "BlockFuture \<Rightarrow> guard_state \<Rightarrow> unit poll \<times> BlockFuture \<times> guard_state" where
  "block_poll f g =
     (if has_polled f then (Ready (), f, guard_release (irq_state f) g)
      else let (st, g') = guard_acquire g
           in (Pending, f\<lparr>has_polled := True, irq_state := st\<rparr>, g'))"

definition exit_new :: "guard_state \<Rightarrow> nat \<times> guard_state" where
  "exit_new g = guard_acquire g"

definition exit_poll :: "nat \<Rightarrow> guard_state \<Rightarrow> unit poll \<times> nat \<times> guard_state" where
  "exit_poll f g = (let (st, g') = guard_acquire g in (Pending, st, g'))"

text \<open>A sleep sets an alarm on its first poll and cancels it on the second; \<open>now\<close> is what the
  clock shows during the poll.\<close>

datatype alarm_call = SetAlarm nat | CancelAlarm

record SleepFuture =
  has_sleep :: bool
  sleep_irq_state :: nat
  deadline :: nat

definition sleep_new :: "nat \<Rightarrow> guard_state \<Rightarrow> SleepFuture \<times> guard_state" where
  "sleep_new dl g =
     (let (st, g') = guard_acquire g
      in (\<lparr>has_sleep = False, sleep_irq_state = st, deadline = dl\<rparr>, g'))"

definition sleep_poll ::
  "nat \<Rightarrow> SleepFuture \<Rightarrow> guard_state \<Rightarrow> bool poll \<times> alarm_call \<times> SleepFuture \<times> guard_state" where
  "sleep_poll now f g =
     (if \<not> has_sleep f then (Pending, SetAlarm (deadline f), f\<lparr>has_sleep := True\<rparr>, g)
      else (Ready (now \<ge> deadline f), CancelAlarm, f, guard_release (sleep_irq_state f) g))"

text \<open>A join looks at the joined task: \<open>exited\<close> tells whether its state is \<open>Exited\<close>,
  \<open>code\<close> is its exit code, truncated to 32 bits. The last component of the result tells
  whether the waker was registered with the task (which also makes the caller \<open>Blocking\<close>).\<close>

record JoinFuture =
  res :: "int option"
  join_irq_state :: nat

definition as_i32 :: "int \<Rightarrow> int" where
  "as_i32 c = (c + 2 ^ 31) mod 2 ^ 32 - 2 ^ 31"

definition join_new :: "int option \<Rightarrow> JoinFuture" where
  "join_new r = \<lparr>res = r, join_irq_state = 0\<rparr>"

definition join_poll ::
  "bool \<Rightarrow> int \<Rightarrow> JoinFuture \<Rightarrow> guard_state \<Rightarrow> int option poll \<times> bool \<times> JoinFuture \<times> guard_state" where
  "join_poll exited code f g =
     (case res f of
        None \<Rightarrow>
          if exited then (Ready (Some (as_i32 code)), False, f, guard_release (join_irq_state f) g)
          else (let (st, g') = guard_acquire g in (Pending, True, f\<lparr>join_irq_state := st\<rparr>, g'))
      | Some r \<Rightarrow> (Ready (Some r), False, f\<lparr>res := None\<rparr>, guard_release (join_irq_state f) g))"

subsection \<open>Balance\<close>

lemmas guard_defs = guard_acquire_def guard_release_def local_irq_save_and_disable_def
  local_irq_restore_def disable_preempt_def enable_preempt_def SIE_BIT_def

lemma usub_uadd_one [simp]: "a < usize_lim \<Longrightarrow> usub (uadd a (Suc 0)) (Suc 0) = a"
  using usub_self_add [of 1 a] by (simp add: uadd_def)

text \<open>The guards field by field; the proofs below use only these.\<close>

lemma guard_acquire_fields [simp]:
  "fst (guard_acquire g) = (if sie g then SIE_BIT else 0)"
  "sie (snd (guard_acquire g)) \<longleftrightarrow> False"
  "has_current (snd (guard_acquire g)) = has_current g"
  "preempt_disable_count (snd (guard_acquire g)) =
     (if has_current g then uadd (preempt_disable_count g) 1 else preempt_disable_count g)"
  by (simp_all add: guard_defs)

lemma guard_release_fields [simp]:
  "sie (guard_release st g) \<longleftrightarrow> sie g \<or> odd (st div SIE_BIT)"
  "has_current (guard_release st g) = has_current g"
  "preempt_disable_count (guard_release st g) =
     (if has_current g then usub (preempt_disable_count g) 1 else preempt_disable_count g)"
  by (simp_all add: guard_defs)

lemma SIE_BIT_odd [simp]: "odd (SIE_BIT div SIE_BIT)" "even (0 div SIE_BIT)"
  by (simp_all add: SIE_BIT_def)

text \<open>What happens between two polls of a task: other tasks run, so the interrupt bit is
  whatever the executor leaves, while the counter belongs to the task and is unchanged.\<close>

definition resumed :: "guard_state \<Rightarrow> bool \<Rightarrow> guard_state" where
  "resumed g i = g\<lparr>sie := i\<rparr>"

lemmas future_defs = yield_new_def yield_poll_def block_new_def block_poll_def sleep_new_def
  sleep_poll_def join_poll_def join_new_def resumed_def

lemma counter_range: "uadd a b < usize_lim" "usub a b < usize_lim"
  by (simp_all add: uadd_def usub_def usize_lim_def)

lemma sleep_restores:
  assumes "preempt_disable_count g < usize_lim" and "sleep_new dl g = (f0, g0)"
    and "sleep_poll now0 f0 g0 = (r1, a1, f1, g1)"
    and "sleep_poll now f1 (resumed g1 i) = (r2, a2, f2, g2)"
  shows "r1 = Pending" "a1 = SetAlarm dl" "r2 = Ready (now \<ge> dl)" "a2 = CancelAlarm"
    "preempt_disable_count g2 = preempt_disable_count g" "sie g2 \<longleftrightarrow> i \<or> sie g"
  using assms by (auto simp: future_defs Let_def case_prod_beta)



text \<open>
  A completed \<open>block_current().await\<close> does not give back what it took. The future
  acquires the guard when it is created and once more when it is first polled, and releases it
  once: the task's preemption counter ends one higher than before, and interrupts stay off when
  the task is resumed with interrupts off, whatever they were before the call.
\<close>

lemma block_leaks_guard:
  assumes "has_current g" "preempt_disable_count g < usize_lim" and "block_new g = (f0, g0)"
    and "block_poll f0 g0 = (r1, f1, g1)" and "block_poll f1 (resumed g1 i) = (r2, f2, g2)"
  shows "r1 = Pending \<and> r2 = Ready () \<and>
    preempt_disable_count g2 = uadd (preempt_disable_count g) 1 \<and> (sie g2 \<longleftrightarrow> i)"
  using assms counter_range by (auto simp: future_defs Let_def case_prod_beta)

lemma block_leaks_guard_witness:
  "let g = \<lparr>sie = True, has_current = True, preempt_disable_count = 0\<rparr>;
       (f0, g0) = block_new g; (r1, f1, g1) = block_poll f0 g0;
       (r2, f2, g2) = block_poll f1 (resumed g1 False)
   in r2 = Ready () \<and> \<not> can_preempt g2 \<and> \<not> sie g2"
proof -
  let ?g = "\<lparr>sie = True, has_current = True, preempt_disable_count = 0\<rparr>"
  obtain f0 g0 where 1: "block_new ?g = (f0, g0)" by (cases "block_new ?g")
  obtain r1 f1 g1 where 2: "block_poll f0 g0 = (r1, f1, g1)" by (cases "block_poll f0 g0")
  obtain r2 f2 g2 where 3: "block_poll f1 (resumed g1 False) = (r2, f2, g2)"
    by (cases "block_poll f1 (resumed g1 False)")
  have "has_current ?g" "preempt_disable_count ?g < usize_lim" by (simp_all add: usize_lim_def)
  from block_leaks_guard [OF this 1 2 3] 1 2 3 show ?thesis
    by (simp add: can_preempt_def uadd_def usize_lim_def)
qed

text \<open>
  Joining a task that has already exited releases a guard that was never taken. The
  future returns the exit code, truncated to 32 bits, and registers no waker, but the caller's
  preemption counter is decremented; a counter of zero wraps to the largest value, after which
  the caller can no longer be preempted.
\<close>

lemma join_exited_underflows:
  assumes "has_current g" "preempt_disable_count g = 0"
    and "join_poll True code (join_new None) g = (r, reg, f, g')"
  shows "r = Ready (Some (as_i32 code)) \<and> \<not> reg \<and> preempt_disable_count g' = 2 ^ 64 - 1 \<and> \<not> can_preempt g'"
  using assms by (auto simp: future_defs can_preempt_def usub_def usize_lim_def)

lemma join_exited_underflows_witness:
  "let g = \<lparr>sie = True, has_current = True, preempt_disable_count = 0\<rparr>;
       (r, reg, f, g') = join_poll True 7 (join_new None) g
   in r = Ready (Some 7) \<and> \<not> can_preempt g'"
proof -
  let ?g = "\<lparr>sie = True, has_current = True, preempt_disable_count = 0\<rparr>"
  obtain r reg f g' where 1: "join_poll True 7 (join_new None) ?g = (r, reg, f, g')"
    by (cases "join_poll True 7 (join_new None) ?g")
  have "has_current ?g" "preempt_disable_count ?g = 0" by simp_all
  from join_exited_underflows [OF this 1] 1 show ?thesis
    by (simp add: as_i32_def)
qed

end
