(* ===== verification/Pipe.thy ===== *)
theory Pipe
  imports Open_Flags Task_Futures
begin

section \<open>Pipes (syscall/src/syscall_fs/ctype/pipe.rs)\<close>

text \<open>
  The ring buffer of a pipe, the two pipe ends and their file operations. A ring buffer
  refines the list of the bytes written and not yet read (\<open>rb_contents\<close>); the locale
  \<open>bounded_channel\<close> is that contract, and the loops of \<open>read\<close> and \<open>write\<close> are proved against
  it. The operations are single polls of the coroutine build: every \<open>FileIO\<close> call creates its
  future, polls it once and drops it, so a lock that is taken and a yield both end the call
  with \<open>Pending\<close>. Which locks are free and whether a signal is pending are read from the
  environment of the poll.
\<close>

subsection \<open>The ring buffer\<close>

datatype RingBufferStatus = Full | Empty | Normal

definition RING_BUFFER_SIZE :: nat where
  "RING_BUFFER_SIZE = 0x4000"

text \<open>The weak reference to the write end is \<open>Some ()\<close> once \<open>set_write_end\<close> has run; whether
  it can be upgraded is a fact about the reference counts of the pipe.\<close>

record PipeRingBuffer =
  arr :: "byte list"
  head :: nat
  tail :: nat
  status :: RingBufferStatus
  write_end :: "unit option"

definition ring_buffer_new :: PipeRingBuffer where
  "ring_buffer_new = \<lparr>arr = replicate RING_BUFFER_SIZE 0, head = 0, tail = 0, status = Empty,
     write_end = None\<rparr>"

definition set_write_end :: "PipeRingBuffer \<Rightarrow> PipeRingBuffer" where
  "set_write_end rb = rb\<lparr>write_end := Some ()\<rparr>"

definition write_byte :: "byte \<Rightarrow> PipeRingBuffer \<Rightarrow> PipeRingBuffer option" where
  "write_byte b rb =
     (if tail rb < length (arr rb) then
        let t = uadd (tail rb) 1 mod RING_BUFFER_SIZE
        in Some (rb\<lparr>arr := (arr rb)[tail rb := b], tail := t,
                    status := if t = head rb then Full else Normal\<rparr>)
      else None)"

definition read_byte :: "PipeRingBuffer \<Rightarrow> (byte \<times> PipeRingBuffer) option" where
  "read_byte rb =
     (if head rb < length (arr rb) then
        let h = uadd (head rb) 1 mod RING_BUFFER_SIZE
        in Some (arr rb ! head rb,
                 rb\<lparr>head := h, status := if h = tail rb then Empty else Normal\<rparr>)
      else None)"

definition available_read :: "PipeRingBuffer \<Rightarrow> nat" where
  "available_read rb =
     (if status rb = Empty then 0
      else if tail rb > head rb then usub (tail rb) (head rb)
      else usub (uadd (tail rb) RING_BUFFER_SIZE) (head rb))"

definition available_write :: "PipeRingBuffer \<Rightarrow> nat" where
  "available_write rb =
     (if status rb = Full then 0 else usub RING_BUFFER_SIZE (available_read rb))"

text \<open>\<open>all_write_ends_closed\<close> unwraps the weak reference: it panics before
  \<open>set_write_end\<close> has run.\<close>

definition all_write_ends_closed :: "bool \<Rightarrow> PipeRingBuffer \<Rightarrow> bool option" where
  "all_write_ends_closed alive rb = (case write_end rb of None \<Rightarrow> None | Some _ \<Rightarrow> Some (\<not> alive))"

subsection \<open>The ring buffer refines a bounded list of bytes\<close>

definition rb_inv :: "PipeRingBuffer \<Rightarrow> bool" where
  "rb_inv rb \<longleftrightarrow> length (arr rb) = RING_BUFFER_SIZE \<and> head rb < RING_BUFFER_SIZE \<and>
     tail rb < RING_BUFFER_SIZE \<and> (status rb = Normal \<longleftrightarrow> head rb \<noteq> tail rb)"

definition rb_contents :: "PipeRingBuffer \<Rightarrow> byte list" where
  "rb_contents rb =
     map (\<lambda>i. arr rb ! ((head rb + i) mod RING_BUFFER_SIZE)) [0..<available_read rb]"

lemma ring_size_bounds: "0 < RING_BUFFER_SIZE" "RING_BUFFER_SIZE + RING_BUFFER_SIZE < usize_lim"
  by (simp_all add: RING_BUFFER_SIZE_def usize_lim_def)

lemma available_read_eq:
  "rb_inv rb \<Longrightarrow> available_read rb =
     (if status rb = Empty then 0 else if tail rb > head rb then tail rb - head rb
      else tail rb + RING_BUFFER_SIZE - head rb)"
  using ring_size_bounds
  by (auto simp: available_read_def rb_inv_def usub_eq uadd_eq)

lemma length_rb_contents [simp]: "length (rb_contents rb) = available_read rb"
  by (simp add: rb_contents_def)

lemma rb_contents_bound: "rb_inv rb \<Longrightarrow> available_read rb \<le> RING_BUFFER_SIZE"
  using ring_size_bounds by (auto simp: available_read_eq rb_inv_def)

lemma available_write_eq: "rb_inv rb \<Longrightarrow> available_write rb = RING_BUFFER_SIZE - available_read rb"
proof -
  assume inv: "rb_inv rb"
  then have "available_read rb \<le> RING_BUFFER_SIZE"
    by (rule rb_contents_bound)
  moreover have "available_read rb = RING_BUFFER_SIZE" if "status rb = Full"
    using inv that by (auto simp: available_read_eq rb_inv_def)
  ultimately show ?thesis
    using ring_size_bounds by (auto simp: available_write_def usub_eq)
qed

lemma rb_inv_new [simp]: "rb_inv ring_buffer_new" and rb_contents_new [simp]: "rb_contents ring_buffer_new = []"
  using ring_size_bounds by (simp_all add: rb_inv_def ring_buffer_new_def rb_contents_def available_read_def)

lemma mod_ring: "a < RING_BUFFER_SIZE \<Longrightarrow> i \<le> RING_BUFFER_SIZE \<Longrightarrow>
    (a + i) mod RING_BUFFER_SIZE =
      (if a + i < RING_BUFFER_SIZE then a + i else a + i - RING_BUFFER_SIZE)"
  by (simp add: mod_if)

lemma uadd_one_mod_ring: "a < RING_BUFFER_SIZE \<Longrightarrow>
    uadd a 1 mod RING_BUFFER_SIZE = (if a + 1 = RING_BUFFER_SIZE then 0 else a + 1)"
  using ring_size_bounds by (auto simp: uadd_eq mod_if)

lemma write_byte_ok:
  assumes inv: "rb_inv rb" and room: "available_read rb < RING_BUFFER_SIZE"
  obtains rb' where "write_byte b rb = Some rb'" "rb_inv rb'"
    "rb_contents rb' = rb_contents rb @ [b]" "write_end rb' = write_end rb"
proof -
  from inv have nfull: "status rb \<noteq> Full"
    using room by (auto simp: available_read_eq rb_inv_def)
  define t where "t = uadd (tail rb) 1 mod RING_BUFFER_SIZE"
  define rb' where "rb' = rb\<lparr>arr := (arr rb)[tail rb := b], tail := t,
                    status := if t = head rb then Full else Normal\<rparr>"
  have t: "t = (if tail rb + 1 = RING_BUFFER_SIZE then 0 else tail rb + 1)"
    using inv unfolding t_def rb_inv_def by (intro uadd_one_mod_ring) simp
  have step: "write_byte b rb = Some rb'"
    using inv by (simp add: write_byte_def rb'_def t_def rb_inv_def Let_def)
  have inv': "rb_inv rb'"
    using inv ring_size_bounds by (auto simp: rb'_def rb_inv_def t)
  have len: "available_read rb' = Suc (available_read rb)"
  proof -
    have "status rb' \<noteq> Empty" "tail rb' = t" "head rb' = head rb"
      by (simp_all add: rb'_def)
    then have "available_read rb' =
        (if head rb < t then t - head rb else t + RING_BUFFER_SIZE - head rb)"
      using inv' by (simp add: available_read_eq)
    moreover have "status rb = Empty \<longleftrightarrow> head rb = tail rb" "head rb < RING_BUFFER_SIZE"
      "tail rb < RING_BUFFER_SIZE"
      using inv nfull by (cases "status rb"; simp add: rb_inv_def)+
    ultimately show ?thesis
      unfolding available_read_eq [OF inv] t by auto
  qed
  have bounds: "head rb < RING_BUFFER_SIZE" "tail rb < RING_BUFFER_SIZE"
    "status rb = Empty \<longleftrightarrow> head rb = tail rb"
    using inv nfull by (cases "status rb"; simp add: rb_inv_def)+
  have last: "(head rb + available_read rb) mod RING_BUFFER_SIZE = tail rb"
    using bounds room by (simp add: mod_ring available_read_eq [OF inv])
  have old: "(head rb + i) mod RING_BUFFER_SIZE \<noteq> tail rb" if "i < available_read rb" for i
  proof -
    have "i < RING_BUFFER_SIZE"
      using that room by simp
    with bounds that show ?thesis
      by (auto simp: mod_ring available_read_eq [OF inv] split: if_splits)
  qed
  have "rb_contents rb' = rb_contents rb @ [b]"
  proof -
    have "arr rb' ! ((head rb' + i) mod RING_BUFFER_SIZE) = arr rb ! ((head rb + i) mod RING_BUFFER_SIZE)"
      if "i < available_read rb" for i
      using old [OF that] by (simp add: rb'_def)
    moreover have "arr rb' ! ((head rb' + available_read rb) mod RING_BUFFER_SIZE) = b"
      using inv last by (simp add: rb'_def rb_inv_def)
    ultimately show ?thesis
      unfolding rb_contents_def len by simp
  qed
  moreover have "write_end rb' = write_end rb"
    by (simp add: rb'_def)
  ultimately show ?thesis
    using step inv' by (intro that)
qed

lemma read_byte_ok:
  assumes inv: "rb_inv rb" and some: "0 < available_read rb"
  obtains rb' where "read_byte rb = Some (hd (rb_contents rb), rb')" "rb_inv rb'"
    "rb_contents rb' = tl (rb_contents rb)" "write_end rb' = write_end rb"
proof -
  from inv have nempty: "status rb \<noteq> Empty"
    using some by (auto simp: available_read_eq)
  define h where "h = uadd (head rb) 1 mod RING_BUFFER_SIZE"
  define rb' where "rb' = rb\<lparr>head := h, status := if h = tail rb then Empty else Normal\<rparr>"
  have h: "h = (if head rb + 1 = RING_BUFFER_SIZE then 0 else head rb + 1)"
    using inv unfolding h_def rb_inv_def by (intro uadd_one_mod_ring) simp
  have hd: "hd (rb_contents rb) = arr rb ! head rb"
    using inv some by (simp add: rb_contents_def hd_map rb_inv_def)
  have step: "read_byte rb = Some (hd (rb_contents rb), rb')"
    using inv by (simp add: read_byte_def rb'_def h_def rb_inv_def Let_def hd)
  have inv': "rb_inv rb'"
    using inv ring_size_bounds by (auto simp: rb'_def rb_inv_def h)
  have len: "available_read rb' = available_read rb - 1"
  proof -
    have "status rb' = Empty \<longleftrightarrow> h = tail rb" "head rb' = h" "tail rb' = tail rb"
      by (simp_all add: rb'_def)
    then have "available_read rb' = (if h = tail rb then 0
        else if h < tail rb then tail rb - h else tail rb + RING_BUFFER_SIZE - h)"
      using inv' by (simp add: available_read_eq)
    moreover have "head rb < RING_BUFFER_SIZE" "tail rb < RING_BUFFER_SIZE"
      using inv by (simp_all add: rb_inv_def)
    ultimately show ?thesis
      using nempty unfolding available_read_eq [OF inv] h by auto
  qed
  have shift: "(h + i) mod RING_BUFFER_SIZE = (head rb + Suc i) mod RING_BUFFER_SIZE" for i
  proof -
    have "h = Suc (head rb) mod RING_BUFFER_SIZE"
      using inv by (simp add: h rb_inv_def)
    then show ?thesis
      by (simp add: mod_add_left_eq)
  qed
  have "rb_contents rb' = tl (rb_contents rb)"
    unfolding rb_contents_def len
    by (intro nth_equalityI) (simp_all add: nth_tl shift rb'_def less_diff_conv)
  moreover have "write_end rb' = write_end rb"
    by (simp add: rb'_def)
  ultimately show ?thesis
    using step inv' by (intro that)
qed

subsection \<open>The channel contract and the transfer loops\<close>

text \<open>
  The \<open>for _ in 0..loop_read\<close> and \<open>for _ in 0..loop_write\<close> loops of the two file operations,
  over the byte operations they call. The bytes stored through \<open>buf_iter\<close> are returned as the
  list \<open>out\<close>; its length is \<open>already_read\<close>.
\<close>

fun read_loop ::
  "('s \<Rightarrow> ('a \<times> 's) option) \<Rightarrow> nat \<Rightarrow> nat \<Rightarrow> 'a list \<Rightarrow> 's \<Rightarrow> ('a list \<times> 's) option" where
  "read_loop get 0 want out s = Some (out, s)"
| "read_loop get (Suc n) want out s =
     (if length out < want then do {
        (c, s') \<leftarrow> get s;
        if Suc (length out) = want then Some (out @ [c], s')
        else read_loop get n want (out @ [c]) s'
      } else Some (out, s))"

fun write_loop ::
  "('a \<Rightarrow> 's \<Rightarrow> 's option) \<Rightarrow> nat \<Rightarrow> 'a list \<Rightarrow> nat \<Rightarrow> nat \<Rightarrow> 's \<Rightarrow> (nat \<times> 's) option" where
  "write_loop put 0 buf already want s = Some (already, s)"
| "write_loop put (Suc n) [] already want s = Some (already, s)"
| "write_loop put (Suc n) (b # buf) already want s = do {
     s' \<leftarrow> put b s;
     if already + 1 = want then Some (want, s')
     else write_loop put n buf (already + 1) want s'
   }"

locale bounded_channel =
  fixes contents :: "'s \<Rightarrow> 'a list"
    and inv :: "'s \<Rightarrow> bool"
    and cap :: nat
    and put :: "'a \<Rightarrow> 's \<Rightarrow> 's option"
    and get :: "'s \<Rightarrow> ('a \<times> 's) option"
    and tag :: "'s \<Rightarrow> 't"
  assumes bounded: "inv s \<Longrightarrow> length (contents s) \<le> cap"
    and put_ok: "inv s \<Longrightarrow> length (contents s) < cap \<Longrightarrow>
      \<exists>s'. put a s = Some s' \<and> inv s' \<and> contents s' = contents s @ [a] \<and> tag s' = tag s"
    and get_ok: "inv s \<Longrightarrow> contents s \<noteq> [] \<Longrightarrow>
      \<exists>s'. get s = Some (hd (contents s), s') \<and> inv s' \<and> contents s' = tl (contents s) \<and> tag s' = tag s"
begin

lemma read_loop_ok:
  "inv s \<Longrightarrow> n \<le> length (contents s) \<Longrightarrow> length out \<le> want \<Longrightarrow>
   \<exists>s'. read_loop get n want out s = Some (out @ take (min n (want - length out)) (contents s), s') \<and>
     inv s' \<and> contents s' = drop (min n (want - length out)) (contents s) \<and> tag s' = tag s"
proof (induction n arbitrary: out s)
  case 0
  then show ?case by simp
next
  case (Suc n)
  show ?case
  proof (cases "length out < want")
    case False
    with Suc.prems show ?thesis by simp
  next
    case True
    from Suc.prems obtain c cs where cs: "contents s = c # cs"
      by (cases "contents s") auto
    with get_ok [of s] Suc.prems obtain s' where
      s': "get s = Some (c, s')" "inv s'" "contents s' = cs" "tag s' = tag s"
      by auto
    define k where "k = want - Suc (length out)"
    have k: "want - length out = Suc k"
      using True by (simp add: k_def)
    show ?thesis
    proof (cases "Suc (length out) = want")
      case True
      then have "k = 0" by (simp add: k_def)
      with True s' cs k show ?thesis by simp
    next
      case ne: False
      with Suc.IH [of s' "out @ [c]"] s' cs Suc.prems True
      obtain s'' where "read_loop get n want (out @ [c]) s' = Some (out @ c # take (min n k) cs, s'')"
          "inv s''" "contents s'' = drop (min n k) cs" "tag s'' = tag s"
        by (auto simp: k_def)
      with True ne s' cs k show ?thesis by simp
    qed
  qed
qed

lemma write_loop_ok:
  "inv s \<Longrightarrow> n \<le> cap - length (contents s) \<Longrightarrow> want = already + length buf \<Longrightarrow>
   \<exists>s'. write_loop put n buf already want s = Some (already + min n (length buf), s') \<and>
     inv s' \<and> contents s' = contents s @ take n buf \<and> tag s' = tag s"
proof (induction n arbitrary: buf already s)
  case 0
  then show ?case by simp
next
  case (Suc n)
  show ?case
  proof (cases buf)
    case Nil
    with Suc.prems show ?thesis by simp
  next
    case (Cons b bs)
    with put_ok [of s b] Suc.prems obtain s' where
      s': "put b s = Some s'" "inv s'" "contents s' = contents s @ [b]" "tag s' = tag s"
      by fastforce
    moreover have "n \<le> cap - length (contents s')" "want = already + 1 + length bs"
      using s'(3) Cons Suc.prems by simp_all
    ultimately obtain s'' where
        "write_loop put n bs (already + 1) want s' = Some (already + 1 + min n (length bs), s'')"
        "inv s''" "contents s'' = contents s @ b # take n bs" "tag s'' = tag s"
      using Suc.IH [of s' "already + 1" bs] by auto
    with s' Cons Suc.prems show ?thesis by auto
  qed
qed

end

interpretation ring: bounded_channel rb_contents rb_inv RING_BUFFER_SIZE write_byte read_byte write_end
proof unfold_locales
  fix s a
  assume inv: "rb_inv s"
  then show "length (rb_contents s) \<le> RING_BUFFER_SIZE"
    by (simp add: rb_contents_bound)
  show "\<exists>s'. write_byte a s = Some s' \<and> rb_inv s' \<and> rb_contents s' = rb_contents s @ [a] \<and>
      write_end s' = write_end s" if "length (rb_contents s) < RING_BUFFER_SIZE"
  proof -
    from that have "available_read s < RING_BUFFER_SIZE"
      by simp
    then show ?thesis
      by (rule write_byte_ok [OF inv, of a]) blast
  qed
  show "\<exists>s'. read_byte s = Some (hd (rb_contents s), s') \<and> rb_inv s' \<and>
      rb_contents s' = tl (rb_contents s) \<and> write_end s' = write_end s" if "rb_contents s \<noteq> []"
  proof -
    from that have "0 < length (rb_contents s)"
      by blast
    then have "0 < available_read s"
      by simp
    then show ?thesis
      by (rule read_byte_ok [OF inv]) blast
  qed
qed

subsection \<open>Pipe ends and their file operations\<close>

record Pipe =
  readable :: bool
  writable :: bool
  flags :: OpenFlags

definition read_end_with_buffer :: "OpenFlags \<Rightarrow> Pipe" where
  "read_end_with_buffer fl = \<lparr>readable = True, writable = False, flags = fl OR RDONLY\<rparr>"

definition write_end_with_buffer :: "OpenFlags \<Rightarrow> Pipe" where
  "write_end_with_buffer fl = \<lparr>readable = False, writable = True, flags = fl OR WRONLY\<rparr>"

text \<open>
  What a poll meets outside the pipe: whether the buffer lock, the executor's signal state and
  the flag lock can be taken now, and whether \<open>have_signals\<close> then returns a signal.
\<close>

record poll_env =
  buffer_lock_free :: bool
  signal_state_ready :: bool
  have_signals :: bool
  flags_lock_free :: bool

text \<open>\<open>is_non_block\<close> awaits the flag lock. \<open>yield_now().await\<close> creates a yield future and polls
  it; if that is pending, the future of the whole call is dropped with the yield future in it,
  which has no destructor. The guard state is threaded through for that reason. A yield that
  is ready on its first poll exists only in the thread build; \<open>yield_await_pending\<close> shows that
  the branch after it is not reached here.\<close>

definition is_non_block :: "poll_env \<Rightarrow> Pipe \<Rightarrow> bool poll" where
  "is_non_block env p =
     (if flags_lock_free env then Ready (contains_flag (flags p) NON_BLOCK) else Pending)"

definition yield_await :: "guard_state \<Rightarrow> unit poll \<times> guard_state" where
  "yield_await g =
     (let (f, g') = yield_new g; (r, _, g'') = yield_poll f g' in (r, g''))"

definition pipe_read ::
  "poll_env \<Rightarrow> nat \<Rightarrow> bool \<Rightarrow> Pipe \<Rightarrow> nat \<Rightarrow> PipeRingBuffer \<Rightarrow> guard_state \<Rightarrow>
     (byte list ax_result poll \<times> PipeRingBuffer \<times> guard_state) option" where
  "pipe_read env strong alive p want rb g =
     (if \<not> readable p then None
      else if \<not> buffer_lock_free env then Some (Pending, rb, g)
      else let loop_read = available_read rb in
        if loop_read = 0 then
          if \<not> signal_state_ready env then Some (Pending, rb, g)
          else if have_signals env then Some (Ready (Inl Interrupted), rb, g)
          else do {
            closed \<leftarrow> (if strong < 2 then Some True else all_write_ends_closed alive rb);
            if closed then Some (Ready (Inr []), rb, g)
            else Some (case is_non_block env p of
                Pending \<Rightarrow> (Pending, rb, g)
              | Ready nb \<Rightarrow> (case yield_await g of
                    (Pending, g') \<Rightarrow> (Pending, rb, g')
                  | (Ready _, g') \<Rightarrow> (if nb then Ready (Inl WouldBlock) else Pending, rb, g')))
          }
        else do {
          (out, rb') \<leftarrow> read_loop read_byte loop_read want [] rb;
          Some (Ready (Inr out), rb', g)
        })"

definition pipe_write ::
  "poll_env \<Rightarrow> nat \<Rightarrow> Pipe \<Rightarrow> byte list \<Rightarrow> PipeRingBuffer \<Rightarrow> guard_state \<Rightarrow>
     (nat ax_result poll \<times> PipeRingBuffer \<times> guard_state) option" where
  "pipe_write env strong p buf rb g =
     (if \<not> writable p then None
      else if \<not> buffer_lock_free env then Some (Pending, rb, g)
      else let loop_write = available_write rb in
        if loop_write = 0 then
          Some (if strong < 2 then (Ready (Inr 0), rb, g)
                else (case is_non_block env p of
                    Pending \<Rightarrow> (Pending, rb, g)
                  | Ready True \<Rightarrow> (Ready (Inr 0), rb, g)
                  | Ready False \<Rightarrow> (Pending, rb, snd (yield_await g))))
        else do {
          (n, rb') \<leftarrow> write_loop write_byte loop_write buf 0 (length buf) rb;
          Some (Ready (Inr n), rb', g)
        })"

definition is_hang_up :: "poll_env \<Rightarrow> nat \<Rightarrow> bool \<Rightarrow> Pipe \<Rightarrow> PipeRingBuffer \<Rightarrow> bool poll option" where
  "is_hang_up env strong alive p rb =
     (if readable p then
        if \<not> buffer_lock_free env then Some Pending
        else if available_read rb = 0 then map_option Ready (all_write_ends_closed alive rb)
        else Some (Ready False)
      else Some (Ready (strong < 2)))"

definition ready_to_read :: "poll_env \<Rightarrow> Pipe \<Rightarrow> PipeRingBuffer \<Rightarrow> bool poll" where
  "ready_to_read env p rb =
     (if \<not> readable p then Ready False
      else if buffer_lock_free env then Ready (available_read rb \<noteq> 0) else Pending)"

definition ready_to_write :: "poll_env \<Rightarrow> Pipe \<Rightarrow> PipeRingBuffer \<Rightarrow> bool poll" where
  "ready_to_write env p rb =
     (if \<not> writable p then Ready False
      else if buffer_lock_free env then Ready (available_write rb \<noteq> 0) else Pending)"

definition get_status :: "poll_env \<Rightarrow> Pipe \<Rightarrow> OpenFlags poll" where
  "get_status env p = (if flags_lock_free env then Ready (flags p) else Pending)"

definition set_status :: "poll_env \<Rightarrow> OpenFlags \<Rightarrow> Pipe \<Rightarrow> bool poll \<times> Pipe" where
  "set_status env fl p =
     (if flags_lock_free env then (Ready True, p\<lparr>flags := fl\<rparr>) else (Pending, p))"

definition set_close_on_exec :: "poll_env \<Rightarrow> bool \<Rightarrow> Pipe \<Rightarrow> bool poll \<times> Pipe" where
  "set_close_on_exec env is_set p =
     (if flags_lock_free env then
        (Ready True, p\<lparr>flags := if is_set then flags p OR CLOEXEC
                              else flags p AND flag_complement CLOEXEC\<rparr>)
      else (Pending, p))"

subsection \<open>What one poll of read and write does\<close>

lemma yield_await_pending [simp]: "fst (yield_await g) = Pending"
  by (simp add: yield_await_def yield_new_def yield_poll_def case_prod_beta Let_def)

lemma yield_await_eq: "yield_await g = (Pending, snd (guard_acquire g))"
  by (simp add: yield_await_def yield_new_def yield_poll_def case_prod_beta Let_def)

lemma pipe_read_empty:
  assumes "readable p" "write_end rb \<noteq> None" "buffer_lock_free env" "signal_state_ready env"
    and "available_read rb = 0"
  shows "pipe_read env strong alive p want rb g =
    Some (if have_signals env then (Ready (Inl Interrupted), rb, g)
          else if strong < 2 \<or> \<not> alive then (Ready (Inr []), rb, g)
          else (Pending, rb, if flags_lock_free env then snd (guard_acquire g) else g))"
  using assms
  by (auto simp: pipe_read_def all_write_ends_closed_def is_non_block_def yield_await_eq)

lemma pipe_read_data:
  assumes "readable p" "rb_inv rb" "buffer_lock_free env" "available_read rb \<noteq> 0"
  obtains rb' where
    "pipe_read env strong alive p want rb g = Some (Ready (Inr (take want (rb_contents rb))), rb', g)"
    "rb_inv rb'" "rb_contents rb' = drop want (rb_contents rb)" "write_end rb' = write_end rb"
proof -
  have len: "length (rb_contents rb) = available_read rb"
    by simp
  from ring.read_loop_ok [of rb "available_read rb" "[]" want] assms
  obtain rb' where rb': "read_loop read_byte (available_read rb) want [] rb =
      Some (take (min (available_read rb) want) (rb_contents rb), rb')" "rb_inv rb'"
      "rb_contents rb' = drop (min (available_read rb) want) (rb_contents rb)"
      "write_end rb' = write_end rb"
    by auto
  show ?thesis
    by (rule that [of rb'])
      (use assms rb' len in \<open>simp_all add: pipe_read_def min_def split: if_splits\<close>)
qed

lemma pipe_write_data:
  assumes "writable p" "rb_inv rb" "buffer_lock_free env" "available_write rb \<noteq> 0"
  obtains rb' where
    "pipe_write env strong p buf rb g = Some (Ready (Inr (min (available_write rb) (length buf))), rb', g)"
    "rb_inv rb'" "rb_contents rb' = rb_contents rb @ take (available_write rb) buf"
    "write_end rb' = write_end rb"
proof -
  from ring.write_loop_ok [of rb "available_write rb" "length buf" 0 buf] assms
  obtain rb' where "write_loop write_byte (available_write rb) buf 0 (length buf) rb =
      Some (min (available_write rb) (length buf), rb')" "rb_inv rb'"
      "rb_contents rb' = rb_contents rb @ take (available_write rb) buf"
      "write_end rb' = write_end rb"
    by (auto simp: available_write_eq)
  with assms show ?thesis
    by (intro that [of rb']) (simp_all add: pipe_write_def)
qed

lemma pipe_write_full:
  assumes "writable p" "buffer_lock_free env" "available_write rb = 0"
  shows "pipe_write env strong p buf rb g =
    Some (if strong < 2 then (Ready (Inr 0), rb, g)
          else if \<not> flags_lock_free env then (Pending, rb, g)
          else if contains_flag (flags p) NON_BLOCK then (Ready (Inr 0), rb, g)
          else (Pending, rb, snd (guard_acquire g)))"
  using assms by (auto simp: pipe_write_def is_non_block_def yield_await_eq)

subsection \<open>A pipe and its two ends\<close>

text \<open>
  A pipe made by \<open>make_pipe\<close>: the shared buffer, the two ends, and how many references each
  end has. The last reference to an end drops the end and with it one reference to the buffer;
  the weak reference to the write end can be upgraded as long as the write end lives.
\<close>

record pipe_sys =
  ring :: PipeRingBuffer
  rd_end :: Pipe
  wr_end :: Pipe
  rd_refs :: nat
  wr_refs :: nat

definition make_pipe :: "OpenFlags \<Rightarrow> pipe_sys" where
  "make_pipe fl = \<lparr>ring = set_write_end ring_buffer_new, rd_end = read_end_with_buffer fl,
     wr_end = write_end_with_buffer fl, rd_refs = 1, wr_refs = 1\<rparr>"

definition buffer_strong_count :: "pipe_sys \<Rightarrow> nat" where
  "buffer_strong_count s = (if rd_refs s = 0 then 0 else 1) + (if wr_refs s = 0 then 0 else 1)"

definition sys_read where
  "sys_read env want s g =
     pipe_read env (buffer_strong_count s) (wr_refs s \<noteq> 0) (rd_end s) want (ring s) g"

definition sys_write where
  "sys_write env buf s g = pipe_write env (buffer_strong_count s) (wr_end s) buf (ring s) g"

text \<open>
  The runs of a pipe: any interleaving of polled reads and writes through live references, of
  cloned and dropped references, and of flag changes. \<open>pipe_run fl W R s\<close>: the calls so far
  accepted the bytes \<open>W\<close> from writers and delivered the bytes \<open>R\<close> to readers, and the pipe is now
  in state \<open>s\<close>.
\<close>

inductive pipe_run :: "OpenFlags \<Rightarrow> byte list \<Rightarrow> byte list \<Rightarrow> pipe_sys \<Rightarrow> bool" for fl where
  pr_init: "pipe_run fl [] [] (make_pipe fl)"
| pr_read: "pipe_run fl W R s \<Longrightarrow> 0 < rd_refs s \<Longrightarrow>
    sys_read env want s g = Some (Ready (Inr out), rb', g') \<Longrightarrow> pipe_run fl W (R @ out) (s\<lparr>ring := rb'\<rparr>)"
| pr_read_none: "pipe_run fl W R s \<Longrightarrow> 0 < rd_refs s \<Longrightarrow>
    sys_read env want s g = Some (r, rb', g') \<Longrightarrow> (\<forall>out. r \<noteq> Ready (Inr out)) \<Longrightarrow>
    pipe_run fl W R (s\<lparr>ring := rb'\<rparr>)"
| pr_write: "pipe_run fl W R s \<Longrightarrow> 0 < wr_refs s \<Longrightarrow>
    sys_write env buf s g = Some (Ready (Inr n), rb', g') \<Longrightarrow>
    pipe_run fl (W @ take n buf) R (s\<lparr>ring := rb'\<rparr>)"
| pr_write_none: "pipe_run fl W R s \<Longrightarrow> 0 < wr_refs s \<Longrightarrow>
    sys_write env buf s g = Some (r, rb', g') \<Longrightarrow> (\<forall>n. r \<noteq> Ready (Inr n)) \<Longrightarrow>
    pipe_run fl W R (s\<lparr>ring := rb'\<rparr>)"
| pr_clone_rd: "pipe_run fl W R s \<Longrightarrow> 0 < rd_refs s \<Longrightarrow> pipe_run fl W R (s\<lparr>rd_refs := Suc (rd_refs s)\<rparr>)"
| pr_clone_wr: "pipe_run fl W R s \<Longrightarrow> 0 < wr_refs s \<Longrightarrow> pipe_run fl W R (s\<lparr>wr_refs := Suc (wr_refs s)\<rparr>)"
| pr_drop_rd: "pipe_run fl W R s \<Longrightarrow> 0 < rd_refs s \<Longrightarrow> pipe_run fl W R (s\<lparr>rd_refs := rd_refs s - 1\<rparr>)"
| pr_drop_wr: "pipe_run fl W R s \<Longrightarrow> 0 < wr_refs s \<Longrightarrow> pipe_run fl W R (s\<lparr>wr_refs := wr_refs s - 1\<rparr>)"
| pr_status_rd: "pipe_run fl W R s \<Longrightarrow> 0 < rd_refs s \<Longrightarrow>
    pipe_run fl W R (s\<lparr>rd_end := snd (set_status env new (rd_end s))\<rparr>)"
| pr_status_wr: "pipe_run fl W R s \<Longrightarrow> 0 < wr_refs s \<Longrightarrow>
    pipe_run fl W R (s\<lparr>wr_end := snd (set_status env new (wr_end s))\<rparr>)"

definition pipe_ok :: "byte list \<Rightarrow> byte list \<Rightarrow> pipe_sys \<Rightarrow> bool" where
  "pipe_ok W R s \<longleftrightarrow> rb_inv (ring s) \<and> write_end (ring s) \<noteq> None \<and> readable (rd_end s) \<and>
     writable (wr_end s) \<and> R @ rb_contents (ring s) = W"

lemma read_keeps_bytes:
  assumes "rb_inv rb" "write_end rb \<noteq> None" "readable p"
  obtains r rb' g' where "pipe_read env strong alive p want rb g = Some (r, rb', g')" "rb_inv rb'"
    "write_end rb' \<noteq> None"
    "case r of Ready (Inr out) \<Rightarrow> out @ rb_contents rb' = rb_contents rb | _ \<Rightarrow> rb' = rb"
proof (cases "buffer_lock_free env \<and> available_read rb \<noteq> 0")
  case True
  then obtain rb' where
    "pipe_read env strong alive p want rb g = Some (Ready (Inr (take want (rb_contents rb))), rb', g)"
    "rb_inv rb'" "rb_contents rb' = drop want (rb_contents rb)" "write_end rb' = write_end rb"
    using pipe_read_data [of p rb env strong alive want g] assms by blast
  with assms show ?thesis
    by (intro that [of "Ready (Inr (take want (rb_contents rb)))" rb' g]) simp_all
next
  case False
  show ?thesis
  proof (cases "buffer_lock_free env \<and> signal_state_ready env")
    case True
    with False have empty: "rb_contents rb = []"
      by (simp flip: length_0_conv)
    from True False obtain r g' where
      "pipe_read env strong alive p want rb g = Some (r, rb, g')" "\<And>out. r = Ready (Inr out) \<Longrightarrow> out = []"
      using pipe_read_empty [of p rb env strong alive want g] assms by (auto split: if_splits)
    with assms empty show ?thesis
      by (intro that [of r rb g']) (auto split: poll.splits sum.splits)
  next
    case blocked: False
    with False assms show ?thesis
      by (intro that [of Pending rb g]) (auto simp: pipe_read_def)
  qed
qed

lemma write_keeps_bytes:
  assumes "rb_inv rb" "write_end rb \<noteq> None" "writable p"
  obtains r rb' g' where "pipe_write env strong p buf rb g = Some (r, rb', g')" "rb_inv rb'"
    "write_end rb' \<noteq> None"
    "case r of Ready (Inr n) \<Rightarrow> n \<le> length buf \<and> rb_contents rb' = rb_contents rb @ take n buf | _ \<Rightarrow> rb' = rb"
proof (cases "buffer_lock_free env \<and> available_write rb \<noteq> 0")
  case True
  then obtain rb' where
    "pipe_write env strong p buf rb g = Some (Ready (Inr (min (available_write rb) (length buf))), rb', g)"
    "rb_inv rb'" "rb_contents rb' = rb_contents rb @ take (available_write rb) buf" "write_end rb' = write_end rb"
    using pipe_write_data [of p rb env strong buf g] assms by blast
  with assms show ?thesis
    by (intro that [of "Ready (Inr (min (available_write rb) (length buf)))" rb' g]) (simp_all add: min_def)
next
  case False
  have "\<exists>r g'. pipe_write env strong p buf rb g = Some (r, rb, g') \<and> (\<forall>n. r = Ready (Inr n) \<longrightarrow> n = 0)"
  proof (cases "buffer_lock_free env")
    case True
    with False assms show ?thesis by (simp add: pipe_write_full)
  next
    case False
    with assms show ?thesis by (simp add: pipe_write_def)
  qed
  then obtain r g' where "pipe_write env strong p buf rb g = Some (r, rb, g')" "\<And>n. r = Ready (Inr n) \<Longrightarrow> n = 0"
    by blast
  with assms show ?thesis
    by (intro that [of r rb g']) (auto split: poll.splits sum.splits)
qed

lemma read_step:
  assumes "rb_inv rb" "write_end rb \<noteq> None" "readable p"
    and "pipe_read env strong alive p want rb g = Some (r, rb', g')"
  shows "rb_inv rb' \<and> write_end rb' \<noteq> None \<and>
    (case r of Ready (Inr out) \<Rightarrow> out @ rb_contents rb' = rb_contents rb | _ \<Rightarrow> rb' = rb)"
  using assms(4) by (rule_tac read_keeps_bytes [OF assms(1-3), of env strong alive want g]) simp

lemma write_step:
  assumes "rb_inv rb" "write_end rb \<noteq> None" "writable p"
    and "pipe_write env strong p buf rb g = Some (r, rb', g')"
  shows "rb_inv rb' \<and> write_end rb' \<noteq> None \<and>
    (case r of Ready (Inr n) \<Rightarrow> n \<le> length buf \<and> rb_contents rb' = rb_contents rb @ take n buf | _ \<Rightarrow> rb' = rb)"
  using assms(4) by (rule_tac write_keeps_bytes [OF assms(1-3), of env strong buf g]) simp

lemma pipe_ok_init: "pipe_ok [] [] (make_pipe fl)"
proof -
  have "rb_inv (set_write_end ring_buffer_new)" "rb_contents (set_write_end ring_buffer_new) = []"
    using ring_size_bounds
    by (simp_all add: set_write_end_def rb_inv_def rb_contents_def available_read_def ring_buffer_new_def)
  then show ?thesis
    by (simp add: pipe_ok_def make_pipe_def read_end_with_buffer_def write_end_with_buffer_def set_write_end_def)
qed

lemma pipe_run_ok: "pipe_run fl W R s \<Longrightarrow> pipe_ok W R s"
proof (induction rule: pipe_run.induct)
  case pr_init
  then show ?case by (rule pipe_ok_init)
next
  case (pr_read W R s env want g out rb' g')
  with read_step [of "ring s" "rd_end s"] show ?case
    by (fastforce simp: pipe_ok_def sys_read_def)
next
  case (pr_read_none W R s env want g r rb' g')
  with read_step [of "ring s" "rd_end s"] show ?case
    by (fastforce simp: pipe_ok_def sys_read_def split: poll.splits sum.splits)
next
  case (pr_write W R s env buf g n rb' g')
  with write_step [of "ring s" "wr_end s"] show ?case
    by (fastforce simp: pipe_ok_def sys_write_def)
next
  case (pr_write_none W R s env buf g r rb' g')
  with write_step [of "ring s" "wr_end s"] show ?case
    by (fastforce simp: pipe_ok_def sys_write_def split: poll.splits sum.splits)
qed (auto simp: pipe_ok_def set_status_def)

subsection \<open>Properties\<close>

text \<open>
  C2: a pipe is a lossless bounded FIFO. In every run of a pipe, over any interleaving of
  reads, writes, cloned and dropped ends, the bytes delivered to readers followed by the bytes
  in the ring buffer are exactly the bytes accepted from writers, in order; the buffer never
  holds more than its capacity, and its indices, fill status and contents agree.
\<close>

theorem pipe_lossless_fifo:
  assumes "pipe_run fl W R s"
  shows "W = R @ rb_contents (ring s) \<and> length (rb_contents (ring s)) \<le> RING_BUFFER_SIZE \<and> rb_inv (ring s)"
  using pipe_run_ok [OF assms] rb_contents_bound [of "ring s"] by (simp add: pipe_ok_def)

theorem pipe_lossless_fifo_witness:
  "\<exists>s. pipe_run 0 [1, 2, 3] [1, 2] s \<and> rb_contents (ring s) = [3]"
proof -
  let ?s = "make_pipe 0" and ?env = "\<lparr>buffer_lock_free = True, signal_state_ready = True, have_signals = False, flags_lock_free = True\<rparr>"
    and ?g = "\<lparr>sie = True, has_current = True, preempt_disable_count = 0\<rparr>"
  have ok: "rb_inv (ring ?s)" "rb_contents (ring ?s) = []" "writable (wr_end ?s)" "readable (rd_end ?s)"
    using pipe_ok_init [of 0] by (simp_all add: pipe_ok_def)
  then have room: "available_write (ring ?s) = RING_BUFFER_SIZE"
    by (metis available_write_eq diff_zero length_rb_contents list.size(3))
  obtain rb1 where w: "pipe_write ?env 2 (wr_end ?s) [1, 2, 3] (ring ?s) ?g = Some (Ready (Inr 3), rb1, ?g)"
    and rb1: "rb_inv rb1" "rb_contents rb1 = [1, 2, 3]"
    using pipe_write_data [of "wr_end ?s" "ring ?s" ?env 2 "[1, 2, 3]" ?g] ok room
    by (auto simp: RING_BUFFER_SIZE_def numeral_3_eq_3)
  then have run1: "pipe_run 0 [1, 2, 3] [] (?s\<lparr>ring := rb1\<rparr>)"
    using pr_write [OF pr_init, of 0 ?env "[1, 2, 3]" ?g 3 rb1 ?g]
    by (simp add: sys_write_def buffer_strong_count_def make_pipe_def numeral_2_eq_2)
  have "available_read rb1 = 3"
    using rb1(2) by (metis length_rb_contents length_Cons list.size(3) numeral_3_eq_3)
  then obtain rb2 where "pipe_read ?env 2 True (rd_end ?s) 2 rb1 ?g = Some (Ready (Inr [1, 2]), rb2, ?g)"
    using pipe_read_data [of "rd_end ?s" rb1 ?env 2 True 2 ?g] ok rb1 by auto
  then have "pipe_run 0 [1, 2, 3] [1, 2] (?s\<lparr>ring := rb2\<rparr>)"
    using pr_read [OF run1, of ?env 2 ?g "[1, 2]" rb2 ?g]
    by (simp add: sys_read_def buffer_strong_count_def make_pipe_def numeral_2_eq_2)
  with pipe_lossless_fifo [OF this] show ?thesis
    by auto
qed

text \<open>
  C28: end of file is exact. When a read of a positive number of bytes returns zero bytes,
  every byte ever written has been delivered and no reference to the write end is left.
\<close>

theorem pipe_eof_exact:
  assumes "pipe_run fl W R s" "0 < rd_refs s" "0 < want"
    and "sys_read env want s g = Some (Ready (Inr []), rb', g')"
  shows "R = W \<and> wr_refs s = 0"
proof -
  from pipe_run_ok [OF assms(1)] have ok: "rb_inv (ring s)" "write_end (ring s) \<noteq> None"
    "readable (rd_end s)" "R @ rb_contents (ring s) = W"
    by (simp_all add: pipe_ok_def)
  have free: "buffer_lock_free env"
    using assms(4) ok by (auto simp: sys_read_def pipe_read_def split: if_splits)
  have none: "available_read (ring s) = 0"
  proof (rule ccontr)
    assume "available_read (ring s) \<noteq> 0"
    then have "take want (rb_contents (ring s)) \<noteq> []"
      using assms(3) by (simp flip: length_greater_0_conv)
    with \<open>available_read (ring s) \<noteq> 0\<close> assms(4) show False
      by (rule_tac pipe_read_data [OF ok(3,1) free, of "buffer_strong_count s" "wr_refs s \<noteq> 0" want g])
        (simp_all add: sys_read_def)
  qed
  have ready: "signal_state_ready env"
    using assms(4) none free ok by (auto simp: sys_read_def pipe_read_def split: if_splits)
  have "wr_refs s = 0"
    using assms(2,4) pipe_read_empty [OF ok(3,2) free ready none, of "buffer_strong_count s" "wr_refs s \<noteq> 0" want g]
    by (auto simp: sys_read_def buffer_strong_count_def split: if_splits)
  with none ok(4) show ?thesis
    by (simp flip: length_0_conv add: rb_contents_def)
qed

theorem pipe_eof_exact_witness:
  "let s = make_pipe 0 \<lparr>wr_refs := 0\<rparr>; env = \<lparr>buffer_lock_free = True, signal_state_ready = True,
     have_signals = False, flags_lock_free = True\<rparr>;
     g = \<lparr>sie = True, has_current = True, preempt_disable_count = 0\<rparr>
   in sys_read env 4 s g = Some (Ready (Inr []), ring s, g) \<and> wr_refs s = 0"
proof -
  let ?s = "make_pipe 0 \<lparr>wr_refs := 0\<rparr>" and ?env = "\<lparr>buffer_lock_free = True, signal_state_ready = True, have_signals = False, flags_lock_free = True\<rparr>"
    and ?g = "\<lparr>sie = True, has_current = True, preempt_disable_count = 0\<rparr>"
  have run: "pipe_run 0 [] [] ?s" and refs: "0 < rd_refs ?s"
    using pr_drop_wr [OF pr_init [of 0]] by (simp_all add: make_pipe_def)
  have read: "sys_read ?env 4 ?s ?g = Some (Ready (Inr []), ring ?s, ?g)"
    by (simp add: sys_read_def pipe_read_def make_pipe_def read_end_with_buffer_def
        available_read_def set_write_end_def ring_buffer_new_def buffer_strong_count_def)
  from pipe_eof_exact [OF run refs _ read] read show ?thesis
    by (simp add: Let_def)
qed

text \<open>
  A non-blocking read of an open empty pipe is never told that it would block. The call
  reaches \<open>yield_now().await\<close> before it can return \<open>WouldBlock\<close>, so its single poll is pending
  and its future is dropped there, together with the guard the yield future took: interrupts
  are off and the preemption counter of the task is one higher afterwards.
\<close>

lemma pipe_nonblock_read_pends:
  assumes "pipe_run fl W W s" "0 < rd_refs s" "0 < wr_refs s"
    and "contains_flag (flags (rd_end s)) NON_BLOCK"
    and "buffer_lock_free env" "signal_state_ready env" "\<not> have_signals env" "flags_lock_free env"
  shows "\<exists>g'. sys_read env want s g = Some (Pending, ring s, g') \<and> \<not> sie g' \<and>
    (has_current g \<longrightarrow> preempt_disable_count g' = uadd (preempt_disable_count g) 1)"
proof -
  from pipe_run_ok [OF assms(1)] have "rb_contents (ring s) = []" "write_end (ring s) \<noteq> None" "readable (rd_end s)"
    by (simp_all add: pipe_ok_def)
  moreover from this have "available_read (ring s) = 0"
    by (metis length_rb_contents list.size(3))
  ultimately have "sys_read env want s g = Some (Pending, ring s, snd (guard_acquire g))"
    using assms by (simp add: sys_read_def pipe_read_empty buffer_strong_count_def)
  then show ?thesis
    by simp
qed

lemma pipe_nonblock_read_pends_witness:
  "\<exists>g'. sys_read \<lparr>buffer_lock_free = True, signal_state_ready = True, have_signals = False, flags_lock_free = True\<rparr>
      1 (make_pipe NON_BLOCK) \<lparr>sie = True, has_current = True, preempt_disable_count = 0\<rparr> =
      Some (Pending, ring (make_pipe NON_BLOCK), g') \<and> \<not> can_preempt g'"
proof -
  have "contains_flag (flags (rd_end (make_pipe NON_BLOCK))) NON_BLOCK"
    by (simp add: make_pipe_def read_end_with_buffer_def contains_flag_def)
  with pipe_nonblock_read_pends [OF pr_init [of NON_BLOCK], of
      "\<lparr>buffer_lock_free = True, signal_state_ready = True, have_signals = False, flags_lock_free = True\<rparr>"
      1 "\<lparr>sie = True, has_current = True, preempt_disable_count = 0\<rparr>"]
  show ?thesis
    by (auto simp: make_pipe_def can_preempt_def uadd_def usize_lim_def)
qed

end
