(* ===== verification/Linked_List.thy ===== *)
theory Linked_List
  imports Prelude
begin

section \<open>The intrusive linked list (external crate)\<close>

text \<open>
  The kernel keeps the first-in-first-out ready queue and its wait lists in the list of the
  external crate \<open>linked_list\<close>. Its operations are parameters of the model (\<open>linked_list_ops\<close>),
  and \<open>linked_list_laws\<close> states what the kernel relies on, through the sequence of entries
  a list holds: an entry that is in no list is appended by \<open>push_back\<close>, \<open>pop_front\<close> takes the
  first entry, \<open>remove\<close> unlinks an entry that is in the list and leaves a list without it alone.
  \<open>list_instance\<close> realises the operations on plain lists and satisfies the laws.
\<close>

record ('l, 't) linked_list_ops =
  ll_new :: 'l
  ll_push_back :: "'t \<Rightarrow> 'l \<Rightarrow> 'l"
  ll_pop_front :: "'l \<Rightarrow> 't option \<times> 'l"
  ll_remove :: "'t \<Rightarrow> 'l \<Rightarrow> 't option \<times> 'l"

definition linked_list_laws :: "('l, 't) linked_list_ops \<Rightarrow> ('l \<Rightarrow> 't list) \<Rightarrow> bool" where
  "linked_list_laws L entries \<longleftrightarrow>
     entries (ll_new L) = [] \<and>
     (\<forall>t l. t \<notin> set (entries l) \<longrightarrow> entries (ll_push_back L t l) = entries l @ [t]) \<and>
     (\<forall>l. fst (ll_pop_front L l) = (case entries l of [] \<Rightarrow> None | t # _ \<Rightarrow> Some t)) \<and>
     (\<forall>l. entries (snd (ll_pop_front L l)) = tl (entries l)) \<and>
     (\<forall>t l. fst (ll_remove L t l) = (if t \<in> set (entries l) then Some t else None)) \<and>
     (\<forall>t l. entries (snd (ll_remove L t l)) = remove1 t (entries l))"

definition list_instance :: "('t list, 't) linked_list_ops" where
  "list_instance = \<lparr>ll_new = [], ll_push_back = (\<lambda>t l. l @ [t]),
     ll_pop_front = (\<lambda>l. case l of [] \<Rightarrow> (None, []) | t # l' \<Rightarrow> (Some t, l')),
     ll_remove = (\<lambda>t l. (if t \<in> set l then Some t else None, remove1 t l))\<rparr>"

lemma list_instance_laws: "linked_list_laws list_instance (\<lambda>l. l)"
  by (simp add: linked_list_laws_def list_instance_def split: list.split)

lemma ll_new_entries: "linked_list_laws L e \<Longrightarrow> e (ll_new L) = []"
  by (simp add: linked_list_laws_def)

lemma ll_push_back_entries:
  "linked_list_laws L e \<Longrightarrow> t \<notin> set (e l) \<Longrightarrow> e (ll_push_back L t l) = e l @ [t]"
  by (simp add: linked_list_laws_def)

lemma ll_pop_front_entries:
  "linked_list_laws L e \<Longrightarrow> ll_pop_front L l = (r, l') \<Longrightarrow>
     r = (case e l of [] \<Rightarrow> None | t # _ \<Rightarrow> Some t) \<and> e l' = tl (e l)"
  unfolding linked_list_laws_def by (metis fst_conv snd_conv)

lemma ll_remove_entries:
  "linked_list_laws L e \<Longrightarrow> ll_remove L t l = (r, l') \<Longrightarrow>
     r = (if t \<in> set (e l) then Some t else None) \<and> e l' = remove1 t (e l)"
  unfolding linked_list_laws_def by (metis fst_conv snd_conv)

end
