(* ===== verification/Sched.thy ===== *)
theory Sched
  imports Linked_List
begin

section \<open>Schedulers (crates/scheduler)\<close>

text \<open>
  The contract of the \<open>BaseScheduler\<close> trait as a locale over the multiset of ready tasks, and
  its three software implementations: round robin (\<open>round_robin.rs\<close>), completely fair
  (\<open>cfs.rs\<close>) and first-in-first-out (\<open>fifo.rs\<close>, over the operations of an external linked
  list). Tasks are pointers; the atomic fields of the shared task objects live in a heap that is
  part of the scheduler state. An operation that can panic returns an option.
\<close>

subsection \<open>The contract and its client\<close>

text \<open>
  A sequence of scheduler calls, and what they return. \<open>put_prev_task\<close> and \<open>add_task\<close> both put a
  task into the ready queue.
\<close>

datatype 't sched_call = AddTask 't | PickNext | PutPrev 't bool

fun run_calls ::
  "('t \<Rightarrow> 's \<Rightarrow> 's option) \<Rightarrow> ('s \<Rightarrow> 't option \<times> 's) \<Rightarrow> ('t \<Rightarrow> bool \<Rightarrow> 's \<Rightarrow> 's option) \<Rightarrow>
     't sched_call list \<Rightarrow> 's \<Rightarrow> ('t option list \<times> 's) option" where
  "run_calls add pick put [] s = Some ([], s)"
| "run_calls add pick put (AddTask t # cs) s = do { s' \<leftarrow> add t s; run_calls add pick put cs s' }"
| "run_calls add pick put (PutPrev t p # cs) s = do { s' \<leftarrow> put t p s; run_calls add pick put cs s' }"
| "run_calls add pick put (PickNext # cs) s =
     (let (r, s') = pick s in do {
        (rs, s'') \<leftarrow> run_calls add pick put cs s';
        Some (r # rs, s'') })"

text \<open>The discipline of the callers: a task is only put into a queue it is not in.\<close>

fun calls_ok ::
  "('s \<Rightarrow> 't multiset) \<Rightarrow> ('t \<Rightarrow> 's \<Rightarrow> 's option) \<Rightarrow> ('s \<Rightarrow> 't option \<times> 's) \<Rightarrow>
     ('t \<Rightarrow> bool \<Rightarrow> 's \<Rightarrow> 's option) \<Rightarrow> 't sched_call list \<Rightarrow> 's \<Rightarrow> bool" where
  "calls_ok q add pick put [] s \<longleftrightarrow> True"
| "calls_ok q add pick put (AddTask t # cs) s \<longleftrightarrow>
     t \<notin># q s \<and> (case add t s of None \<Rightarrow> True | Some s' \<Rightarrow> calls_ok q add pick put cs s')"
| "calls_ok q add pick put (PutPrev t p # cs) s \<longleftrightarrow>
     t \<notin># q s \<and> (case put t p s of None \<Rightarrow> True | Some s' \<Rightarrow> calls_ok q add pick put cs s')"
| "calls_ok q add pick put (PickNext # cs) s \<longleftrightarrow> calls_ok q add pick put cs (snd (pick s))"

primrec entered :: "'t sched_call list \<Rightarrow> 't multiset" where
  "entered [] = {#}"
| "entered (c # cs) =
     (case c of AddTask t \<Rightarrow> {#t#} | PutPrev t _ \<Rightarrow> {#t#} | PickNext \<Rightarrow> {#}) + entered cs"

definition returned :: "'t option list \<Rightarrow> 't multiset" where
  "returned rs = mset (List.map_filter (\<lambda>r. r) rs)"

lemma returned_simps [simp]:
  "returned [] = {#}" "returned (None # rs) = returned rs"
  "returned (Some t # rs) = add_mset t (returned rs)"
  by (simp_all add: returned_def map_filter_simps)

text \<open>
  \<open>room n s\<close>: the scheduler can take \<open>n\<close> more tasks (the fair scheduler hands out identifiers
  from a 64-bit counter).
\<close>

locale base_scheduler =
  fixes queued :: "'s \<Rightarrow> 't multiset"
    and inv :: "'s \<Rightarrow> bool"
    and room :: "nat \<Rightarrow> 's \<Rightarrow> bool"
    and add_task :: "'t \<Rightarrow> 's \<Rightarrow> 's option"
    and pick_next :: "'s \<Rightarrow> 't option \<times> 's"
    and put_prev :: "'t \<Rightarrow> bool \<Rightarrow> 's \<Rightarrow> 's option"
  assumes add_ok: "inv s \<Longrightarrow> room (Suc n) s \<Longrightarrow> t \<notin># queued s \<Longrightarrow>
      \<exists>s'. add_task t s = Some s' \<and> inv s' \<and> room n s' \<and> queued s' = add_mset t (queued s)"
    and put_ok: "inv s \<Longrightarrow> room (Suc n) s \<Longrightarrow> t \<notin># queued s \<Longrightarrow>
      \<exists>s'. put_prev t p s = Some s' \<and> inv s' \<and> room n s' \<and> queued s' = add_mset t (queued s)"
    and pick_none: "inv s \<Longrightarrow> room n s \<Longrightarrow> queued s = {#} \<Longrightarrow>
      \<exists>s'. pick_next s = (None, s') \<and> inv s' \<and> room n s' \<and> queued s' = {#}"
    and room_less: "room (Suc n) s \<Longrightarrow> room n s"
    and pick_some: "inv s \<Longrightarrow> room n s \<Longrightarrow> queued s \<noteq> {#} \<Longrightarrow>
      \<exists>t s'. pick_next s = (Some t, s') \<and> inv s' \<and> room n s' \<and> queued s = add_mset t (queued s')"
begin

lemma run_calls_conserve:
  assumes "inv s" "room (length cs) s" "calls_ok queued add_task pick_next put_prev cs s"
  shows "\<exists>rs s'. run_calls add_task pick_next put_prev cs s = Some (rs, s') \<and> inv s' \<and>
    queued s + entered cs = returned rs + queued s'"
  using assms
proof (induction cs arbitrary: s)
  case Nil
  then show ?case by simp
next
  case (Cons c cs)
  show ?case
  proof (cases c)
    case (AddTask t)
    with Cons.prems add_ok [of s "length cs" t] obtain s' where
      s': "add_task t s = Some s'" "inv s'" "room (length cs) s'" "queued s' = add_mset t (queued s)"
      by auto
    with Cons.IH [of s'] Cons.prems AddTask show ?thesis
      by auto
  next
    case (PutPrev t p)
    with Cons.prems put_ok [of s "length cs" t p] obtain s' where
      s': "put_prev t p s = Some s'" "inv s'" "room (length cs) s'" "queued s' = add_mset t (queued s)"
      by auto
    with Cons.IH [of s'] Cons.prems PutPrev show ?thesis
      by auto
  next
    case PickNext
    have room: "room (length cs) s"
      using Cons.prems(2) by (simp add: room_less)
    show ?thesis
    proof (cases "queued s = {#}")
      case True
      with Cons.prems room pick_none [of s "length cs"] obtain s' where
        s': "pick_next s = (None, s')" "inv s'" "room (length cs) s'" "queued s' = {#}"
        by blast
      with Cons.IH [of s'] Cons.prems PickNext True show ?thesis
        by auto
    next
      case False
      with Cons.prems room pick_some [of s "length cs"] obtain t s' where
        s': "pick_next s = (Some t, s')" "inv s'" "room (length cs) s'" "queued s = add_mset t (queued s')"
        by blast
      with Cons.IH [of s'] Cons.prems PickNext show ?thesis
        by auto
    qed
  qed
qed

lemma drain_all:
  assumes "inv s" "room n s" "n = size (queued s)"
  shows "\<exists>rs s'. run_calls add_task pick_next put_prev (replicate n PickNext) s = Some (map Some rs, s') \<and>
    mset rs = queued s \<and> inv s' \<and> queued s' = {#}"
  using assms
proof (induction n arbitrary: s)
  case 0
  then show ?case by simp
next
  case (Suc n)
  then have "queued s \<noteq> {#}" by auto
  with Suc.prems pick_some [of s n] room_less obtain t s' where
    s': "pick_next s = (Some t, s')" "inv s'" "room n s'" "queued s = add_mset t (queued s')"
    by blast
  moreover from s' Suc.prems have "n = size (queued s')" by simp
  ultimately obtain rs s'' where
    "run_calls add_task pick_next put_prev (replicate n PickNext) s' = Some (map Some rs, s'')"
    "mset rs = queued s'" "inv s''" "queued s'' = {#}"
    using Suc.IH [of s'] by blast
  with s' show ?case
    by (intro exI [of _ "t # rs"] exI [of _ s'']) simp
qed

end

subsection \<open>Round robin\<close>

text \<open>\<open>S\<close> is the const parameter \<open>MAX_TIME_SLICE\<close>; the time slices of the task objects are the
  heap \<open>time_slice\<close>.\<close>

record 't RRScheduler =
  rr_ready_queue :: "'t list"
  time_slice :: "'t \<Rightarrow> int"

definition rr_new :: "nat \<Rightarrow> 't RRScheduler" where
  "rr_new S = \<lparr>rr_ready_queue = [], time_slice = (\<lambda>_. swrap (int S))\<rparr>"

definition reset_time_slice :: "nat \<Rightarrow> 't \<Rightarrow> 't RRScheduler \<Rightarrow> 't RRScheduler" where
  "reset_time_slice S t s = s\<lparr>time_slice := (time_slice s)(t := swrap (int S))\<rparr>"

definition rr_add_task :: "'t \<Rightarrow> 't RRScheduler \<Rightarrow> 't RRScheduler" where
  "rr_add_task t s = s\<lparr>rr_ready_queue := rr_ready_queue s @ [t]\<rparr>"

fun position :: "('a \<Rightarrow> bool) \<Rightarrow> 'a list \<Rightarrow> nat option" where
  "position P [] = None"
| "position P (x # xs) = (if P x then Some 0 else map_option Suc (position P xs))"

definition rr_remove_task :: "'t \<Rightarrow> 't RRScheduler \<Rightarrow> 't option \<times> 't RRScheduler" where
  "rr_remove_task t s =
     (case position (\<lambda>x. x = t) (rr_ready_queue s) of
        None \<Rightarrow> (None, s)
      | Some idx \<Rightarrow>
          (if idx < length (rr_ready_queue s) then
             (Some (rr_ready_queue s ! idx),
              s\<lparr>rr_ready_queue := take idx (rr_ready_queue s) @ drop (Suc idx) (rr_ready_queue s)\<rparr>)
           else (None, s)))"

definition rr_pick_next_task :: "'t RRScheduler \<Rightarrow> 't option \<times> 't RRScheduler" where
  "rr_pick_next_task s =
     (case rr_ready_queue s of [] \<Rightarrow> (None, s) | t # q \<Rightarrow> (Some t, s\<lparr>rr_ready_queue := q\<rparr>))"

definition rr_put_prev_task :: "nat \<Rightarrow> 't \<Rightarrow> bool \<Rightarrow> 't RRScheduler \<Rightarrow> 't RRScheduler" where
  "rr_put_prev_task S prev preempt s =
     (if time_slice s prev > 0 \<and> preempt then s\<lparr>rr_ready_queue := prev # rr_ready_queue s\<rparr>
      else (let s' = reset_time_slice S prev s in s'\<lparr>rr_ready_queue := rr_ready_queue s' @ [prev]\<rparr>))"

definition rr_task_tick :: "'t \<Rightarrow> 't RRScheduler \<Rightarrow> bool \<times> 't RRScheduler" where
  "rr_task_tick t s =
     (let old_slice = time_slice s t
      in (old_slice \<le> 1, s\<lparr>time_slice := (time_slice s)(t := swrap (old_slice - 1))\<rparr>))"

lemmas rr_defs = rr_add_task_def rr_remove_task_def rr_pick_next_task_def rr_put_prev_task_def
  rr_task_tick_def reset_time_slice_def

lemma position_remove1:
  "case position (\<lambda>x. x = t) q of
     None \<Rightarrow> t \<notin> set q
   | Some i \<Rightarrow> i < length q \<and> q ! i = t \<and> take i q @ drop (Suc i) q = remove1 t q"
  by (induction q) (auto split: option.splits)

lemma rr_remove_task_eq:
  "rr_remove_task t s =
     (if t \<in> set (rr_ready_queue s) then (Some t, s\<lparr>rr_ready_queue := remove1 t (rr_ready_queue s)\<rparr>)
      else (None, s))"
  using position_remove1 [of t "rr_ready_queue s"]
  by (auto simp: rr_remove_task_def split: option.splits)

interpretation rr: base_scheduler "\<lambda>s. mset (rr_ready_queue s)" "\<lambda>_. True" "\<lambda>_ _. True"
  "\<lambda>t s. Some (rr_add_task t s)" rr_pick_next_task "\<lambda>t p s. Some (rr_put_prev_task S t p s)" for S
  by unfold_locales (auto simp: rr_defs Let_def split: list.splits)

text \<open>The ticks of a task that runs alone on the processor, and their answers.\<close>

fun rr_ticks :: "nat \<Rightarrow> 't \<Rightarrow> 't RRScheduler \<Rightarrow> bool list \<times> 't RRScheduler" where
  "rr_ticks 0 t s = ([], s)"
| "rr_ticks (Suc n) t s =
     (let (b, s') = rr_task_tick t s; (bs, s'') = rr_ticks n t s' in (b # bs, s''))"

lemma rr_ticks_slice:
  "time_slice s t = int k \<Longrightarrow> k < 2 ^ 63 \<Longrightarrow> n \<le> k \<Longrightarrow>
   fst (rr_ticks n t s) = map (\<lambda>i. k \<le> Suc i) [0..<n] \<and>
   time_slice (snd (rr_ticks n t s)) t = int (k - n)"
proof (induction n arbitrary: k s)
  case 0
  then show ?case by simp
next
  case (Suc n)
  let ?s = "snd (rr_task_tick t s)"
  from Suc.prems have "time_slice ?s t = int (k - 1)"
    by (simp add: rr_task_tick_def swrap_id of_nat_diff)
  with Suc.IH [of ?s "k - 1"] Suc.prems show ?case
    by (auto simp: rr_task_tick_def case_prod_beta Let_def upt_conv_Cons map_Suc_upt [symmetric] simp del: upt_Suc)
qed

text \<open>One round: the running task is put back without preemption each time another is picked.\<close>

fun rr_rounds :: "nat \<Rightarrow> nat \<Rightarrow> 't RRScheduler \<Rightarrow> 't list \<times> 't RRScheduler" where
  "rr_rounds S 0 s = ([], s)"
| "rr_rounds S (Suc n) s =
     (case rr_pick_next_task s of
        (None, s') \<Rightarrow> ([], s')
      | (Some t, s') \<Rightarrow>
          let (ts, s'') = rr_rounds S n (rr_put_prev_task S t False s') in (t # ts, s''))"

lemma rr_rounds_rotate:
  "n \<le> length (rr_ready_queue s) \<Longrightarrow>
   fst (rr_rounds S n s) = take n (rr_ready_queue s) \<and>
   rr_ready_queue (snd (rr_rounds S n s)) = drop n (rr_ready_queue s) @ take n (rr_ready_queue s)"
proof (induction n arbitrary: s)
  case 0
  then show ?case by simp
next
  case (Suc n)
  then obtain t q where q: "rr_ready_queue s = t # q"
    by (cases "rr_ready_queue s") auto
  let ?s = "rr_put_prev_task S t False (s\<lparr>rr_ready_queue := q\<rparr>)"
  have "rr_ready_queue ?s = q @ [t]"
    by (simp add: rr_defs Let_def)
  with Suc.IH [of ?s] Suc.prems q show ?case
    by (auto simp: rr_pick_next_task_def case_prod_beta Let_def)
qed

subsection \<open>Completely fair\<close>

record CFSTask =
  init_vruntime :: int
  delta :: int
  nice :: int
  cfs_id :: int

definition cfs_task_new :: CFSTask where
  "cfs_task_new = \<lparr>init_vruntime = 0, delta = 0, nice = 0, cfs_id = 0\<rparr>"

definition NICE2WEIGHT_POS :: "int list" where
  "NICE2WEIGHT_POS =
    [1024, 820, 655, 526, 423, 335, 272, 215, 172, 137, 110, 87, 70, 56, 45, 36, 29, 23, 18, 15]"

definition NICE2WEIGHT_NEG :: "int list" where
  "NICE2WEIGHT_NEG =
    [1024, 1277, 1586, 1991, 2501, 3121, 3906, 4904, 6100, 7620, 9548, 11916, 14949, 18705, 23254,
     29154, 36291, 46273, 56483, 71755, 88761]"

text \<open>Array indexing panics out of range; integer division truncates towards zero.\<close>

definition index_opt :: "'a list \<Rightarrow> nat \<Rightarrow> 'a option" where
  "index_opt xs i = (if i < length xs then Some (xs ! i) else None)"

definition rdiv :: "int \<Rightarrow> int \<Rightarrow> int" where
  "rdiv a b = sgn a * sgn b * (\<bar>a\<bar> div \<bar>b\<bar>)"

definition get_weight :: "CFSTask \<Rightarrow> int option" where
  "get_weight c =
     (if nice c \<ge> 0 then index_opt NICE2WEIGHT_POS (nat (nice c))
      else index_opt NICE2WEIGHT_NEG (nat (swrap (- nice c) mod 2 ^ 64)))"

definition get_vruntime :: "CFSTask \<Rightarrow> int option" where
  "get_vruntime c =
     (if nice c = 0 then Some (swrap (init_vruntime c + delta c))
      else do {
        w \<leftarrow> get_weight c;
        Some (swrap (init_vruntime c + rdiv (swrap (delta c * 1024)) w))
      })"

definition set_vruntime :: "int \<Rightarrow> CFSTask \<Rightarrow> CFSTask" where
  "set_vruntime v c = c\<lparr>init_vruntime := v\<rparr>"

definition cfs_task_set_priority :: "int \<Rightarrow> CFSTask \<Rightarrow> CFSTask option" where
  "cfs_task_set_priority n c = do {
     v \<leftarrow> get_vruntime c;
     Some (c\<lparr>init_vruntime := v, delta := 0, nice := n\<rparr>)
   }"

definition cfs_set_id :: "int \<Rightarrow> CFSTask \<Rightarrow> CFSTask" where
  "cfs_set_id i c = c\<lparr>cfs_id := i\<rparr>"

definition cfs_task_task_tick :: "CFSTask \<Rightarrow> CFSTask" where
  "cfs_task_task_tick c = c\<lparr>delta := swrap (delta c + 1)\<rparr>"

record 't CFScheduler =
  cfs_ready_queue :: "((int \<times> int) \<times> 't) list"
  min_vruntime :: "int option"
  id_pool :: int
  cfs_task :: "'t \<Rightarrow> CFSTask"

definition cfs_new :: "'t CFScheduler" where
  "cfs_new = \<lparr>cfs_ready_queue = [], min_vruntime = None, id_pool = 0, cfs_task = (\<lambda>_. cfs_task_new)\<rparr>"

definition first_vruntime :: "((int \<times> int) \<times> 't) list \<Rightarrow> int option" where
  "first_vruntime q = (case q of [] \<Rightarrow> None | ((v, _), _) # _ \<Rightarrow> Some v)"

definition cfs_add_task :: "'t \<Rightarrow> 't CFScheduler \<Rightarrow> 't CFScheduler" where
  "cfs_add_task t s =
     (let vruntime = (case min_vruntime s of None \<Rightarrow> 0 | Some v \<Rightarrow> v);
          taskid = id_pool s;
          q = bt_insert (vruntime, taskid) t (cfs_ready_queue s)
      in s\<lparr>id_pool := swrap (taskid + 1),
           cfs_task := (cfs_task s)(t := cfs_set_id taskid (set_vruntime vruntime (cfs_task s t))),
           cfs_ready_queue := q,
           min_vruntime := first_vruntime q\<rparr>)"

definition cfs_remove_task :: "'t \<Rightarrow> 't CFScheduler \<Rightarrow> ('t option \<times> 't CFScheduler) option" where
  "cfs_remove_task t s = do {
     v \<leftarrow> get_vruntime (cfs_task s t);
     let k = (v, cfs_id (cfs_task s t));
     case map_of (cfs_ready_queue s) k of
       None \<Rightarrow> Some (None, s)
     | Some tmp \<Rightarrow>
         (let q = bt_remove k (cfs_ready_queue s)
          in Some (Some tmp, s\<lparr>cfs_ready_queue := q, min_vruntime := first_vruntime q\<rparr>))
   }"

definition cfs_pick_next_task :: "'t CFScheduler \<Rightarrow> 't option \<times> 't CFScheduler" where
  "cfs_pick_next_task s =
     (case cfs_ready_queue s of [] \<Rightarrow> (None, s) | (_, v) # q \<Rightarrow> (Some v, s\<lparr>cfs_ready_queue := q\<rparr>))"

definition cfs_put_prev_task :: "'t \<Rightarrow> bool \<Rightarrow> 't CFScheduler \<Rightarrow> 't CFScheduler option" where
  "cfs_put_prev_task prev preempt s =
     (let taskid = id_pool s;
          c = cfs_set_id taskid (cfs_task s prev)
      in do {
        v \<leftarrow> get_vruntime c;
        Some (s\<lparr>id_pool := swrap (taskid + 1), cfs_task := (cfs_task s)(prev := c),
               cfs_ready_queue := bt_insert (v, taskid) prev (cfs_ready_queue s)\<rparr>)
      })"

definition cfs_task_tick :: "'t \<Rightarrow> 't CFScheduler \<Rightarrow> (bool \<times> 't CFScheduler) option" where
  "cfs_task_tick t s =
     (let c = cfs_task_task_tick (cfs_task s t); s' = s\<lparr>cfs_task := (cfs_task s)(t := c)\<rparr>
      in case min_vruntime s of
           None \<Rightarrow> Some (True, s')
         | Some m \<Rightarrow> do { v \<leftarrow> get_vruntime c; Some (v > m, s') })"

definition cfs_set_priority :: "'t \<Rightarrow> int \<Rightarrow> 't CFScheduler \<Rightarrow> (bool \<times> 't CFScheduler) option" where
  "cfs_set_priority t prio s =
     (if - 20 \<le> prio \<and> prio \<le> 19 then do {
        c \<leftarrow> cfs_task_set_priority prio (cfs_task s t);
        Some (True, s\<lparr>cfs_task := (cfs_task s)(t := c)\<rparr>)
      } else Some (False, s))"

lemmas cfs_defs = cfs_add_task_def cfs_remove_task_def cfs_pick_next_task_def cfs_put_prev_task_def
  cfs_task_tick_def cfs_set_priority_def

text \<open>
  Invariant of the fair scheduler: the queue is ordered by (virtual run time, identifier),
  holds every task at most once and under the task's own identifier, all identifiers in use are
  below the pool, virtual run times are signed 64-bit values, and every task has a nice value
  of the documented range.
\<close>

definition nice_ok :: "CFSTask \<Rightarrow> bool" where
  "nice_ok c \<longleftrightarrow> - 20 \<le> nice c \<and> nice c \<le> 19"

definition is_isize :: "int \<Rightarrow> bool" where
  "is_isize v \<longleftrightarrow> - (2 ^ 63) \<le> v \<and> v < 2 ^ 63"

definition cfs_inv :: "'t CFScheduler \<Rightarrow> bool" where
  "cfs_inv s \<longleftrightarrow> bt_inv (cfs_ready_queue s) \<and> distinct (map snd (cfs_ready_queue s)) \<and>
     (\<forall>((v, i), t) \<in> set (cfs_ready_queue s). i < id_pool s \<and> cfs_id (cfs_task s t) = i \<and> is_isize v) \<and>
     0 \<le> id_pool s \<and> (\<forall>t. nice_ok (cfs_task s t)) \<and> (\<forall>v. min_vruntime s = Some v \<longrightarrow> is_isize v)"

definition cfs_room :: "nat \<Rightarrow> 't CFScheduler \<Rightarrow> bool" where
  "cfs_room n s \<longleftrightarrow> id_pool s + int n < 2 ^ 63"

definition cfs_queued :: "'t CFScheduler \<Rightarrow> 't multiset" where
  "cfs_queued s = mset (map snd (cfs_ready_queue s))"

lemma weights_positive:
  "w \<in> set NICE2WEIGHT_POS \<Longrightarrow> 0 < w" "w \<in> set NICE2WEIGHT_NEG \<Longrightarrow> 0 < w"
  "length NICE2WEIGHT_POS = 20" "length NICE2WEIGHT_NEG = 21"
  by (auto simp: NICE2WEIGHT_POS_def NICE2WEIGHT_NEG_def)

lemma get_weight_total: "nice_ok c \<Longrightarrow> \<exists>w. get_weight c = Some w \<and> 0 < w"
proof (cases "nice c \<ge> 0")
  case True
  moreover assume "nice_ok c"
  ultimately have "nat (nice c) < length NICE2WEIGHT_POS"
    by (simp add: nice_ok_def weights_positive)
  with True show ?thesis
    using weights_positive(1) nth_mem by (simp add: get_weight_def index_opt_def)
next
  case False
  moreover assume ok: "nice_ok c"
  then have "swrap (- nice c) mod 2 ^ 64 = - nice c"
    using False by (simp add: swrap_id nice_ok_def)
  moreover have "nat (- nice c) < length NICE2WEIGHT_NEG"
    using ok False by (simp add: nice_ok_def weights_positive)
  ultimately show ?thesis
    using weights_positive(2) nth_mem by (simp add: get_weight_def index_opt_def)
qed

lemma swrap_isize [simp]: "is_isize (swrap v)"
  using swrap_range [of v] by (simp add: is_isize_def)

lemma swrap_of_isize: "is_isize v \<Longrightarrow> swrap v = v"
  by (simp add: swrap_id is_isize_def)

lemma get_vruntime_total: "nice_ok c \<Longrightarrow> \<exists>v. get_vruntime c = Some v \<and> is_isize v"
  using get_weight_total [of c] by (auto simp: get_vruntime_def)

lemma nice_ok_updates [simp]:
  "nice_ok (set_vruntime v c) = nice_ok c" "nice_ok (cfs_set_id i c) = nice_ok c"
  "nice_ok (cfs_task_task_tick c) = nice_ok c"
  by (simp_all add: nice_ok_def set_vruntime_def cfs_set_id_def cfs_task_task_tick_def)

lemma cfs_id_updates [simp]: "cfs_id (cfs_set_id i c) = i" "get_vruntime (cfs_set_id i c) = get_vruntime c"
  by (simp_all add: cfs_set_id_def get_vruntime_def get_weight_def)

lemma first_vruntime_isize:
  "first_vruntime q = Some v \<Longrightarrow> \<forall>((v, i), t) \<in> set q. is_isize v \<Longrightarrow> is_isize v"
  by (auto simp: first_vruntime_def split: list.splits)

lemma fresh_key:
  "cfs_inv s \<Longrightarrow> (v, id_pool s) \<notin> fst ` set (cfs_ready_queue s)"
  by (force simp: cfs_inv_def)

text \<open>Inserting a task under a fresh identifier keeps the invariant; both \<open>add_task\<close> and
  \<open>put_prev_task\<close> do that.\<close>

lemma cfs_insert_ok:
  assumes inv: "cfs_inv s" and room: "cfs_room (Suc n) s" and new: "t \<notin># cfs_queued s"
    and v: "is_isize v" and c: "nice_ok c" "cfs_id c = id_pool s"
    and m: "\<forall>v. m = Some v \<longrightarrow> is_isize v"
    and s': "s' = s\<lparr>id_pool := swrap (id_pool s + 1), cfs_task := (cfs_task s)(t := c),
      cfs_ready_queue := bt_insert (v, id_pool s) t (cfs_ready_queue s), min_vruntime := m\<rparr>"
  shows "cfs_inv s'" "cfs_room n s'" "cfs_queued s' = add_mset t (cfs_queued s)"
proof -
  have pool: "id_pool s' = id_pool s + 1"
    using inv room by (simp add: s' swrap_id cfs_inv_def cfs_room_def)
  have key: "(v, id_pool s) \<notin> fst ` set (cfs_ready_queue s)"
    using inv by (rule fresh_key)
  then have mset: "mset (cfs_ready_queue s') = add_mset ((v, id_pool s), t) (mset (cfs_ready_queue s))"
    by (simp add: s' mset_bt_insert_fresh)
  then show q: "cfs_queued s' = add_mset t (cfs_queued s)"
    by (simp add: cfs_queued_def mset_map)
  show "cfs_room n s'"
    using room by (simp add: cfs_room_def pool)
  have dist: "distinct (map snd (cfs_ready_queue s'))"
  proof -
    have "mset (map snd (cfs_ready_queue s')) = mset (t # map snd (cfs_ready_queue s))"
      using q by (simp add: cfs_queued_def)
    moreover have "distinct (t # map snd (cfs_ready_queue s))"
      using inv new by (simp add: cfs_inv_def cfs_queued_def)
    ultimately show ?thesis
      by (metis mset_eq_imp_distinct_iff)
  qed
  have set: "set (cfs_ready_queue s') = insert ((v, id_pool s), t) (set (cfs_ready_queue s))"
    using mset by (metis set_mset_add_mset_insert set_mset_mset)
  have others: "u \<noteq> t" if "(k, u) \<in> set (cfs_ready_queue s)" for k u
    using that new by (force simp: cfs_queued_def)
  have entries: "\<forall>((v, i), u) \<in> set (cfs_ready_queue s'). i < id_pool s' \<and> cfs_id (cfs_task s' u) = i \<and> is_isize v"
  proof (intro ballI, clarify)
    fix w i u
    assume "((w, i), u) \<in> set (cfs_ready_queue s')"
    then consider "w = v" "i = id_pool s" "u = t" | "((w, i), u) \<in> set (cfs_ready_queue s)"
      unfolding set by auto
    then show "i < id_pool s' \<and> cfs_id (cfs_task s' u) = i \<and> is_isize w"
    proof cases
      case 1
      with c v show ?thesis by (simp add: pool) (simp add: s')
    next
      case 2
      with inv have "i < id_pool s \<and> cfs_id (cfs_task s u) = i \<and> is_isize w"
        unfolding cfs_inv_def by auto
      with others [OF 2] show ?thesis by (simp add: pool) (simp add: s')
    qed
  qed
  have "bt_inv (cfs_ready_queue s')"
    using inv by (simp add: s' cfs_inv_def bt_inv_insert)
  with dist entries m c inv pool show "cfs_inv s'"
    unfolding cfs_inv_def by (auto simp: s')
qed

lemma cfs_add_ok:
  assumes "cfs_inv s" "cfs_room (Suc n) s" "t \<notin># cfs_queued s"
  shows "cfs_inv (cfs_add_task t s) \<and> cfs_room n (cfs_add_task t s) \<and>
    cfs_queued (cfs_add_task t s) = add_mset t (cfs_queued s)"
proof -
  define v where "v = (case min_vruntime s of None \<Rightarrow> 0 | Some v \<Rightarrow> v)"
  define c where "c = cfs_set_id (id_pool s) (set_vruntime v (cfs_task s t))"
  define q where "q = bt_insert (v, id_pool s) t (cfs_ready_queue s)"
  have v: "is_isize v"
    using assms(1) by (auto simp: v_def cfs_inv_def is_isize_def split: option.splits)
  have m: "\<forall>w. first_vruntime q = Some w \<longrightarrow> is_isize w"
  proof (intro allI impI)
    fix w
    assume first: "first_vruntime q = Some w"
    have "set q = insert ((v, id_pool s), t) (set (cfs_ready_queue s))"
      unfolding q_def using assms(1) fresh_key [OF assms(1), of v]
      by (intro set_bt_insert_fresh) (auto simp: cfs_inv_def)
    then show "is_isize w"
      using first v assms(1) by (intro first_vruntime_isize [OF first]) (auto simp: cfs_inv_def)
  qed
  have eq: "cfs_add_task t s = s\<lparr>id_pool := swrap (id_pool s + 1), cfs_task := (cfs_task s)(t := c),
      cfs_ready_queue := q, min_vruntime := first_vruntime q\<rparr>"
    by (simp add: cfs_add_task_def Let_def v_def c_def q_def)
  have "nice_ok c" "cfs_id c = id_pool s"
    using assms(1) by (simp_all add: c_def cfs_inv_def)
  from cfs_insert_ok [OF assms v this m, of "cfs_add_task t s"] show ?thesis
    unfolding eq q_def by simp
qed

lemma cfs_put_ok:
  assumes "cfs_inv s" "cfs_room (Suc n) s" "t \<notin># cfs_queued s"
  obtains v s' where "get_vruntime (cfs_task s t) = Some v" "cfs_put_prev_task t p s = Some s'"
    "cfs_inv s'" "cfs_room n s'" "cfs_queued s' = add_mset t (cfs_queued s)"
    "cfs_ready_queue s' = bt_insert (v, id_pool s) t (cfs_ready_queue s)"
    "cfs_task s' t = cfs_set_id (id_pool s) (cfs_task s t)"
proof -
  let ?c = "cfs_set_id (id_pool s) (cfs_task s t)"
  have c: "nice_ok ?c" "cfs_id ?c = id_pool s"
    using assms(1) by (simp_all add: cfs_inv_def)
  from get_vruntime_total [OF c(1)] obtain v where v: "get_vruntime (cfs_task s t) = Some v" "is_isize v"
    by auto
  define s' where "s' = s\<lparr>id_pool := swrap (id_pool s + 1), cfs_task := (cfs_task s)(t := ?c),
      cfs_ready_queue := bt_insert (v, id_pool s) t (cfs_ready_queue s), min_vruntime := min_vruntime s\<rparr>"
  have m: "\<forall>v. min_vruntime s = Some v \<longrightarrow> is_isize v"
    using assms(1) by (simp add: cfs_inv_def)
  have "cfs_put_prev_task t p s = Some s'"
    by (simp add: cfs_put_prev_task_def Let_def v s'_def)
  with v cfs_insert_ok [OF assms v(2) c m s'_def] show ?thesis
    by (intro that [of v s']) (simp_all add: s'_def)
qed

lemma cfs_pick_ok:
  assumes "cfs_inv s" "cfs_room n s" "cfs_ready_queue s = (k, t) # q"
  shows "cfs_pick_next_task s = (Some t, s\<lparr>cfs_ready_queue := q\<rparr>)" "cfs_inv (s\<lparr>cfs_ready_queue := q\<rparr>)"
    "cfs_room n (s\<lparr>cfs_ready_queue := q\<rparr>)" "cfs_queued s = add_mset t (cfs_queued (s\<lparr>cfs_ready_queue := q\<rparr>))"
  using assms by (auto simp: cfs_pick_next_task_def cfs_inv_def cfs_room_def cfs_queued_def)

interpretation cfs: base_scheduler cfs_queued cfs_inv cfs_room
  "\<lambda>t s. Some (cfs_add_task t s)" cfs_pick_next_task cfs_put_prev_task
proof unfold_locales
  fix s :: "'a CFScheduler" and n t p
  show "\<exists>s'. Some (cfs_add_task t s) = Some s' \<and> cfs_inv s' \<and> cfs_room n s' \<and> cfs_queued s' = add_mset t (cfs_queued s)"
    if "cfs_inv s" "cfs_room (Suc n) s" "t \<notin># cfs_queued s"
    using cfs_add_ok [OF that] by simp
  show "\<exists>s'. cfs_put_prev_task t p s = Some s' \<and> cfs_inv s' \<and> cfs_room n s' \<and> cfs_queued s' = add_mset t (cfs_queued s)"
    if "cfs_inv s" "cfs_room (Suc n) s" "t \<notin># cfs_queued s"
    by (rule cfs_put_ok [OF that, of p]) blast
  show "\<exists>s'. cfs_pick_next_task s = (None, s') \<and> cfs_inv s' \<and> cfs_room n s' \<and> cfs_queued s' = {#}"
    if "cfs_inv s" "cfs_room n s" "cfs_queued s = {#}"
    using that by (simp add: cfs_queued_def cfs_pick_next_task_def)
  show "cfs_room n s" if "cfs_room (Suc n) s"
    using that by (simp add: cfs_room_def)
  show "\<exists>t s'. cfs_pick_next_task s = (Some t, s') \<and> cfs_inv s' \<and> cfs_room n s' \<and> cfs_queued s = add_mset t (cfs_queued s')"
    if "cfs_inv s" "cfs_room n s" "cfs_queued s \<noteq> {#}"
  proof -
    from that(3) obtain k u q where "cfs_ready_queue s = (k, u) # q"
      by (cases "cfs_ready_queue s") (auto simp: cfs_queued_def)
    from cfs_pick_ok [OF that(1,2) this] show ?thesis by blast
  qed
qed

subsection \<open>First in, first out\<close>

text \<open>The scheduler is a linked list \<open>l\<close>; \<open>L\<close> are the operations of the list crate.\<close>

definition fifo_new :: "('l, 't) linked_list_ops \<Rightarrow> 'l" where
  "fifo_new L = ll_new L"

definition fifo_add_task :: "('l, 't) linked_list_ops \<Rightarrow> 't \<Rightarrow> 'l \<Rightarrow> 'l" where
  "fifo_add_task L t l = ll_push_back L t l"

definition fifo_remove_task :: "('l, 't) linked_list_ops \<Rightarrow> 't \<Rightarrow> 'l \<Rightarrow> 't option \<times> 'l" where
  "fifo_remove_task L t l = ll_remove L t l"

definition fifo_pick_next_task :: "('l, 't) linked_list_ops \<Rightarrow> 'l \<Rightarrow> 't option \<times> 'l" where
  "fifo_pick_next_task L l = ll_pop_front L l"

definition fifo_put_prev_task :: "('l, 't) linked_list_ops \<Rightarrow> 't \<Rightarrow> bool \<Rightarrow> 'l \<Rightarrow> 'l" where
  "fifo_put_prev_task L prev preempt l = ll_push_back L prev l"

definition fifo_task_tick :: "'t \<Rightarrow> 'l \<Rightarrow> bool" where
  "fifo_task_tick t l = False"

lemma fifo_base_scheduler:
  assumes laws: "linked_list_laws L e"
  shows "base_scheduler (\<lambda>l. mset (e l)) (\<lambda>_. True) (\<lambda>_ _. True)
    (\<lambda>t l. Some (fifo_add_task L t l)) (fifo_pick_next_task L) (\<lambda>t p l. Some (fifo_put_prev_task L t p l))"
proof
  fix s t p
  show "\<exists>s'. Some (fifo_add_task L t s) = Some s' \<and> True \<and> True \<and> mset (e s') = add_mset t (mset (e s))"
    if "t \<notin># mset (e s)"
    using that ll_push_back_entries [OF laws, of t s] by (simp add: fifo_add_task_def)
  show "\<exists>s'. Some (fifo_put_prev_task L t p s) = Some s' \<and> True \<and> True \<and> mset (e s') = add_mset t (mset (e s))"
    if "t \<notin># mset (e s)"
    using that ll_push_back_entries [OF laws, of t s] by (simp add: fifo_put_prev_task_def)
  show "\<exists>s'. fifo_pick_next_task L s = (None, s') \<and> True \<and> True \<and> mset (e s') = {#}"
    if "mset (e s) = {#}"
    using that ll_pop_front_entries [OF laws, of s]
    by (cases "ll_pop_front L s") (auto simp: fifo_pick_next_task_def)
  show "\<exists>t s'. fifo_pick_next_task L s = (Some t, s') \<and> True \<and> True \<and> mset (e s) = add_mset t (mset (e s'))"
    if "mset (e s) \<noteq> {#}"
    using that ll_pop_front_entries [OF laws, of s]
    by (cases "ll_pop_front L s"; cases "e s") (auto simp: fifo_pick_next_task_def)
qed auto

lemma run_calls_append:
  "run_calls add pick put (cs @ ds) s = do {
     (rs, s') \<leftarrow> run_calls add pick put cs s;
     (rs', s'') \<leftarrow> run_calls add pick put ds s';
     Some (rs @ rs', s'') }"
proof (induction cs arbitrary: s)
  case Nil
  then show ?case by (simp add: case_prod_beta)
next
  case (Cons c cs)
  show ?case
  proof (cases c)
    case (AddTask t)
    with Cons.IH show ?thesis by (cases "add t s") (auto simp: case_prod_beta)
  next
    case (PutPrev t p)
    with Cons.IH show ?thesis by (cases "put t p s") (auto simp: case_prod_beta)
  next
    case PickNext
    with Cons.IH [of "snd (pick s)"] show ?thesis
      by (cases "run_calls add pick put cs (snd (pick s))") (auto simp: case_prod_beta Let_def)
  qed
qed

lemma swrap_add_ne:
  assumes "is_isize v" "0 < d" "d < 2 ^ 63"
  shows "swrap (v + d) \<noteq> v"
proof (cases "v + d + 2 ^ 63 < 2 ^ 64")
  case True
  with assms have "(v + d + 2 ^ 63) mod 2 ^ 64 = v + d + 2 ^ 63"
    by (intro mod_pos_pos_trivial) (simp_all add: is_isize_def)
  with assms(2) show ?thesis by (simp add: swrap_def)
next
  case False
  with assms have "(v + d + 2 ^ 63 - 2 ^ 64) mod 2 ^ 64 = v + d + 2 ^ 63 - 2 ^ 64"
    by (intro mod_pos_pos_trivial) (simp_all add: is_isize_def)
  moreover have "(v + d + 2 ^ 63 - 2 ^ 64) mod 2 ^ 64 = (v + d + 2 ^ 63) mod 2 ^ 64"
    by (rule minus_mod_self2)
  ultimately have "swrap (v + d) = v + d - 2 ^ 64"
    unfolding swrap_def by linarith
  with assms(3) show ?thesis by simp
qed

lemma fifo_adds:
  assumes "linked_list_laws L e" "distinct (e l @ ts)"
  shows "\<exists>l'. run_calls (\<lambda>t l. Some (fifo_add_task L t l)) (fifo_pick_next_task L)
      (\<lambda>t p l. Some (fifo_put_prev_task L t p l)) (map AddTask ts) l = Some ([], l') \<and> e l' = e l @ ts"
  using assms(2)
proof (induction ts arbitrary: l)
  case Nil
  then show ?case by simp
next
  case (Cons t ts)
  then have "e (fifo_add_task L t l) = e l @ [t]"
    by (simp add: fifo_add_task_def ll_push_back_entries [OF assms(1)])
  with Cons.IH [of "fifo_add_task L t l"] Cons.prems show ?case
    by auto
qed

lemma fifo_picks:
  assumes "linked_list_laws L e" "n \<le> length (e l)"
  shows "\<exists>l'. run_calls (\<lambda>t l. Some (fifo_add_task L t l)) (fifo_pick_next_task L)
      (\<lambda>t p l. Some (fifo_put_prev_task L t p l)) (replicate n PickNext) l =
      Some (map Some (take n (e l)), l') \<and> e l' = drop n (e l)"
  using assms(2)
proof (induction n arbitrary: l)
  case 0
  then show ?case by simp
next
  case (Suc n)
  then obtain t ts where q: "e l = t # ts"
    by (cases "e l") auto
  obtain r l' where pop: "ll_pop_front L l = (r, l')"
    by (cases "ll_pop_front L l")
  with ll_pop_front_entries [OF assms(1) pop] q have "r = Some t" "e l' = ts"
    by simp_all
  with Suc.IH [of l'] Suc.prems q pop show ?case
    by (auto simp: fifo_pick_next_task_def)
qed

subsection \<open>Properties\<close>

text \<open>
  C3: no scheduler call of the fair scheduler loses or duplicates a task. For every sequence of
  \<open>add_task\<close>, \<open>pick_next_task\<close> and \<open>put_prev_task\<close> calls that only enqueues tasks that are not
  queued, from a state that satisfies the invariant and with identifiers left in the pool, no
  call panics, the invariant holds afterwards, and the tasks queued before plus the tasks
  enqueued are exactly the tasks returned plus the tasks still queued.
\<close>

theorem cfs_conserves_tasks:
  assumes "cfs_inv s" "cfs_room (length cs) s"
    and "calls_ok cfs_queued (\<lambda>t s. Some (cfs_add_task t s)) cfs_pick_next_task cfs_put_prev_task cs s"
  shows "\<exists>rs s'. run_calls (\<lambda>t s. Some (cfs_add_task t s)) cfs_pick_next_task cfs_put_prev_task cs s =
      Some (rs, s') \<and> cfs_inv s' \<and> cfs_queued s + entered cs = returned rs + cfs_queued s'"
  using assms by (rule cfs.run_calls_conserve)

lemma cfs_inv_new: "cfs_inv cfs_new"
  by (simp add: cfs_inv_def cfs_new_def nice_ok_def cfs_task_new_def)

theorem cfs_conserves_tasks_witness:
  "\<exists>rs s'. run_calls (\<lambda>t s. Some (cfs_add_task t s)) cfs_pick_next_task cfs_put_prev_task
      [AddTask (1::nat), AddTask 2, PickNext, PutPrev 1 False] cfs_new = Some (rs, s') \<and>
      {#1, 2, 1#} = returned rs + cfs_queued s'"
proof -
  let ?cs = "[AddTask (1::nat), AddTask 2, PickNext, PutPrev 1 False]"
  have "cfs_room (length ?cs) cfs_new"
    by (simp add: cfs_room_def cfs_new_def)
  moreover have "calls_ok cfs_queued (\<lambda>t s. Some (cfs_add_task t s)) cfs_pick_next_task cfs_put_prev_task ?cs cfs_new"
    by (simp add: cfs_new_def cfs_add_task_def cfs_pick_next_task_def cfs_queued_def cfs_put_prev_task_def
        get_vruntime_def cfs_set_id_def set_vruntime_def cfs_task_new_def swrap_def first_vruntime_def Let_def)
  ultimately have "\<exists>rs s'. run_calls (\<lambda>t s. Some (cfs_add_task t s)) cfs_pick_next_task cfs_put_prev_task ?cs cfs_new =
      Some (rs, s') \<and> cfs_inv s' \<and> cfs_queued cfs_new + entered ?cs = returned rs + cfs_queued s'"
    by (rule cfs_conserves_tasks [OF cfs_inv_new])
  moreover have "cfs_queued (cfs_new :: nat CFScheduler) + entered ?cs = {#1, 2, 1#}"
    by (simp add: cfs_new_def cfs_queued_def)
  ultimately show ?thesis
    by (simp only:) blast
qed



text \<open>
  Changing the priority does not change the virtual run time. A nice value of the
  documented range is accepted without panicking, the task's virtual run time is the same
  before and after, and so is the whole ready queue; any other value is rejected.
\<close>

lemma cfs_set_priority_keeps_vruntime:
  assumes "cfs_inv s"
  shows "if - 20 \<le> prio \<and> prio \<le> 19
    then \<exists>s'. cfs_set_priority t prio s = Some (True, s') \<and> cfs_inv s' \<and> nice (cfs_task s' t) = prio \<and>
      get_vruntime (cfs_task s' t) = get_vruntime (cfs_task s t) \<and> cfs_ready_queue s' = cfs_ready_queue s
    else cfs_set_priority t prio s = Some (False, s)"
proof (cases "- 20 \<le> prio \<and> prio \<le> 19")
  case True
  from assms have "nice_ok (cfs_task s t)"
    by (simp add: cfs_inv_def)
  then obtain v where v: "get_vruntime (cfs_task s t) = Some v" "is_isize v"
    using get_vruntime_total by blast
  define c where "c = (cfs_task s t)\<lparr>init_vruntime := v, delta := 0, nice := prio\<rparr>"
  define s' where "s' = s\<lparr>cfs_task := (cfs_task s)(t := c)\<rparr>"
  have set: "cfs_set_priority t prio s = Some (True, s')"
    using True v by (simp add: cfs_set_priority_def cfs_task_set_priority_def s'_def c_def)
  have ok: "nice_ok c"
    using True by (simp add: nice_ok_def c_def)
  then obtain w where "get_weight c = Some w"
    using get_weight_total by blast
  then have "get_vruntime c = Some v"
    using v(2) by (simp add: get_vruntime_def) (simp add: c_def swrap_of_isize rdiv_def swrap_id)
  moreover have "cfs_inv s'"
    using assms ok unfolding cfs_inv_def s'_def by (auto simp: c_def split: if_splits)
  ultimately show ?thesis
    using True set v by (simp add: s'_def) (simp add: c_def)
next
  case False
  show ?thesis by (simp only: cfs_set_priority_def if_not_P [OF False])
qed

lemma cfs_set_priority_keeps_vruntime_witness:
  "\<exists>s'. cfs_set_priority (7::nat) (- 5) cfs_new = Some (True, s') \<and> nice (cfs_task s' 7) = - 5 \<and> get_vruntime (cfs_task s' 7) = Some 0"
proof -
  have "get_vruntime (cfs_task cfs_new (7::nat)) = Some 0"
    by (simp add: cfs_new_def cfs_task_new_def get_vruntime_def swrap_def)
  with cfs_set_priority_keeps_vruntime [OF cfs_inv_new, of "- 5" "7::nat"] show ?thesis
    by auto
qed

text \<open>
  A task that has run and is added again cannot be removed. \<open>add_task\<close> files the task
  under the current minimum virtual run time without clearing the ticks it has accumulated,
  while \<open>remove_task\<close> looks it up under the minimum plus those ticks: the lookup fails and the
  task stays queued.
\<close>

lemma cfs_readded_task_not_removable:
  assumes "cfs_inv s" "cfs_room 1 s" "t \<notin># cfs_queued s"
    and "nice (cfs_task s t) = 0" "0 < delta (cfs_task s t)" "delta (cfs_task s t) < 2 ^ 63"
  shows "cfs_remove_task t (cfs_add_task t s) = Some (None, cfs_add_task t s) \<and> t \<in># cfs_queued (cfs_add_task t s)"
proof -
  define v where "v = (case min_vruntime s of None \<Rightarrow> 0 | Some v \<Rightarrow> v)"
  let ?s = "cfs_add_task t s" and ?d = "delta (cfs_task s t)"
  have add: "cfs_inv ?s" "cfs_queued ?s = add_mset t (cfs_queued s)"
    using cfs_add_ok [of s 0 t] assms by simp_all
  have v: "is_isize v"
    using assms(1) by (auto simp: v_def cfs_inv_def is_isize_def split: option.splits)
  have task: "cfs_id (cfs_task ?s t) = id_pool s" "get_vruntime (cfs_task ?s t) = Some (swrap (v + ?d))"
    using assms(4) by (simp_all add: cfs_add_task_def Let_def v_def get_vruntime_def set_vruntime_def cfs_set_id_def)
  have ne: "swrap (v + ?d) \<noteq> v"
    using v assms(5,6) by (rule swrap_add_ne)
  have q: "map_of (cfs_ready_queue ?s) = (map_of (cfs_ready_queue s))((v, id_pool s) \<mapsto> t)"
    using assms(1) by (simp add: cfs_add_task_def Let_def v_def map_of_bt_insert cfs_inv_def)
  have "map_of (cfs_ready_queue s) (swrap (v + ?d), id_pool s) = None"
    using fresh_key [OF assms(1), of "swrap (v + ?d)"] by (simp add: map_of_eq_None_iff)
  with q ne have "map_of (cfs_ready_queue ?s) (swrap (v + ?d), id_pool s) = None"
    by simp
  with task add show ?thesis
    by (simp add: cfs_remove_task_def)
qed

lemma cfs_readded_task_not_removable_witness:
  "let s = cfs_new \<lparr>cfs_task := (\<lambda>_. cfs_task_new)(1 := cfs_task_task_tick cfs_task_new)\<rparr>
   in cfs_remove_task (1::nat) (cfs_add_task 1 s) = Some (None, cfs_add_task 1 s)"
proof -
  let ?s = "cfs_new \<lparr>cfs_task := (\<lambda>_. cfs_task_new)(1 := cfs_task_task_tick cfs_task_new)\<rparr> :: nat CFScheduler"
  have "cfs_inv ?s" "cfs_room 1 ?s" "1 \<notin># cfs_queued ?s" "nice (cfs_task ?s 1) = 0"
    "0 < delta (cfs_task ?s 1)" "delta (cfs_task ?s 1) < 2 ^ 63"
    by (simp_all add: cfs_inv_def cfs_room_def cfs_queued_def cfs_new_def nice_ok_def cfs_task_new_def
        cfs_task_task_tick_def swrap_def)
  from cfs_readded_task_not_removable [OF this] show ?thesis
    by simp
qed

text \<open>
  Round robin gives a task exactly its time slice. After its slice has been reset, a
  running task is asked to give up the processor at the \<open>MAX_TIME_SLICE\<close>-th timer tick and at
  none before.
\<close>

lemma rr_time_slice_exact:
  assumes "0 < S" "S < 2 ^ 63"
  shows "fst (rr_ticks S t (reset_time_slice S t s)) = replicate (S - 1) False @ [True]"
proof -
  have "time_slice (reset_time_slice S t s) t = int S"
    using assms by (simp add: reset_time_slice_def swrap_id)
  with rr_ticks_slice [of "reset_time_slice S t s" t S S] assms
  have "fst (rr_ticks S t (reset_time_slice S t s)) = map (\<lambda>i. S \<le> Suc i) [0..<S]"
    by simp
  also have "\<dots> = map (\<lambda>i. S \<le> Suc i) [0..<S - 1] @ [True]"
    using assms by (cases S) simp_all
  also have "map (\<lambda>i. S \<le> Suc i) [0..<S - 1] = replicate (S - 1) False"
    by (intro nth_equalityI) auto
  finally show ?thesis .
qed

lemma rr_time_slice_exact_witness:
  "fst (rr_ticks 5 (0::nat) (reset_time_slice 5 0 (rr_new 5))) = [False, False, False, False, True]"
proof -
  have "fst (rr_ticks 5 (0::nat) (reset_time_slice 5 0 (rr_new 5))) = replicate (5 - 1) False @ [True]"
    by (rule rr_time_slice_exact) simp_all
  also have "\<dots> = [False, False, False, False, True]"
    by (simp add: eval_nat_numeral)
  finally show ?thesis .
qed

text \<open>
  C26: a full round of round robin is fair. When every picked task is put back without being
  preempted, the first \<open>n\<close> picks from a queue of \<open>n\<close> tasks are the queue in order, each task once,
  and the queue is as before.
\<close>

theorem rr_round_visits_all:
  "fst (rr_rounds S (length (rr_ready_queue s)) s) = rr_ready_queue s \<and>
   rr_ready_queue (snd (rr_rounds S (length (rr_ready_queue s)) s)) = rr_ready_queue s"
  using rr_rounds_rotate [of "length (rr_ready_queue s)" s S] by simp



end
