(* ===== verification/Vfs_Path.thy ===== *)
theory Vfs_Path
  imports Prelude
begin

section \<open>Paths and node attributes (async_vfs)\<close>

text \<open>
  Path normalisation (\<open>async_vfs/src/path.rs\<close>), the path splitting of the memory and device
  file systems, and the permission, type, attribute and directory-entry records of
  \<open>async_vfs/src/structs.rs\<close>. A string is a list of the code points below 256; those from 128 on
  take two bytes, so the last byte of a string is a character of its own exactly when the last
  code point is below 128.
\<close>

subsection \<open>Normalisation\<close>

definition is_ascii :: "char \<Rightarrow> bool" where
  "is_ascii c \<longleftrightarrow> of_char c < (128::nat)"

fun split_on :: "char \<Rightarrow> string \<Rightarrow> string list" where
  "split_on c [] = [[]]"
| "split_on c (x # xs) =
     (if x = c then [] # split_on c xs
      else (case split_on c xs of [] \<Rightarrow> [[x]] | w # ws \<Rightarrow> (x # w) # ws))"

function pop_loop :: "string \<Rightarrow> string" where
  "pop_loop buf =
     (if buf = [] then buf
      else if buf = ''/'' then buf
      else if last buf = CHR ''/'' then butlast buf
      else pop_loop (butlast buf))"
  by auto
termination
  by (relation "measure length") auto

declare pop_loop.simps [simp del]

text \<open>\<open>&buf[buf.len() - 1..]\<close> panics when the last character takes two bytes.\<close>

definition push_part :: "bool \<Rightarrow> string \<Rightarrow> string \<Rightarrow> string option" where
  "push_part is_absolute part buf =
     (if buf = [] then Some ((if is_absolute then ''/'' else []) @ part)
      else if \<not> is_ascii (last buf) then None
      else if last buf \<noteq> CHR ''/'' then Some (buf @ ''/'' @ part)
      else Some (buf @ part))"

fun canon_parts :: "bool \<Rightarrow> string list \<Rightarrow> string \<Rightarrow> string option" where
  "canon_parts is_absolute [] buf = Some buf"
| "canon_parts is_absolute (part # parts) buf =
     (if part = [] \<or> part = ''.'' then canon_parts is_absolute parts buf
      else if part = ''..'' then canon_parts is_absolute parts (pop_loop buf)
      else do { buf' \<leftarrow> push_part is_absolute part buf; canon_parts is_absolute parts buf' })"

definition starts_with_slash :: "string \<Rightarrow> bool" where
  "starts_with_slash p \<longleftrightarrow> (case p of [] \<Rightarrow> False | c # _ \<Rightarrow> c = CHR ''/'')"

definition canonicalize :: "string \<Rightarrow> string option" where
  "canonicalize path = do {
     let is_absolute = starts_with_slash path;
     buf \<leftarrow> canon_parts is_absolute (split_on (CHR ''/'') path) [];
     Some (if is_absolute \<and> buf = [] then ''/'' else buf)
   }"

text \<open>Reference: a path denotes a stack of names, and is written by joining them.\<close>

fun resolve :: "string list \<Rightarrow> string list \<Rightarrow> string list" where
  "resolve [] st = st"
| "resolve (p # ps) st =
     (if p = [] \<or> p = ''.'' then resolve ps st
      else if p = ''..'' then resolve ps (butlast st)
      else resolve ps (st @ [p]))"

fun join_names :: "string list \<Rightarrow> string" where
  "join_names [] = []"
| "join_names [n] = n"
| "join_names (n # ns) = n @ ''/'' @ join_names ns"

definition write_path :: "bool \<Rightarrow> string list \<Rightarrow> string" where
  "write_path is_absolute ns = (if is_absolute then ''/'' else []) @ join_names ns"

definition proper_name :: "string \<Rightarrow> bool" where
  "proper_name n \<longleftrightarrow> n \<noteq> [] \<and> n \<noteq> ''.'' \<and> n \<noteq> ''..'' \<and> CHR ''/'' \<notin> set n"

subsection \<open>The normaliser implements the reference\<close>

lemma split_on_nonempty [simp]: "split_on c xs \<noteq> []"
  by (induction c xs rule: split_on.induct) (auto split: list.splits)

lemma split_on_no_sep: "w \<in> set (split_on c xs) \<Longrightarrow> c \<notin> set w"
  by (induction c xs arbitrary: w rule: split_on.induct) (auto split: if_splits list.splits)

lemma split_on_chars: "w \<in> set (split_on c xs) \<Longrightarrow> set w \<subseteq> set xs"
  by (induction c xs arbitrary: w rule: split_on.induct) (fastforce split: if_splits list.splits)+

lemma split_on_word: "c \<notin> set w \<Longrightarrow> split_on c w = [w]"
  by (induction w) auto

lemma split_on_sep: "c \<notin> set w \<Longrightarrow> split_on c (w @ c # xs) = w # split_on c xs"
  by (induction w) auto

lemma join_names_snoc: "ns \<noteq> [] \<Longrightarrow> join_names (ns @ [n]) = join_names ns @ ''/'' @ n"
  by (induction ns rule: join_names.induct) auto

lemma split_join: "ns \<noteq> [] \<Longrightarrow> \<forall>n \<in> set ns. CHR ''/'' \<notin> set n \<Longrightarrow> split_on (CHR ''/'') (join_names ns) = ns"
  by (induction ns rule: join_names.induct) (auto simp: split_on_word split_on_sep)

lemma pop_loop_stop [simp]: "pop_loop [] = []" "pop_loop ''/'' = ''/''"
  by (subst pop_loop.simps, simp)+

lemma pop_loop_word:
  "w \<noteq> [] \<Longrightarrow> CHR ''/'' \<notin> set w \<Longrightarrow> pop_loop (pre @ w) = pop_loop pre"
proof (induction w rule: rev_induct)
  case (snoc x w)
  have x: "x \<noteq> CHR ''/''"
    using snoc.prems by auto
  then have "pop_loop (pre @ w @ [x]) = pop_loop (pre @ w)"
    using pop_loop.simps [of "pre @ w @ [x]"] by (simp add: butlast_append)
  with snoc show ?case by (cases "w = []") auto
qed simp

text \<open>The buffer of the loop: the written path, or still empty when no name has been pushed.\<close>

definition buf_for :: "bool \<Rightarrow> string \<Rightarrow> string list \<Rightarrow> bool" where
  "buf_for ab buf ns \<longleftrightarrow> buf = write_path ab ns \<or> buf = [] \<and> ns = []"

lemma join_names_empty: "\<forall>n \<in> set ns. n \<noteq> [] \<Longrightarrow> join_names ns = [] \<longleftrightarrow> ns = []"
  by (induction ns rule: join_names.induct) auto

lemma last_join: "ns \<noteq> [] \<Longrightarrow> \<forall>n \<in> set ns. n \<noteq> [] \<Longrightarrow> last (join_names ns) = last (last ns)"
proof (induction ns rule: rev_induct)
  case (snoc n ns)
  then show ?case by (cases "ns = []") (auto simp: join_names_snoc)
qed simp

lemma pop_loop_buf:
  assumes "buf_for ab buf ns" "\<forall>n \<in> set ns. proper_name n"
  shows "buf_for ab (pop_loop buf) (butlast ns)"
proof (cases ns rule: rev_cases)
  case Nil
  with assms show ?thesis
    by (auto simp: buf_for_def write_path_def)
next
  case (snoc ds d)
  with assms have d: "d \<noteq> []" "CHR ''/'' \<notin> set d" and ds: "\<forall>n \<in> set ds. n \<noteq> []"
    and buf: "buf = write_path ab (ds @ [d])"
    by (auto simp: buf_for_def proper_name_def)
  show ?thesis
  proof (cases "ds = []")
    case True
    with buf have "pop_loop buf = pop_loop (if ab then ''/'' else [])"
      using pop_loop_word [OF d, of "if ab then ''/'' else []"] by (simp add: write_path_def)
    with snoc True show ?thesis
      by (simp add: buf_for_def write_path_def)
  next
    case False
    with ds have ne: "write_path ab ds \<noteq> []"
      by (simp add: write_path_def join_names_empty)
    from False buf have "buf = (write_path ab ds @ ''/'') @ d"
      by (simp add: write_path_def join_names_snoc)
    then have "pop_loop buf = pop_loop (write_path ab ds @ ''/'')"
      by (simp only: pop_loop_word [OF d])
    also have "\<dots> = write_path ab ds"
      using ne pop_loop.simps [of "write_path ab ds @ ''/''"] by simp
    finally show ?thesis
      using snoc by (simp add: buf_for_def)
  qed
qed

lemma push_part_buf:
  assumes "buf_for ab buf ns" "\<forall>n \<in> set ns. proper_name n" "\<forall>n \<in> set ns. \<forall>c \<in> set n. is_ascii c"
    and "proper_name p"
  obtains buf' where "push_part ab p buf = Some buf'" "buf_for ab buf' (ns @ [p])"
proof (cases "ns = []")
  case True
  with assms(1) consider "buf = []" | "ab" "buf = ''/''"
    by (auto simp: buf_for_def write_path_def split: if_splits)
  then show ?thesis
  proof cases
    case 1
    with True show ?thesis
      by (intro that) (auto simp: push_part_def buf_for_def write_path_def)
  next
    case 2
    with True show ?thesis
      by (intro that) (auto simp: push_part_def buf_for_def write_path_def is_ascii_def)
  qed
next
  case False
  with assms(1,2) have buf: "buf = write_path ab ns" and names: "\<forall>n \<in> set ns. n \<noteq> []"
    by (auto simp: buf_for_def proper_name_def)
  with False have ne: "join_names ns \<noteq> []" "buf \<noteq> []"
    by (auto simp: write_path_def join_names_empty)
  have last: "last buf = last (last ns)"
    using False names ne by (simp add: buf write_path_def last_join)
  have mem: "last ns \<in> set ns" "last ns \<noteq> []"
    using False names by auto
  then have "is_ascii (last buf)" "last buf \<noteq> CHR ''/''"
    unfolding last using assms(2,3) last_in_set by (blast, metis proper_name_def last_in_set)
  with False ne show ?thesis
    by (intro that) (auto simp: push_part_def buf_for_def buf write_path_def join_names_snoc)
qed

lemma canon_parts_resolve:
  assumes "buf_for ab buf ns" "\<forall>n \<in> set ns. proper_name n"
    and "\<forall>n \<in> set ns \<union> set ps. \<forall>c \<in> set n. is_ascii c" "\<forall>p \<in> set ps. CHR ''/'' \<notin> set p"
  shows "\<exists>buf'. canon_parts ab ps buf = Some buf' \<and> buf_for ab buf' (resolve ps ns)"
  using assms
proof (induction ps arbitrary: buf ns)
  case Nil
  then show ?case by simp
next
  case (Cons p ps)
  have sub: "set (butlast ns) \<subseteq> set ns"
    by (meson in_set_butlastD subsetI)
  consider "p = [] \<or> p = ''.''" | "p = ''..''" | "proper_name p"
    using Cons.prems(4) by (auto simp: proper_name_def)
  then show ?case
  proof cases
    case 1
    with Cons show ?thesis by auto
  next
    case 2
    have "buf_for ab (pop_loop buf) (butlast ns)"
      using Cons.prems by (intro pop_loop_buf)
    moreover have "\<forall>n \<in> set (butlast ns). proper_name n" "\<forall>p \<in> set ps. CHR ''/'' \<notin> set p"
      "\<forall>n \<in> set (butlast ns) \<union> set ps. \<forall>c \<in> set n. is_ascii c"
      using Cons.prems sub by (blast, simp, auto)
    ultimately have "\<exists>buf'. canon_parts ab ps (pop_loop buf) = Some buf' \<and> buf_for ab buf' (resolve ps (butlast ns))"
      using Cons.IH by blast
    with 2 show ?thesis
      by simp
  next
    case 3
    obtain buf' where b: "push_part ab p buf = Some buf'" "buf_for ab buf' (ns @ [p])"
      using Cons.prems 3 by (rule_tac push_part_buf [of ab buf ns p]) auto
    with Cons.IH [of buf' "ns @ [p]"] Cons.prems 3 show ?thesis
      by (auto simp: proper_name_def)
  qed
qed

lemma resolve_proper:
  "\<forall>n \<in> set ns. proper_name n \<Longrightarrow> \<forall>p \<in> set ps. CHR ''/'' \<notin> set p \<Longrightarrow> n \<in> set (resolve ps ns) \<Longrightarrow> proper_name n"
proof (induction ps arbitrary: ns)
  case (Cons p ps)
  have bl: "\<forall>n \<in> set (butlast ns). proper_name n"
    using Cons.prems(1) by (meson in_set_butlastD)
  consider "p = [] \<or> p = ''.''" | "p = ''..''" | "proper_name p"
    using Cons.prems(2) by (auto simp: proper_name_def)
  then show ?case
  proof cases
    case 1
    with Cons.prems show ?thesis by (intro Cons.IH [of ns]) auto
  next
    case 2
    with Cons.prems bl show ?thesis by (intro Cons.IH [of "butlast ns"]) auto
  next
    case 3
    with Cons.prems show ?thesis by (intro Cons.IH [of "ns @ [p]"]) (auto simp: proper_name_def)
  qed
qed simp

lemma resolve_id: "\<forall>p \<in> set ps. proper_name p \<Longrightarrow> resolve ps ns = ns @ ps"
  by (induction ps arbitrary: ns) (auto simp: proper_name_def)

lemma resolve_chars: "n \<in> set (resolve ps ns) \<Longrightarrow> n \<in> set ns \<union> set ps"
proof (induction ps arbitrary: ns)
  case (Cons p ps)
  with Cons.IH [of ns] Cons.IH [of "butlast ns"] Cons.IH [of "ns @ [p]"] show ?case
    by (auto split: if_splits dest: in_set_butlastD)
qed simp

lemma canonicalize_eq:
  assumes "\<forall>c \<in> set p. is_ascii c"
  shows "canonicalize p = Some (write_path (starts_with_slash p) (resolve (split_on (CHR ''/'') p) []))"
proof -
  let ?ab = "starts_with_slash p" and ?ps = "split_on (CHR ''/'') p"
  have "\<forall>w \<in> set ?ps. \<forall>c \<in> set w. is_ascii c"
    using assms split_on_chars by blast
  with canon_parts_resolve [of ?ab "[]" "[]" ?ps] obtain buf where
    buf: "canon_parts ?ab ?ps [] = Some buf" "buf_for ?ab buf (resolve ?ps [])"
    by (auto simp: buf_for_def split_on_no_sep)
  have "\<forall>n \<in> set (resolve ?ps []). n \<noteq> []"
    using resolve_proper [of "[]" ?ps] by (auto simp: proper_name_def split_on_no_sep)
  with buf show ?thesis
    by (auto simp: canonicalize_def buf_for_def write_path_def join_names_empty)
qed

lemma write_path_parts:
  assumes "\<forall>n \<in> set ns. proper_name n"
  shows "starts_with_slash (write_path ab ns) = ab"
    and "resolve (split_on (CHR ''/'') (write_path ab ns)) [] = ns"
proof -
  have sl: "\<forall>n \<in> set ns. CHR ''/'' \<notin> set n" and ne: "\<forall>n \<in> set ns. n \<noteq> []"
    using assms by (auto simp: proper_name_def)
  have "\<not> starts_with_slash (join_names ns)"
  proof (cases ns)
    case (Cons n ns')
    with sl ne show ?thesis
      by (cases n; cases ns') (auto simp: starts_with_slash_def)
  qed (simp add: starts_with_slash_def)
  then show "starts_with_slash (write_path ab ns) = ab"
    by (simp add: write_path_def starts_with_slash_def)
  have "resolve (split_on (CHR ''/'') (join_names ns)) [] = ns"
    using sl assms by (cases "ns = []") (simp_all add: split_join resolve_id)
  then show "resolve (split_on (CHR ''/'') (write_path ab ns)) [] = ns"
    by (simp add: write_path_def)
qed

lemma set_write_path: "set (write_path ab ns) \<subseteq> insert (CHR ''/'') (\<Union> (set ` set ns))"
proof -
  have "set (join_names ns) \<subseteq> insert (CHR ''/'') (\<Union> (set ` set ns))"
    by (induction ns rule: join_names.induct) auto
  then show ?thesis by (auto simp: write_path_def)
qed

lemma canonicalize_idempotent:
  assumes "\<forall>c \<in> set p. is_ascii c" "canonicalize p = Some q"
  shows "canonicalize q = Some q"
proof -
  let ?ns = "resolve (split_on (CHR ''/'') p) []"
  have proper: "\<forall>n \<in> set ?ns. proper_name n"
    using resolve_proper [of "[]" "split_on (CHR ''/'') p"] by (auto simp: split_on_no_sep)
  have q: "q = write_path (starts_with_slash p) ?ns"
    using assms canonicalize_eq by simp
  have "set n \<subseteq> set p" if "n \<in> set ?ns" for n
    using resolve_chars [OF that] split_on_chars by auto
  with assms(1) have "\<forall>n \<in> set ?ns. \<forall>c \<in> set n. is_ascii c"
    by blast
  then have "\<forall>c \<in> set q. is_ascii c"
    using set_write_path [of "starts_with_slash p" ?ns] unfolding q by (auto simp: is_ascii_def)
  from canonicalize_eq [OF this] write_path_parts [OF proper, of "starts_with_slash p"] show ?thesis
    by (simp add: q)
qed

subsection \<open>Permissions, attributes and directory entries\<close>

unbundle bit_operations_syntax

type_synonym VfsNodePerm = "16 word"

abbreviation OWNER_READ :: VfsNodePerm where "OWNER_READ \<equiv> 0x100"
abbreviation OWNER_WRITE :: VfsNodePerm where "OWNER_WRITE \<equiv> 0x80"
abbreviation OWNER_EXEC :: VfsNodePerm where "OWNER_EXEC \<equiv> 0x40"
abbreviation GROUP_READ :: VfsNodePerm where "GROUP_READ \<equiv> 0x20"
abbreviation GROUP_WRITE :: VfsNodePerm where "GROUP_WRITE \<equiv> 0x10"
abbreviation GROUP_EXEC :: VfsNodePerm where "GROUP_EXEC \<equiv> 0x8"
abbreviation OTHER_READ :: VfsNodePerm where "OTHER_READ \<equiv> 0x4"
abbreviation OTHER_WRITE :: VfsNodePerm where "OTHER_WRITE \<equiv> 0x2"
abbreviation OTHER_EXEC :: VfsNodePerm where "OTHER_EXEC \<equiv> 0x1"

definition default_file :: VfsNodePerm where "default_file = 0x1B6"
definition default_dir :: VfsNodePerm where "default_dir = 0x1ED"

definition has_perm :: "VfsNodePerm \<Rightarrow> VfsNodePerm \<Rightarrow> bool" where
  "has_perm m p \<longleftrightarrow> m AND p = p"

definition owner_readable :: "VfsNodePerm \<Rightarrow> bool" where "owner_readable m = has_perm m OWNER_READ"
definition owner_writable :: "VfsNodePerm \<Rightarrow> bool" where "owner_writable m = has_perm m OWNER_WRITE"
definition owner_executable :: "VfsNodePerm \<Rightarrow> bool" where "owner_executable m = has_perm m OWNER_EXEC"

definition rwx_buf :: "VfsNodePerm \<Rightarrow> string" where
  "rwx_buf m =
     [if has_perm m OWNER_READ then CHR ''r'' else CHR ''-'',
      if has_perm m OWNER_WRITE then CHR ''w'' else CHR ''-'',
      if has_perm m OWNER_EXEC then CHR ''x'' else CHR ''-'',
      if has_perm m GROUP_READ then CHR ''r'' else CHR ''-'',
      if has_perm m GROUP_WRITE then CHR ''w'' else CHR ''-'',
      if has_perm m GROUP_EXEC then CHR ''x'' else CHR ''-'',
      if has_perm m OTHER_READ then CHR ''r'' else CHR ''-'',
      if has_perm m OTHER_WRITE then CHR ''w'' else CHR ''-'',
      if has_perm m OTHER_EXEC then CHR ''x'' else CHR ''-'']"

datatype VfsNodeType = Fifo | CharDevice | Dir | BlockDevice | File | SymLink | Socket

fun as_char :: "VfsNodeType \<Rightarrow> char" where
  "as_char Fifo = CHR ''p''"
| "as_char CharDevice = CHR ''c''"
| "as_char Dir = CHR ''d''"
| "as_char BlockDevice = CHR ''b''"
| "as_char File = CHR ''-''"
| "as_char SymLink = CHR ''l''"
| "as_char Socket = CHR ''s''"

record VfsNodeAttr =
  attr_mode :: VfsNodePerm
  attr_ty :: VfsNodeType
  attr_size :: nat
  attr_blocks :: nat

definition attr_new :: "VfsNodePerm \<Rightarrow> VfsNodeType \<Rightarrow> nat \<Rightarrow> nat \<Rightarrow> VfsNodeAttr" where
  "attr_new m ty sz bl = \<lparr>attr_mode = m, attr_ty = ty, attr_size = sz, attr_blocks = bl\<rparr>"

definition attr_new_file :: "nat \<Rightarrow> nat \<Rightarrow> VfsNodeAttr" where
  "attr_new_file sz bl = attr_new default_file File sz bl"

definition attr_new_dir :: "nat \<Rightarrow> nat \<Rightarrow> VfsNodeAttr" where
  "attr_new_dir sz bl = attr_new default_dir Dir sz bl"

text \<open>A directory entry stores the name in 63 bytes, padded with zeros; slicing the array by a
  longer name panics.\<close>

record VfsDirEntry =
  d_type :: VfsNodeType
  d_name :: "byte list"

definition utf8 :: "string \<Rightarrow> byte list" where
  "utf8 s = concat (map (\<lambda>c. if is_ascii c then [of_char c]
     else [0xC0 OR drop_bit 6 (of_char c), 0x80 OR (of_char c AND 0x3F)]) s)"

definition dir_entry_new :: "string \<Rightarrow> VfsNodeType \<Rightarrow> VfsDirEntry option" where
  "dir_entry_new name ty =
     (let b = utf8 name
      in if length b > 63 then None
         else Some \<lparr>d_type = ty, d_name = b @ replicate (63 - length b) 0\<rparr>)"

definition name_as_bytes :: "VfsDirEntry \<Rightarrow> byte list" where
  "name_as_bytes e = takeWhile (\<lambda>c. c \<noteq> 0) (d_name e)"

subsection \<open>Properties\<close>

text \<open>
  C7: \<open>canonicalize\<close> computes the normal form of a path. For every ASCII path it returns
  without panicking the path written from the stack of names that the parts of the path denote
  (empty parts and \<open>.\<close> dropped, \<open>..\<close> removing the previous name), keeps it absolute or relative,
  and the result is a fixed point: normalising it again changes nothing.
\<close>

theorem canonicalize_normal_form:
  assumes "\<forall>c \<in> set p. is_ascii c"
  shows "\<exists>q. canonicalize p = Some q \<and>
    q = write_path (starts_with_slash p) (resolve (split_on (CHR ''/'') p) []) \<and>
    starts_with_slash q = starts_with_slash p \<and>
    (\<forall>n \<in> set (resolve (split_on (CHR ''/'') p) []). proper_name n) \<and>
    canonicalize q = Some q"
proof -
  let ?ns = "resolve (split_on (CHR ''/'') p) []"
  have "\<forall>n \<in> set ?ns. proper_name n"
    using resolve_proper [of "[]" "split_on (CHR ''/'') p"] by (auto simp: split_on_no_sep)
  with canonicalize_eq [OF assms] canonicalize_idempotent [OF assms] write_path_parts [of ?ns "starts_with_slash p"]
  show ?thesis
    by simp
qed

theorem canonicalize_normal_form_witness:
  "\<exists>q. canonicalize ''/a/./b//../c'' = Some q \<and> q = ''/a/c''"
proof -
  have "\<forall>c \<in> set ''/a/./b//../c''. is_ascii c"
    by (simp add: is_ascii_def)
  from canonicalize_normal_form [OF this] show ?thesis
    by (auto simp: write_path_def starts_with_slash_def)
qed

text \<open>
  \<open>canonicalize\<close> panics on some valid paths. When a name ends in a character outside
  ASCII and another name follows, the test for a trailing slash slices the buffer inside that
  character.
\<close>

lemma canonicalize_panics_non_ascii:
  assumes "proper_name n" "\<not> is_ascii (last n)" "proper_name m"
  shows "canonicalize (''/'' @ n @ ''/'' @ m) = None"
proof -
  have "split_on (CHR ''/'') (''/'' @ n @ ''/'' @ m) = [[], n, m]"
    using assms by (simp add: split_on_sep split_on_word proper_name_def)
  with assms show ?thesis
    by (auto simp: canonicalize_def starts_with_slash_def proper_name_def push_part_def)
qed

lemma canonicalize_panics_non_ascii_witness:
  "canonicalize (''/'' @ [CHR 0xE9] @ ''/x'') = None"
  using canonicalize_panics_non_ascii [of "[CHR 0xE9]" "''x''"]
  by (simp add: proper_name_def is_ascii_def)

text \<open>
  A directory entry gives its name back. For a name of at most 63 bytes without a zero byte,
  the entry holds exactly 63 bytes and \<open>name_as_bytes\<close> returns the bytes of the name; a longer
  name, for which the code only logs a warning, panics.
\<close>

lemma dir_entry_roundtrip:
  "(length (utf8 name) \<le> 63 \<and> 0 \<notin> set (utf8 name) \<longrightarrow>
      (\<exists>e. dir_entry_new name ty = Some e \<and> name_as_bytes e = utf8 name \<and> d_type e = ty \<and> length (d_name e) = 63)) \<and>
   (63 < length (utf8 name) \<longrightarrow> dir_entry_new name ty = None)"
proof -
  have "takeWhile (\<lambda>c. c \<noteq> 0) (utf8 name @ replicate k 0) = utf8 name" if "0 \<notin> set (utf8 name)" for k
  proof -
    have "\<forall>c \<in> set (utf8 name). c \<noteq> 0"
      using that by metis
    then have "takeWhile (\<lambda>c. c \<noteq> 0) (utf8 name @ replicate k 0) = utf8 name @ takeWhile (\<lambda>c. c \<noteq> 0) (replicate k (0 :: byte))"
      by (intro takeWhile_append2) blast
    then show ?thesis
      by (cases k) simp_all
  qed
  then show ?thesis
    by (auto simp: dir_entry_new_def name_as_bytes_def Let_def)
qed

lemma dir_entry_roundtrip_witness:
  "\<exists>e. dir_entry_new ''ab'' Dir = Some e \<and> name_as_bytes e = utf8 ''ab''"
proof -
  have "utf8 ''ab'' = [97, 98]"
    by (simp add: utf8_def is_ascii_def)
  then have "length (utf8 ''ab'') \<le> 63 \<and> 0 \<notin> set (utf8 ''ab'')"
    by simp
  with dir_entry_roundtrip [of "''ab''" Dir] show ?thesis
    by blast
qed

end
