(* ===== verification/Vfs_Nodes.thy ===== *)
theory Vfs_Nodes
  imports Vfs_Path
begin

section \<open>Nodes of the memory and device file systems (axfs_ramfs, axfs_devfs)\<close>

text \<open>
  The nodes behind \<open>VfsNodeRef\<close>: directories and files of the memory file system
  (\<open>axfs_ramfs/src\<close>), the interrupt counter file, and the directories and devices of the device
  file system (\<open>axfs_devfs/src\<close>), in one store so that a path can cross from one file system
  into the other. Calls through the trait object are functions that dispatch on the node. A weak
  parent reference can be upgraded while the parent is alive (\<open>alive\<close>). The reader-writer locks of
  the directories are spin locks: \<open>create\<close> and \<open>remove\<close> hold the read lock of every directory they
  descend from, so the model carries those directories along and a write lock on one of them is
  \<open>Deadlock\<close>.
\<close>

subsection \<open>Bytes of a memory file\<close>

text \<open>\<open>Vec::resize\<close> panics when the length does not fit an \<open>isize\<close>; ranges panic when the start is
  past the end or the end past the length.\<close>

definition vec_resize :: "nat \<Rightarrow> byte list \<Rightarrow> byte list option" where
  "vec_resize n c =
     (if n \<ge> 2 ^ 63 then None
      else Some (if n \<le> length c then take n c else c @ replicate (n - length c) 0))"

definition file_truncate :: "nat \<Rightarrow> byte list \<Rightarrow> byte list option" where
  "file_truncate sz c = (if sz < length c then Some (take sz c) else vec_resize sz c)"

definition file_read_at :: "nat \<Rightarrow> nat \<Rightarrow> byte list \<Rightarrow> byte list option" where
  "file_read_at offset len c =
     (let start = min (length c) offset; end = min (length c) (uadd offset len)
      in if start \<le> end then Some (take (end - start) (drop start c)) else None)"

definition file_write_at :: "nat \<Rightarrow> byte list \<Rightarrow> byte list \<Rightarrow> (nat \<times> byte list) option" where
  "file_write_at offset buf c =
     (let end = uadd offset (length buf)
      in do {
        c' \<leftarrow> (if end > length c then vec_resize end c else Some c);
        if offset \<le> end \<and> end \<le> length c' then
          Some (length buf, take offset c' @ take (end - offset) buf @ drop end c')
        else None
      })"

subsection \<open>The node store\<close>

type_synonym inode = nat

datatype node =
    RamDir "inode option" "(string \<times> inode) list"
  | RamFile "byte list"
  | Interrupts
  | DevDir "inode option" "(string \<times> inode) list"
  | NullDev
  | ZeroDev
  | RandomDev

text \<open>\<open>irq_count\<close> is the global interrupt counter; \<open>random_fill\<close> what the random generator yields.\<close>

record vfs =
  nodes :: "inode \<rightharpoonup> node"
  next_inode :: inode
  alive :: "inode \<Rightarrow> bool"
  irq_count :: "(nat \<times> nat) list"
  random_fill :: "nat \<Rightarrow> byte list"

definition upgrade :: "vfs \<Rightarrow> inode option \<Rightarrow> inode option" where
  "upgrade fs p = (case p of None \<Rightarrow> None | Some i \<Rightarrow> if alive fs i then Some i else None)"

definition split_path :: "string \<Rightarrow> string \<times> string option" where
  "split_path path =
     (let t = dropWhile (\<lambda>c. c = CHR ''/'') path
      in if CHR ''/'' \<in> set t
         then (takeWhile (\<lambda>c. c \<noteq> CHR ''/'') t, Some (tl (dropWhile (\<lambda>c. c \<noteq> CHR ''/'') t)))
         else (t, None))"

lemma split_path_shorter: "split_path path = (name, Some rest) \<Longrightarrow> length rest < length path"
proof -
  assume "split_path path = (name, Some rest)"
  then have t: "CHR ''/'' \<in> set (dropWhile (\<lambda>c. c = CHR ''/'') path)"
    and rest: "rest = tl (dropWhile (\<lambda>c. c \<noteq> CHR ''/'') (dropWhile (\<lambda>c. c = CHR ''/'') path))"
    by (auto simp: split_path_def Let_def split: if_splits)
  let ?t = "dropWhile (\<lambda>c. c = CHR ''/'') path"
  have "dropWhile (\<lambda>c. c \<noteq> CHR ''/'') ?t \<noteq> []"
    using t by (auto simp: dropWhile_eq_Nil_conv)
  then have "length rest < length (dropWhile (\<lambda>c. c \<noteq> CHR ''/'') ?t)"
    by (simp add: rest)
  also have "\<dots> \<le> length path"
    by (meson length_dropWhile_le order_trans)
  finally show ?thesis .
qed

text \<open>The part of a node the directory operations need: its weak parent and its children.\<close>

fun dir_parts :: "node \<Rightarrow> (inode option \<times> (string \<times> inode) list) option" where
  "dir_parts (RamDir p ch) = Some (p, ch)"
| "dir_parts (DevDir p ch) = Some (p, ch)"
| "dir_parts _ = None"

function lookup :: "vfs \<Rightarrow> inode \<Rightarrow> string \<Rightarrow> inode ax_result" where
  "lookup fs i path =
     (case Option.bind (nodes fs i) dir_parts of
        None \<Rightarrow> Inl NotADirectory
      | Some (parent, children) \<Rightarrow>
          (let (name, rest) = split_path path;
               found = (if name = [] \<or> name = ''.'' then Some i
                        else if name = ''..'' then upgrade fs parent
                        else map_of children name)
           in case found of
                None \<Rightarrow> Inl NotFound
              | Some j \<Rightarrow> (case rest of None \<Rightarrow> Inr j | Some r \<Rightarrow> lookup fs j r)))"
  by pat_completeness auto
termination
  by (relation "measure (\<lambda>(_, _, p). length p)") (auto dest: split_path_shorter split_path_shorter [OF sym])

declare lookup.simps [simp del]

datatype 'a ran = Done 'a | Deadlock | Panic

subsection \<open>Creating and removing nodes\<close>

definition set_children :: "inode \<Rightarrow> (string \<times> inode) list \<Rightarrow> vfs \<Rightarrow> vfs" where
  "set_children i ch fs =
     (case nodes fs i of
        Some (RamDir p _) \<Rightarrow> fs\<lparr>nodes := (nodes fs)(i \<mapsto> RamDir p ch)\<rparr>
      | Some (DevDir p _) \<Rightarrow> fs\<lparr>nodes := (nodes fs)(i \<mapsto> DevDir p ch)\<rparr>
      | _ \<Rightarrow> fs)"

definition new_node :: "node \<Rightarrow> vfs \<Rightarrow> inode \<times> vfs" where
  "new_node nd fs =
     (next_inode fs, fs\<lparr>nodes := (nodes fs)(next_inode fs \<mapsto> nd), next_inode := Suc (next_inode fs),
        alive := (alive fs)(next_inode fs := True)\<rparr>)"

definition node_for :: "inode \<Rightarrow> string \<Rightarrow> VfsNodeType \<Rightarrow> node option" where
  "node_for i name ty =
     (case ty of
        File \<Rightarrow> Some (if name = ''interrupts'' then Interrupts else RamFile [])
      | Dir \<Rightarrow> Some (RamDir (Some i) [])
      | _ \<Rightarrow> None)"

definition create_node ::
  "inode list \<Rightarrow> vfs \<Rightarrow> inode \<Rightarrow> (string \<times> inode) list \<Rightarrow> string \<Rightarrow> VfsNodeType \<Rightarrow> (unit ax_result \<times> vfs) ran" where
  "create_node held fs i children name ty =
     (if map_of children name \<noteq> None then Done (Inl AlreadyExists, fs)
      else (case node_for i name ty of
          None \<Rightarrow> Done (Inl Unsupported, fs)
        | Some nd \<Rightarrow>
            if i \<in> set held then Deadlock
            else (let (j, fs') = new_node nd fs
                  in Done (Inr (), set_children i (bt_insert name j children) fs'))))"

function create ::
  "inode list \<Rightarrow> vfs \<Rightarrow> inode \<Rightarrow> string \<Rightarrow> VfsNodeType \<Rightarrow> (unit ax_result \<times> vfs) ran" where
  "create held fs i path ty =
     (case Option.bind (nodes fs i) dir_parts of
        None \<Rightarrow> Done (Inl NotADirectory, fs)
      | Some (parent, children) \<Rightarrow>
          (case split_path path of
             (name, Some rest) \<Rightarrow>
               if name = [] \<or> name = ''.'' then create held fs i rest ty
               else if name = ''..'' then
                 (case upgrade fs parent of
                    None \<Rightarrow> Done (Inl NotFound, fs)
                  | Some j \<Rightarrow> create held fs j rest ty)
               else (case map_of children name of
                    None \<Rightarrow> Done (Inl NotFound, fs)
                  | Some j \<Rightarrow> create (i # held) fs j rest ty)
           | (name, None) \<Rightarrow>
               if name = [] \<or> name = ''.'' \<or> name = ''..'' then Done (Inr (), fs)
               else (case nodes fs i of
                    Some (RamDir _ _) \<Rightarrow> create_node held fs i children name ty
                  | _ \<Rightarrow> Done (Inl PermissionDenied, fs))))"
  by pat_completeness auto
termination
  by (relation "measure (\<lambda>(_, _, _, p, _). length p)") (auto dest: split_path_shorter split_path_shorter [OF sym])

declare create.simps [simp del]

definition remove_node ::
  "inode list \<Rightarrow> vfs \<Rightarrow> inode \<Rightarrow> (string \<times> inode) list \<Rightarrow> string \<Rightarrow> (unit ax_result \<times> vfs) ran" where
  "remove_node held fs i children name =
     (if i \<in> set held then Deadlock
      else (case map_of children name of
          None \<Rightarrow> Done (Inl NotFound, fs)
        | Some j \<Rightarrow>
            (case nodes fs j of
               Some (RamDir _ (_ # _)) \<Rightarrow> Done (Inl DirectoryNotEmpty, fs)
             | _ \<Rightarrow> Done (Inr (), set_children i (bt_remove name children) fs))))"

function remove :: "inode list \<Rightarrow> vfs \<Rightarrow> inode \<Rightarrow> string \<Rightarrow> (unit ax_result \<times> vfs) ran" where
  "remove held fs i path =
     (case Option.bind (nodes fs i) dir_parts of
        None \<Rightarrow> Done (Inl NotADirectory, fs)
      | Some (parent, children) \<Rightarrow>
          (case split_path path of
             (name, Some rest) \<Rightarrow>
               if name = [] \<or> name = ''.'' then remove held fs i rest
               else if name = ''..'' then
                 (case upgrade fs parent of
                    None \<Rightarrow> Done (Inl NotFound, fs)
                  | Some j \<Rightarrow> remove held fs j rest)
               else (case map_of children name of
                    None \<Rightarrow> Done (Inl NotFound, fs)
                  | Some j \<Rightarrow> remove (i # held) fs j rest)
           | (name, None) \<Rightarrow>
               (case nodes fs i of
                  Some (RamDir _ _) \<Rightarrow>
                    if name = [] \<or> name = ''.'' \<or> name = ''..'' then Done (Inl InvalidInput, fs)
                    else remove_node held fs i children name
                | _ \<Rightarrow> Done (Inl PermissionDenied, fs))))"
  by pat_completeness auto
termination
  by (relation "measure (\<lambda>(_, _, _, p). length p)") (auto dest: split_path_shorter split_path_shorter [OF sym])

declare remove.simps [simp del]

subsection \<open>Attributes, reading and writing\<close>

fun show_digits :: "nat \<Rightarrow> string" where
  "show_digits n =
     (if n < 10 then [char_of (48 + n)] else show_digits (n div 10) @ [char_of (48 + n mod 10)])"

declare show_digits.simps [simp del]

definition irq_record :: "nat \<Rightarrow> (nat \<times> nat) list \<Rightarrow> (nat \<times> nat) list" where
  "irq_record key m =
     bt_insert key (case map_of m key of None \<Rightarrow> 1 | Some cnt \<Rightarrow> uadd cnt 1) m"

definition irq_content :: "(nat \<times> nat) list \<Rightarrow> string" where
  "irq_content m =
     concat (map (\<lambda>(key, value). show_digits key @ '': '' @ show_digits value @ [CHR 0x0A]) m)"

definition irq_read_at :: "nat \<Rightarrow> nat \<Rightarrow> (nat \<times> nat) list \<Rightarrow> byte list ax_result" where
  "irq_read_at offset len m =
     (let bytes = utf8 (irq_content m)
      in if offset > length bytes then Inl InvalidInput
         else (let n = (if len < length bytes - offset then len else length bytes - offset)
               in Inr (take n (drop offset bytes))))"

definition get_attr :: "vfs \<Rightarrow> inode \<Rightarrow> VfsNodeAttr ax_result" where
  "get_attr fs i =
     (case nodes fs i of
        Some (RamDir _ _) \<Rightarrow> Inr (attr_new_dir 4096 0)
      | Some (RamFile c) \<Rightarrow> Inr (attr_new_file (length c) 0)
      | Some (DevDir _ _) \<Rightarrow> Inr (attr_new_dir 4096 0)
      | Some _ \<Rightarrow> Inr (attr_new default_file CharDevice 0 0)
      | None \<Rightarrow> Inl Unsupported)"

text \<open>The bytes a call stores in its buffer are returned; the outer option is a panic.\<close>

definition read_at :: "vfs \<Rightarrow> inode \<Rightarrow> nat \<Rightarrow> nat \<Rightarrow> byte list ax_result option" where
  "read_at fs i offset len =
     (case nodes fs i of
        Some (RamFile c) \<Rightarrow> map_option Inr (file_read_at offset len c)
      | Some Interrupts \<Rightarrow> Some (irq_read_at offset len (irq_count fs))
      | Some NullDev \<Rightarrow> Some (Inr [])
      | Some ZeroDev \<Rightarrow> Some (Inr (replicate len 0))
      | Some RandomDev \<Rightarrow> Some (Inr (random_fill fs len))
      | Some _ \<Rightarrow> Some (Inl IsADirectory)
      | None \<Rightarrow> Some (Inl InvalidInput))"

definition write_at :: "vfs \<Rightarrow> inode \<Rightarrow> nat \<Rightarrow> byte list \<Rightarrow> (nat ax_result \<times> vfs) option" where
  "write_at fs i offset buf =
     (case nodes fs i of
        Some (RamFile c) \<Rightarrow> do {
          (n, c') \<leftarrow> file_write_at offset buf c;
          Some (Inr n, fs\<lparr>nodes := (nodes fs)(i \<mapsto> RamFile c')\<rparr>)
        }
      | Some Interrupts \<Rightarrow> Some (Inl Io, fs)
      | Some NullDev \<Rightarrow> Some (Inr (length buf), fs)
      | Some ZeroDev \<Rightarrow> Some (Inr (length buf), fs)
      | Some RandomDev \<Rightarrow> Some (Inr (length buf), fs)
      | Some _ \<Rightarrow> Some (Inl IsADirectory, fs)
      | None \<Rightarrow> Some (Inl InvalidInput, fs))"

definition truncate :: "vfs \<Rightarrow> inode \<Rightarrow> nat \<Rightarrow> (unit ax_result \<times> vfs) option" where
  "truncate fs i sz =
     (case nodes fs i of
        Some (RamFile c) \<Rightarrow> do {
          c' \<leftarrow> file_truncate sz c;
          Some (Inr (), fs\<lparr>nodes := (nodes fs)(i \<mapsto> RamFile c')\<rparr>)
        }
      | Some Interrupts \<Rightarrow> Some (Inl Io, fs)
      | Some NullDev \<Rightarrow> Some (Inr (), fs)
      | Some ZeroDev \<Rightarrow> Some (Inr (), fs)
      | Some RandomDev \<Rightarrow> Some (Inr (), fs)
      | Some _ \<Rightarrow> Some (Inl IsADirectory, fs)
      | None \<Rightarrow> Some (Inl InvalidInput, fs))"

text \<open>The trait's default for files that do not override it.\<close>

definition fsync :: "vfs \<Rightarrow> inode \<Rightarrow> unit ax_result" where
  "fsync fs i =
     (case Option.bind (nodes fs i) dir_parts of None \<Rightarrow> Inl InvalidInput | Some _ \<Rightarrow> Inl IsADirectory)"

fun read_dir_loop ::
  "vfs \<Rightarrow> (string \<times> inode) list \<Rightarrow> nat \<Rightarrow> nat \<Rightarrow> VfsDirEntry list option" where
  "read_dir_loop fs children idx 0 = Some []"
| "read_dir_loop fs children idx (Suc n) =
     (if idx = 0 then do {
        e \<leftarrow> dir_entry_new ''.'' Dir; es \<leftarrow> read_dir_loop fs children (uadd idx 1) n; Some (e # es) }
      else if idx = 1 then do {
        e \<leftarrow> dir_entry_new ''..'' Dir; es \<leftarrow> read_dir_loop fs children (uadd idx 1) n; Some (e # es) }
      else (case children of
          [] \<Rightarrow> Some []
        | (name, j) # rest \<Rightarrow>
            (case get_attr fs j of
               Inl _ \<Rightarrow> None
             | Inr a \<Rightarrow> do {
                 e \<leftarrow> dir_entry_new name (attr_ty a);
                 es \<leftarrow> read_dir_loop fs rest (uadd idx 1) n;
                 Some (e # es) })))"

definition read_dir :: "vfs \<Rightarrow> inode \<Rightarrow> nat \<Rightarrow> nat \<Rightarrow> VfsDirEntry list ax_result option" where
  "read_dir fs i start_idx n =
     (case Option.bind (nodes fs i) dir_parts of
        None \<Rightarrow> Some (Inl NotADirectory)
      | Some (_, children) \<Rightarrow>
          map_option Inr (read_dir_loop fs (drop (max start_idx 2 - 2) children) start_idx n))"

text \<open>Building a device file system: \<open>mkdir\<close> and \<open>add\<close>; mounting sets the parent of the root.\<close>

definition dev_mkdir :: "inode \<Rightarrow> string \<Rightarrow> vfs \<Rightarrow> inode \<times> vfs" where
  "dev_mkdir i name fs =
     (let (j, fs') = new_node (DevDir (Some i) []) fs
      in case nodes fs i of
           Some (DevDir p ch) \<Rightarrow> (j, set_children i (bt_insert name j ch) fs')
         | _ \<Rightarrow> (j, fs'))"

definition dev_add :: "inode \<Rightarrow> string \<Rightarrow> inode \<Rightarrow> vfs \<Rightarrow> vfs" where
  "dev_add i name j fs =
     (case nodes fs i of
        Some (DevDir p ch) \<Rightarrow> set_children i (bt_insert name j ch) fs
      | _ \<Rightarrow> fs)"

definition set_parent :: "inode \<Rightarrow> inode option \<Rightarrow> vfs \<Rightarrow> vfs" where
  "set_parent i p fs =
     (case nodes fs i of
        Some (RamDir _ ch) \<Rightarrow> fs\<lparr>nodes := (nodes fs)(i \<mapsto> RamDir p ch)\<rparr>
      | Some (DevDir _ ch) \<Rightarrow> fs\<lparr>nodes := (nodes fs)(i \<mapsto> DevDir p ch)\<rparr>
      | _ \<Rightarrow> fs)"

text \<open>\<open>poll_mount\<close> keeps the first mount point's parent alive (\<open>call_once\<close>) and makes it the parent
  of the root; \<open>first\<close> is what an earlier mount stored.\<close>

definition fs_mount :: "inode \<Rightarrow> inode option \<Rightarrow> inode \<Rightarrow> vfs \<Rightarrow> inode option \<times> vfs" where
  "fs_mount root first mount_point fs =
     (case (case Option.bind (nodes fs mount_point) dir_parts of
              None \<Rightarrow> None | Some (p, _) \<Rightarrow> upgrade fs p) of
        None \<Rightarrow> (first, set_parent root None fs)
      | Some p \<Rightarrow> (let once = (case first of None \<Rightarrow> p | Some q \<Rightarrow> q)
                  in (Some once, set_parent root (Some once) fs)))"

subsection \<open>Well-formed stores\<close>

text \<open>Every directory maps proper names, in order and without repetition, to existing nodes, and
  new node numbers are unused.\<close>

definition dir_ok :: "vfs \<Rightarrow> (string \<times> inode) list \<Rightarrow> bool" where
  "dir_ok fs ch \<longleftrightarrow> bt_inv ch \<and> (\<forall>(n, j) \<in> set ch. proper_name n \<and> j \<in> dom (nodes fs))"

definition tree_ok :: "vfs \<Rightarrow> bool" where
  "tree_ok fs \<longleftrightarrow> (\<forall>i \<in> dom (nodes fs). i < next_inode fs) \<and>
     (\<forall>i nd p ch. nodes fs i = Some nd \<longrightarrow> dir_parts nd = Some (p, ch) \<longrightarrow> dir_ok fs ch)"

lemma split_path_name: "split_path path = (name, rest) \<Longrightarrow> CHR ''/'' \<notin> set name"
  by (auto simp: split_path_def Let_def split: if_splits dest: set_takeWhileD)

lemma split_path_single: "CHR ''/'' \<notin> set n \<Longrightarrow> split_path n = (n, None)"
proof -
  assume n: "CHR ''/'' \<notin> set n"
  then have "dropWhile (\<lambda>c. c = CHR ''/'') n = n"
    by (cases n) auto
  with n show ?thesis by (simp add: split_path_def)
qed

lemma split_path_cons:
  assumes "n \<noteq> []" "CHR ''/'' \<notin> set n"
  shows "split_path (n @ CHR ''/'' # rest) = (n, Some rest)"
proof -
  from assms have d: "dropWhile (\<lambda>c. c = CHR ''/'') (n @ CHR ''/'' # rest) = n @ CHR ''/'' # rest"
    by (cases n) auto
  have "takeWhile (\<lambda>c. c \<noteq> CHR ''/'') (n @ CHR ''/'' # rest) = n"
    "dropWhile (\<lambda>c. c \<noteq> CHR ''/'') (n @ CHR ''/'' # rest) = CHR ''/'' # rest"
    using assms by (simp_all add: takeWhile_append dropWhile_append)
  with d show ?thesis by (simp add: split_path_def)
qed

lemma tree_ok_dir: "tree_ok fs \<Longrightarrow> nodes fs i = Some nd \<Longrightarrow> dir_parts nd = Some (p, ch) \<Longrightarrow> dir_ok fs ch"
  unfolding tree_ok_def by blast

lemma tree_ok_fresh: "tree_ok fs \<Longrightarrow> nodes fs (next_inode fs) = None"
  by (auto simp: tree_ok_def)

lemma dir_ok_mono: "dir_ok fs ch \<Longrightarrow> dom (nodes fs) \<subseteq> dom (nodes fs') \<Longrightarrow> dir_ok fs' ch"
  unfolding dir_ok_def by blast

lemma dir_ok_insert:
  "dir_ok fs ch \<Longrightarrow> proper_name n \<Longrightarrow> j \<in> dom (nodes fs) \<Longrightarrow> map_of ch n = None \<Longrightarrow> dir_ok fs (bt_insert n j ch)"
  unfolding dir_ok_def by (auto simp: bt_inv_insert map_of_eq_None_iff set_bt_insert_fresh)

lemma dir_ok_remove: "dir_ok fs ch \<Longrightarrow> dir_ok fs (bt_remove n ch)"
  unfolding dir_ok_def by (auto simp: bt_inv_remove set_bt_remove)

text \<open>Replacing one node by a well-formed one keeps the store well formed.\<close>

lemma tree_ok_update:
  assumes "tree_ok fs" "i \<in> dom (nodes fs)"
    and "\<And>p ch. dir_parts nd = Some (p, ch) \<Longrightarrow> dir_ok fs ch"
  shows "tree_ok (fs\<lparr>nodes := (nodes fs)(i \<mapsto> nd)\<rparr>)"
proof -
  let ?fs = "fs\<lparr>nodes := (nodes fs)(i \<mapsto> nd)\<rparr>"
  have dom: "dom (nodes ?fs) = dom (nodes fs)"
    using assms(2) by auto
  then have same: "dir_ok ?fs ch = dir_ok fs ch" for ch
    by (simp add: dir_ok_def)
  have "dir_ok ?fs ch" if "nodes ?fs k = Some nk" "dir_parts nk = Some (p, ch)" for k nk p ch
    using that assms unfolding same by (cases "k = i") (auto simp: tree_ok_def)
  moreover have "\<forall>k \<in> dom (nodes ?fs). k < next_inode ?fs"
    using assms(1) unfolding dom by (simp add: tree_ok_def)
  ultimately show ?thesis
    unfolding tree_ok_def by blast
qed

lemma tree_ok_new:
  assumes "tree_ok fs" "\<And>p ch. dir_parts nd = Some (p, ch) \<Longrightarrow> ch = []" "new_node nd fs = (j, fs')"
  shows "tree_ok fs'"
proof -
  have fs': "j = next_inode fs" "nodes fs' = (nodes fs)(j \<mapsto> nd)" "next_inode fs' = Suc (next_inode fs)"
    using assms(3) by (auto simp: new_node_def)
  then have sub: "dom (nodes fs) \<subseteq> dom (nodes fs')"
    by auto
  have "dir_ok fs' ch" if "nodes fs' k = Some nk" "dir_parts nk = Some (p, ch)" for k nk p ch
  proof (cases "k = j")
    case True
    with that fs' assms(2) show ?thesis by (auto simp: dir_ok_def)
  next
    case False
    with that fs' have "dir_ok fs ch" by (intro tree_ok_dir [OF assms(1)]) auto
    with sub show ?thesis by (rule dir_ok_mono [rotated])
  qed
  moreover have "\<forall>k \<in> dom (nodes fs'). k < next_inode fs'"
    using assms(1) fs' by (auto simp: tree_ok_def less_Suc_eq)
  ultimately show ?thesis
    unfolding tree_ok_def by blast
qed

lemma set_children_node:
  assumes "nodes fs i = Some nd" "dir_parts nd = Some (p, ch0)"
  obtains nd' where "set_children i ch fs = fs\<lparr>nodes := (nodes fs)(i \<mapsto> nd')\<rparr>" "dir_parts nd' = Some (p, ch)"
    "\<And>q c. nd = RamDir q c \<Longrightarrow> nd' = RamDir q ch"
  using assms by (cases nd) (auto simp: set_children_def)

lemma tree_ok_set_children:
  assumes "tree_ok fs" "nodes fs i = Some nd" "dir_parts nd = Some (p, ch0)" "dir_ok fs ch"
  shows "tree_ok (set_children i ch fs)"
proof (rule set_children_node [OF assms(2,3), of ch])
  fix nd'
  assume "set_children i ch fs = fs\<lparr>nodes := (nodes fs)(i \<mapsto> nd')\<rparr>" "dir_parts nd' = Some (p, ch)"
  with assms show ?thesis
    by (auto intro!: tree_ok_update)
qed

lemma node_for_leaf: "node_for i n ty = Some nd \<Longrightarrow> dir_parts nd = Some (q, c) \<Longrightarrow> c = []"
  by (auto simp: node_for_def split: VfsNodeType.splits if_splits)

lemma create_node_ok:
  assumes ok: "tree_ok fs" and i: "nodes fs i = Some (RamDir p ch)" and n: "proper_name n"
    and r: "create_node held fs i ch n ty = Done (res, fs')"
  shows "tree_ok fs'"
proof (cases "fs' = fs")
  case True
  with ok show ?thesis by simp
next
  case False
  with r obtain nd j fs1 where new: "map_of ch n = None" "new_node nd fs = (j, fs1)"
    and leaf: "node_for i n ty = Some nd"
    and fs': "fs' = set_children i (bt_insert n j ch) fs1"
    by (auto simp: create_node_def Let_def split: if_splits option.splits prod.splits)
  have ok1: "tree_ok fs1"
    using ok node_for_leaf [OF leaf] new(2) by (rule tree_ok_new)
  have "i \<noteq> next_inode fs"
    using tree_ok_fresh [OF ok] i by auto
  then have i1: "nodes fs1 i = Some (RamDir p ch)" "j \<in> dom (nodes fs1)"
    using i new(2) by (auto simp: new_node_def)
  have "dir_ok fs1 ch"
    using ok1 i1 by (intro tree_ok_dir) auto
  then have "dir_ok fs1 (bt_insert n j ch)"
    using n i1(2) new(1) by (rule dir_ok_insert)
  then show ?thesis
    unfolding fs' by (intro tree_ok_set_children [OF ok1 i1(1)]) simp_all
qed

lemma remove_node_ok:
  assumes ok: "tree_ok fs" and i: "nodes fs i = Some (RamDir p ch)"
    and r: "remove_node held fs i ch n = Done (res, fs')"
  shows "tree_ok fs'"
proof (cases "fs' = fs")
  case True
  with ok show ?thesis by simp
next
  case False
  with r have "fs' = set_children i (bt_remove n ch) fs"
    by (auto simp: remove_node_def split: if_splits option.splits node.splits list.splits)
  moreover have "dir_ok fs ch"
    using ok i by (intro tree_ok_dir) auto
  ultimately show ?thesis
    using ok i by (auto intro!: tree_ok_set_children dir_ok_remove)
qed

lemma proper_final:
  "split_path path = (name, rest) \<Longrightarrow> name \<noteq> [] \<Longrightarrow> name \<noteq> ''.'' \<Longrightarrow> name \<noteq> ''..'' \<Longrightarrow> proper_name name"
  using split_path_name by (simp add: proper_name_def)

lemma create_ok: "create held fs i path ty = Done (res, fs') \<Longrightarrow> tree_ok fs \<Longrightarrow> tree_ok fs'"
proof (induction held fs i path ty arbitrary: res fs' rule: create.induct)
  case (1 held fs i path ty)
  show ?case
  proof (cases "Option.bind (nodes fs i) dir_parts")
    case None
    with 1(4,5) show ?thesis by (simp add: create.simps)
  next
    case (Some pc)
    then obtain p ch nd where pc: "pc = (p, ch)" "nodes fs i = Some nd" "dir_parts nd = Some (p, ch)"
      by (cases pc) (auto simp: bind_eq_Some_conv)
    obtain name rest where sp: "split_path path = (name, rest)"
      by (cases "split_path path")
    show ?thesis
    proof (cases rest)
      case None
      show ?thesis
      proof (cases "\<exists>q c. nd = RamDir q c")
        case True
        with pc have "nd = RamDir p ch" by auto
        with 1(4,5) Some pc sp None show ?thesis
          by (auto simp: create.simps [of held fs] intro: create_node_ok proper_final split: if_splits)
      next
        case False
        with 1(4,5) Some pc sp None show ?thesis
          by (cases nd) (auto simp: create.simps [of held fs] split: if_splits)
      qed
    next
      case (Some r)
      show ?thesis
        using 1(4,5) 1(1-3) \<open>Option.bind (nodes fs i) dir_parts = Some pc\<close> pc sp Some
        by (auto simp: create.simps [of held fs] split: if_splits option.splits)
    qed
  qed
qed

lemma remove_ok: "remove held fs i path = Done (res, fs') \<Longrightarrow> tree_ok fs \<Longrightarrow> tree_ok fs'"
proof (induction held fs i path arbitrary: res fs' rule: remove.induct)
  case (1 held fs i path)
  show ?case
  proof (cases "Option.bind (nodes fs i) dir_parts")
    case None
    with 1(4,5) show ?thesis by (simp add: remove.simps)
  next
    case (Some pc)
    then obtain p ch nd where pc: "pc = (p, ch)" "nodes fs i = Some nd" "dir_parts nd = Some (p, ch)"
      by (cases pc) (auto simp: bind_eq_Some_conv)
    obtain name rest where sp: "split_path path = (name, rest)"
      by (cases "split_path path")
    show ?thesis
    proof (cases rest)
      case None
      show ?thesis
      proof (cases "\<exists>q c. nd = RamDir q c")
        case True
        with pc have "nd = RamDir p ch" by auto
        with 1(4,5) Some pc sp None show ?thesis
          by (auto simp: remove.simps [of held fs] intro: remove_node_ok split: if_splits)
      next
        case False
        with 1(4,5) Some pc sp None show ?thesis
          by (cases nd) (auto simp: remove.simps [of held fs] split: if_splits)
      qed
    next
      case (Some r)
      show ?thesis
        using 1(4,5) 1(1-3) \<open>Option.bind (nodes fs i) dir_parts = Some pc\<close> pc sp Some
        by (auto simp: remove.simps [of held fs] split: if_splits option.splits)
    qed
  qed
qed

text \<open>Operations on a single name of a memory directory.\<close>

lemma lookup_name:
  assumes "nodes fs i = Some (RamDir p ch)" "proper_name n"
  shows "lookup fs i n = (case map_of ch n of None \<Rightarrow> Inl NotFound | Some j \<Rightarrow> Inr j)"
  using assms split_path_single [of n]
  by (subst lookup.simps) (auto simp: proper_name_def split: option.splits)

lemma create_name:
  assumes "nodes fs i = Some (RamDir p ch)" "proper_name n"
  shows "create held fs i n ty = create_node held fs i ch n ty"
  using assms split_path_single [of n]
  by (subst create.simps) (auto simp: proper_name_def)

lemma remove_name:
  assumes "nodes fs i = Some (RamDir p ch)" "proper_name n"
  shows "remove held fs i n = remove_node held fs i ch n"
  using assms split_path_single [of n]
  by (subst remove.simps) (auto simp: proper_name_def)

lemma create_fresh:
  assumes ok: "tree_ok fs" and i: "nodes fs i = Some (RamDir p ch)" and n: "map_of ch n = None"
    and nd: "node_for i n ty = Some nd" and held: "i \<notin> set held"
  defines "j \<equiv> next_inode fs"
  obtains fs' where "create_node held fs i ch n ty = Done (Inr (), fs')"
    "nodes fs' = (nodes fs)(j \<mapsto> nd, i \<mapsto> RamDir p (bt_insert n j ch))"
proof -
  have "i \<noteq> j"
    using tree_ok_fresh [OF ok] i by (auto simp: j_def)
  with i n nd held show ?thesis
    by (intro that [of "set_children i (bt_insert n j ch) (snd (new_node nd fs))"])
      (auto simp: create_node_def new_node_def set_children_def j_def Let_def)
qed

subsection \<open>File contents\<close>

lemma file_write_at_eq:
  assumes "offset + length buf < 2 ^ 63"
  shows "file_write_at offset buf c = Some (length buf,
    (if offset + length buf \<le> length c then take offset c @ buf @ drop (offset + length buf) c
     else take offset c @ replicate (offset - length c) 0 @ buf))"
proof -
  have e: "uadd offset (length buf) = offset + length buf"
    using assms by (intro uadd_eq) (simp add: usize_lim_def)
  show ?thesis
    using assms unfolding file_write_at_def e Let_def
    by (auto simp: vec_resize_def min_def)
qed

lemma file_read_at_eq:
  assumes "offset + len < 2 ^ 63"
  shows "file_read_at offset len c = Some (take len (drop offset c))"
proof -
  have e: "uadd offset len = offset + len"
    using assms by (intro uadd_eq) (simp add: usize_lim_def)
  have "min (length c) (offset + len) - min (length c) offset = min (length c - offset) len"
    by linarith
  moreover have "take (min (length c - offset) len) (drop (min (length c) offset) c) = take len (drop offset c)"
    by (cases "offset \<le> length c") (simp_all add: min_def)
  ultimately show ?thesis
    unfolding file_read_at_def e Let_def by simp
qed

subsection \<open>Properties\<close>

text \<open>An empty memory file system whose root is node 0.\<close>

definition ramfs_new :: vfs where
  "ramfs_new = \<lparr>nodes = [0 \<mapsto> RamDir None []], next_inode = 1, alive = (\<lambda>i. i = 0), irq_count = [],
     random_fill = (\<lambda>n. replicate n 0)\<rparr>"

lemma ramfs_new_ok: "tree_ok ramfs_new"
  by (auto simp: tree_ok_def ramfs_new_def dir_ok_def split: if_splits)

text \<open>
  C8: creating and removing nodes keeps the directory tree well formed. For any path, including
  ones with \<open>.\<close>, \<open>..\<close> and repeated slashes, and whether they succeed or fail, \<open>create\<close> and \<open>remove\<close>
  leave a store in which every directory has ordered, distinct, proper names that lead to
  existing nodes.
\<close>

theorem create_remove_keep_tree:
  assumes "tree_ok fs"
  shows "(create held fs i path ty = Done (r, fs') \<longrightarrow> tree_ok fs') \<and>
    (remove held fs i path = Done (r, fs') \<longrightarrow> tree_ok fs')"
  using assms create_ok remove_ok by blast

theorem create_remove_keep_tree_witness:
  "\<exists>fs'. create [] ramfs_new 0 ''./a'' Dir = Done (Inr (), fs') \<and> tree_ok fs'"
proof -
  have root: "nodes ramfs_new 0 = Some (RamDir None [])"
    by (simp add: ramfs_new_def)
  have "split_path ''./a'' = (''.'', Some ''a'')"
    by (simp add: split_path_def)
  then have "create [] ramfs_new 0 ''./a'' Dir = create [] ramfs_new 0 ''a'' Dir"
    using root by (subst create.simps) simp
  also have "\<dots> = create_node [] ramfs_new 0 [] ''a'' Dir"
    using root by (intro create_name) (simp_all add: proper_name_def)
  finally obtain fs' where "create [] ramfs_new 0 ''./a'' Dir = Done (Inr (), fs')"
    by (auto simp: create_node_def node_for_def new_node_def)
  with create_remove_keep_tree [OF ramfs_new_ok, of "[]" 0 "''./a''" Dir "Inr ()" fs' ] show ?thesis
    by blast
qed



text \<open>
  A directory with entries is never removed: the call reports \<open>DirectoryNotEmpty\<close> and
  changes nothing, so no subtree can be cut off by \<open>remove\<close>.
\<close>

lemma remove_nonempty_refused:
  assumes "nodes fs i = Some (RamDir p ch)" "proper_name n" "map_of ch n = Some j"
    and "nodes fs j = Some (RamDir q (c # cs))"
  shows "remove [] fs i n = Done (Inl DirectoryNotEmpty, fs)"
  using assms by (simp add: remove_name remove_node_def)

lemma remove_nonempty_refused_witness:
  "let fs = ramfs_new\<lparr>nodes := [0 \<mapsto> RamDir None [(''d'', 1)], 1 \<mapsto> RamDir (Some 0) [(''f'', 2)], 2 \<mapsto> RamFile []]\<rparr>
   in remove [] fs 0 ''d'' = Done (Inl DirectoryNotEmpty, fs)"
proof -
  let ?fs = "ramfs_new\<lparr>nodes := [0 \<mapsto> RamDir None [(''d'', 1)], 1 \<mapsto> RamDir (Some 0) [(''f'', 2)], 2 \<mapsto> RamFile []]\<rparr>"
  have "remove [] ?fs 0 ''d'' = Done (Inl DirectoryNotEmpty, ?fs)"
    by (rule remove_nonempty_refused [where p = None and ch = "[(''d'', 1)]" and j = 1 and q = "Some 0" and
        c = "(''f'', 2)" and cs = "[]"]) (simp_all add: proper_name_def)
  then show ?thesis by (simp add: Let_def)
qed

text \<open>
  Creating a node through a subdirectory and back deadlocks. For a path \<open>d/../n\<close>, where
  \<open>d\<close> is a subdirectory of the memory directory and \<open>n\<close> a fresh name, the call still holds the
  read lock of the directory when it asks for its write lock, and spins forever.
\<close>

lemma create_dotdot_deadlocks:
  assumes "nodes fs i = Some (RamDir p ch)" "proper_name d" "map_of ch d = Some j"
    and "nodes fs j = Some (RamDir (Some i) dch)" "alive fs i"
    and "proper_name n" "map_of ch n = None" "node_for i n ty \<noteq> None"
  shows "create [] fs i (d @ ''/../'' @ n) ty = Deadlock"
proof -
  have "split_path (d @ ''/../'' @ n) = (d, Some (''../'' @ n))"
    using assms(2) split_path_cons [of d "''../'' @ n"] by (simp add: proper_name_def)
  then have "create [] fs i (d @ ''/../'' @ n) ty = create [i] fs j (''../'' @ n) ty"
    using assms(1-3) by (subst create.simps) (auto simp: proper_name_def)
  also have "split_path (''../'' @ n) = (''..'', Some n)"
    using split_path_cons [of "''..''" n] by simp
  then have "create [i] fs j (''../'' @ n) ty = create [i] fs i n ty"
    using assms(4,5) by (subst create.simps) (auto simp: upgrade_def)
  also have "\<dots> = Deadlock"
    using assms(1,6-8) by (auto simp: create_name create_node_def)
  finally show ?thesis .
qed

lemma create_dotdot_deadlocks_witness:
  "create [] (ramfs_new\<lparr>nodes := [0 \<mapsto> RamDir None [(''d'', 1)], 1 \<mapsto> RamDir (Some 0) []]\<rparr>) 0 ''d/../f'' File = Deadlock"
  using create_dotdot_deadlocks [of "ramfs_new\<lparr>nodes := [0 \<mapsto> RamDir None [(''d'', 1)], 1 \<mapsto> RamDir (Some 0) []]\<rparr>"
      0 None "[(''d'', 1)]" "''d''" 1 "[]" "''f''" File]
  by (simp add: proper_name_def node_for_def ramfs_new_def)

text \<open>
  C10: what is written to a memory file is read back. A write below the largest length returns
  the number of bytes given; reading that range returns them; reading any other range returns
  the old bytes, with zeros in a gap between the old end and the write.
\<close>

theorem file_write_read:
  assumes "offset + length buf < 2 ^ 63"
  shows "\<exists>c'. file_write_at offset buf c = Some (length buf, c') \<and>
    file_read_at offset (length buf) c' = Some buf \<and>
    length c' = max (length c) (offset + length buf) \<and>
    (\<forall>k < length c'. k < offset \<or> offset + length buf \<le> k \<longrightarrow> c' ! k = (if k < length c then c ! k else 0))"
proof -
  define c' where "c' = (if offset + length buf \<le> length c then take offset c @ buf @ drop (offset + length buf) c
     else take offset c @ replicate (offset - length c) 0 @ buf)"
  have w: "file_write_at offset buf c = Some (length buf, c')"
    unfolding c'_def by (rule file_write_at_eq [OF assms])
  have "take (length buf) (drop offset c') = buf"
  proof (cases "offset + length buf \<le> length c")
    case True
    then show ?thesis by (simp add: c'_def)
  next
    case False
    have "length (take offset c @ replicate (offset - length c) 0) = offset"
      by simp
    moreover have "c' = (take offset c @ replicate (offset - length c) 0) @ buf"
      using False by (simp add: c'_def)
    ultimately show ?thesis
      by (metis append_eq_conv_conj append_take_drop_id order_refl take_all_iff)
  qed
  moreover have "length c' = max (length c) (offset + length buf)"
    unfolding c'_def by simp linarith
  moreover have "c' ! k = (if k < length c then c ! k else 0)"
    if "k < length c'" "k < offset \<or> offset + length buf \<le> k" for k
    using that by (auto simp: c'_def nth_append min_def)
  ultimately show ?thesis
    using w by (intro exI [of _ c']) (simp add: file_read_at_eq [OF assms])
qed

theorem file_write_read_witness:
  "\<exists>c'. file_write_at 2 [7, 8] [1] = Some (2, c') \<and> file_read_at 2 2 c' = Some [7, 8]"
proof -
  have "2 + length [7 :: byte, 8] < 2 ^ 63" and len: "length [7 :: byte, 8] = 2"
    by simp_all
  from file_write_read [OF this(1), of "[1]"] show ?thesis
    unfolding len by blast
qed

text \<open>
  Reading a memory file near the largest offset panics. When the offset plus the buffer
  length wraps around and ends inside the file, the range of the slice is reversed.
\<close>

lemma file_read_wrap_panics:
  assumes "usize_lim \<le> offset + len" "offset + len - usize_lim < length c" "length c \<le> offset" "len < usize_lim" "offset < usize_lim"
  shows "file_read_at offset len c = None"
proof -
  have "uadd offset len = offset + len - usize_lim"
    using assms by (simp add: uadd_def mod_if)
  with assms show ?thesis
    by (simp add: file_read_at_def Let_def)
qed

lemma file_read_wrap_panics_witness: "file_read_at (2 ^ 64 - 1) 8 (replicate 10 0) = None"
  by (rule file_read_wrap_panics) (simp_all add: usize_lim_def)

end
