(* ===== verification/Root_Fs.thy ===== *)
theory Root_Fs
  imports Vfs_Nodes
begin

section \<open>The root directory and its mounts (async_fs/src/root.rs)\<close>

text \<open>
  The root directory dispatches a path to the mounted file system with the longest matching
  mount path. The state is the node store, the root nodes of the main file system and of the
  mounted ones, and the current directory. A directory reference is the root directory itself or
  a node; only the former knows the mounts. The main file system is taken from the modelled
  ones. Operations return the new state; \<open>Panic\<close> and \<open>Deadlock\<close> are results of their own.
\<close>

subsection \<open>Dispatch\<close>

record RootDirectory =
  main_fs :: inode
  mounts :: "(string \<times> inode) list"

datatype dir_ref = RootDir | NodeDir inode

record fs_state =
  store :: vfs
  root_dir :: RootDirectory
  current_dir :: dir_ref
  current_path :: string

definition trim_matches :: "char \<Rightarrow> string \<Rightarrow> string" where
  "trim_matches c s = rev (dropWhile (\<lambda>x. x = c) (rev (dropWhile (\<lambda>x. x = c) s)))"

definition starts_with :: "string \<Rightarrow> string \<Rightarrow> bool" where
  "starts_with p s \<longleftrightarrow> take (length p) s = p"

definition ends_with_slash :: "string \<Rightarrow> bool" where
  "ends_with_slash s \<longleftrightarrow> s \<noteq> [] \<and> last s = CHR ''/''"

text \<open>The mount loop: \<open>idx\<close> is kept as the root of the file system found so far.\<close>

fun best_mount :: "(string \<times> inode) list \<Rightarrow> string \<Rightarrow> nat \<Rightarrow> inode option \<Rightarrow> nat \<times> inode option" where
  "best_mount [] path max_len idx = (max_len, idx)"
| "best_mount ((mp, r) # ms) path max_len idx =
     (let prev = tl mp @ ''/''
      in if starts_with (tl mp) path
            \<and> (length path = length prev - 1 \<or> starts_with prev path)
            \<and> length prev > max_len
         then best_mount ms path (length mp - 1) (Some r)
         else best_mount ms path max_len idx)"

lemma length_trim: "length (trim_matches c s) \<le> length s"
proof -
  have "length (trim_matches c s) \<le> length (dropWhile (\<lambda>x. x = c) s)"
    unfolding trim_matches_def by (metis length_dropWhile_le length_rev)
  also have "\<dots> \<le> length s"
    by (rule length_dropWhile_le)
  finally show ?thesis .
qed

function lookup_mounted_fs :: "RootDirectory \<Rightarrow> string \<Rightarrow> inode \<times> string" where
  "lookup_mounted_fs rt path =
     (let p = trim_matches (CHR ''/'') path
      in if starts_with ''./'' p then lookup_mounted_fs rt (drop 2 p)
         else (let (max_len, idx) = best_mount (mounts rt) p 0 None
               in if max_len = 0 then (main_fs rt, p)
                  else (case idx of None \<Rightarrow> (main_fs rt, p) | Some r \<Rightarrow> (r, drop max_len p))))"
  by pat_completeness auto
termination
proof (relation "measure (\<lambda>(_, p). length p)", simp)
  fix rt :: RootDirectory and path p
  assume "p = trim_matches (CHR ''/'') path" "starts_with ''./'' p"
  then have "2 \<le> length p" "length p \<le> length path"
    by (auto simp: starts_with_def length_trim dest: arg_cong [where f = length])
  then show "((rt, drop 2 p), (rt, path)) \<in> measure (\<lambda>(_, p). length p)"
    by simp
qed

declare lookup_mounted_fs.simps [simp del]

definition root_lookup :: "RootDirectory \<Rightarrow> vfs \<Rightarrow> string \<Rightarrow> inode ax_result" where
  "root_lookup rt fs path = (let (r, rest) = lookup_mounted_fs rt path in lookup fs r rest)"

definition root_create :: "RootDirectory \<Rightarrow> vfs \<Rightarrow> string \<Rightarrow> VfsNodeType \<Rightarrow> (unit ax_result \<times> vfs) ran" where
  "root_create rt fs path ty =
     (let (r, rest) = lookup_mounted_fs rt path
      in if rest = [] then Done (Inr (), fs) else create [] fs r rest ty)"

definition root_remove :: "RootDirectory \<Rightarrow> vfs \<Rightarrow> string \<Rightarrow> (unit ax_result \<times> vfs) ran" where
  "root_remove rt fs path =
     (let (r, rest) = lookup_mounted_fs rt path
      in if rest = [] then Done (Inl PermissionDenied, fs) else remove [] fs r rest)"

text \<open>Neither the memory nor the device file system overrides \<open>poll_rename\<close>; the trait's default
  is \<open>Unsupported\<close>.\<close>

definition root_rename :: "RootDirectory \<Rightarrow> vfs \<Rightarrow> string \<Rightarrow> string \<Rightarrow> unit ax_result" where
  "root_rename rt fs src dst =
     (let (r, rest) = lookup_mounted_fs rt src
      in if rest = [] then Inl PermissionDenied else Inl Unsupported)"

definition contains_mount :: "RootDirectory \<Rightarrow> string \<Rightarrow> bool" where
  "contains_mount rt path \<longleftrightarrow> list_ex (\<lambda>(mp, _). mp = path) (mounts rt)"

definition umount :: "string \<Rightarrow> RootDirectory \<Rightarrow> RootDirectory" where
  "umount path rt = rt\<lparr>mounts := filter (\<lambda>(mp, _). mp \<noteq> path) (mounts rt)\<rparr>"

definition mount :: "string \<Rightarrow> inode \<Rightarrow> RootDirectory \<Rightarrow> vfs \<Rightarrow> (unit ax_result \<times> RootDirectory \<times> vfs) ran" where
  "mount path r rt fs =
     (if path = ''/'' then Done (Inl InvalidInput, rt, fs)
      else if \<not> starts_with_slash path then Done (Inl InvalidInput, rt, fs)
      else if contains_mount rt path then Done (Inl InvalidInput, rt, fs)
      else (case create [] fs (main_fs rt) path Dir of
          Deadlock \<Rightarrow> Deadlock
        | Panic \<Rightarrow> Panic
        | Done (Inl e, fs') \<Rightarrow> Done (Inl e, rt, fs')
        | Done (Inr _, fs') \<Rightarrow>
            (case lookup fs' (main_fs rt) path of
               Inl e \<Rightarrow> Done (Inl e, rt, fs')
             | Inr mp \<Rightarrow> Done (Inr (), rt\<lparr>mounts := mounts rt @ [(path, r)]\<rparr>, snd (fs_mount r None mp fs')))))"

subsection \<open>The operations of the module\<close>

definition parent_node_of :: "fs_state \<Rightarrow> dir_ref option \<Rightarrow> string \<Rightarrow> dir_ref" where
  "parent_node_of s dir path =
     (if starts_with_slash path then RootDir
      else (case dir of None \<Rightarrow> current_dir s | Some d \<Rightarrow> d))"

definition ref_lookup :: "fs_state \<Rightarrow> dir_ref \<Rightarrow> string \<Rightarrow> inode ax_result" where
  "ref_lookup s d path =
     (case d of RootDir \<Rightarrow> root_lookup (root_dir s) (store s) path | NodeDir i \<Rightarrow> lookup (store s) i path)"

definition ref_create :: "fs_state \<Rightarrow> dir_ref \<Rightarrow> string \<Rightarrow> VfsNodeType \<Rightarrow> (unit ax_result \<times> vfs) ran" where
  "ref_create s d path ty =
     (case d of RootDir \<Rightarrow> root_create (root_dir s) (store s) path ty
      | NodeDir i \<Rightarrow> create [] (store s) i path ty)"

definition ref_remove :: "fs_state \<Rightarrow> dir_ref \<Rightarrow> string \<Rightarrow> (unit ax_result \<times> vfs) ran" where
  "ref_remove s d path =
     (case d of RootDir \<Rightarrow> root_remove (root_dir s) (store s) path
      | NodeDir i \<Rightarrow> remove [] (store s) i path)"

definition absolute_path :: "fs_state \<Rightarrow> string \<Rightarrow> string option" where
  "absolute_path s path =
     (if starts_with_slash path then canonicalize path else canonicalize (current_path s @ path))"

definition fs_lookup :: "fs_state \<Rightarrow> dir_ref option \<Rightarrow> string \<Rightarrow> inode ax_result" where
  "fs_lookup s dir path =
     (if path = [] then Inl NotFound
      else (case ref_lookup s (parent_node_of s dir path) path of
          Inl e \<Rightarrow> Inl e
        | Inr i \<Rightarrow>
            if ends_with_slash path then
              (case get_attr (store s) i of
                 Inl e \<Rightarrow> Inl e
               | Inr a \<Rightarrow> if attr_ty a \<noteq> Dir then Inl NotADirectory else Inr i)
            else Inr i))"

definition with_store :: "('a ax_result \<times> vfs) ran \<Rightarrow> fs_state \<Rightarrow> ('a ax_result \<times> fs_state) ran" where
  "with_store r s =
     (case r of Done (x, fs) \<Rightarrow> Done (x, s\<lparr>store := fs\<rparr>) | Deadlock \<Rightarrow> Deadlock | Panic \<Rightarrow> Panic)"

definition create_file :: "fs_state \<Rightarrow> dir_ref option \<Rightarrow> string \<Rightarrow> (inode ax_result \<times> fs_state) ran" where
  "create_file s dir path =
     (if path = [] then Done (Inl NotFound, s)
      else if ends_with_slash path then Done (Inl NotADirectory, s)
      else (let parent = parent_node_of s dir path
            in case with_store (ref_create s parent path File) s of
                 Deadlock \<Rightarrow> Deadlock
               | Panic \<Rightarrow> Panic
               | Done (Inl e, s') \<Rightarrow> Done (Inl e, s')
               | Done (Inr _, s') \<Rightarrow> Done (ref_lookup s' parent path, s')))"

definition create_dir :: "fs_state \<Rightarrow> dir_ref option \<Rightarrow> string \<Rightarrow> (unit ax_result \<times> fs_state) ran" where
  "create_dir s dir path =
     (case fs_lookup s dir path of
        Inr _ \<Rightarrow> Done (Inl AlreadyExists, s)
      | Inl NotFound \<Rightarrow> with_store (ref_create s (parent_node_of s dir path) path Dir) s
      | Inl e \<Rightarrow> Done (Inl e, s))"

definition remove_file :: "fs_state \<Rightarrow> dir_ref option \<Rightarrow> string \<Rightarrow> (unit ax_result \<times> fs_state) ran" where
  "remove_file s dir path =
     (case fs_lookup s dir path of
        Inl e \<Rightarrow> Done (Inl e, s)
      | Inr i \<Rightarrow>
          (case get_attr (store s) i of
             Inl e \<Rightarrow> Done (Inl e, s)
           | Inr a \<Rightarrow>
               if attr_ty a = Dir then Done (Inl IsADirectory, s)
               else if \<not> owner_writable (attr_mode a) then Done (Inl PermissionDenied, s)
               else with_store (ref_remove s (parent_node_of s dir path) path) s))"

definition ends_with :: "string \<Rightarrow> string \<Rightarrow> bool" where
  "ends_with suf s \<longleftrightarrow> starts_with (rev suf) (rev s)"

definition remove_dir :: "fs_state \<Rightarrow> dir_ref option \<Rightarrow> string \<Rightarrow> (unit ax_result \<times> fs_state) ran" where
  "remove_dir s dir path =
     (if path = [] then Done (Inl NotFound, s)
      else (let path_check = trim_matches (CHR ''/'') path in
        if path_check = [] then Done (Inl DirectoryNotEmpty, s)
        else if path_check = ''.'' \<or> path_check = ''..'' \<or> ends_with ''/.'' path_check \<or> ends_with ''/..'' path_check
        then Done (Inl InvalidInput, s)
        else (case absolute_path s path of
            None \<Rightarrow> Panic
          | Some ap \<Rightarrow>
              if contains_mount (root_dir s) ap then Done (Inl PermissionDenied, s)
              else (case fs_lookup s dir path of
                  Inl e \<Rightarrow> Done (Inl e, s)
                | Inr i \<Rightarrow>
                    (case get_attr (store s) i of
                       Inl e \<Rightarrow> Done (Inl e, s)
                     | Inr a \<Rightarrow>
                         if attr_ty a \<noteq> Dir then Done (Inl NotADirectory, s)
                         else if \<not> owner_writable (attr_mode a) then Done (Inl PermissionDenied, s)
                         else with_store (ref_remove s (parent_node_of s dir path) path) s)))))"

definition set_current_dir :: "fs_state \<Rightarrow> string \<Rightarrow> (unit ax_result \<times> fs_state) ran" where
  "set_current_dir s path =
     (case absolute_path s path of
        None \<Rightarrow> Panic
      | Some ap \<Rightarrow>
          (let abs_path = (if ends_with_slash ap then ap else ap @ ''/'')
           in if abs_path = ''/'' then
                Done (Inr (), s\<lparr>current_dir := RootDir, current_path := ''/''\<rparr>)
              else (case fs_lookup s None abs_path of
                  Inl e \<Rightarrow> Done (Inl e, s)
                | Inr i \<Rightarrow>
                    (case get_attr (store s) i of
                       Inl e \<Rightarrow> Done (Inl e, s)
                     | Inr a \<Rightarrow>
                         if attr_ty a \<noteq> Dir then Done (Inl NotADirectory, s)
                         else if \<not> owner_executable (attr_mode a) then Done (Inl PermissionDenied, s)
                         else Done (Inr (), s\<lparr>current_dir := NodeDir i, current_path := abs_path\<rparr>)))))"

definition ref_rename :: "fs_state \<Rightarrow> dir_ref \<Rightarrow> string \<Rightarrow> string \<Rightarrow> unit ax_result" where
  "ref_rename s d old new =
     (case d of RootDir \<Rightarrow> root_rename (root_dir s) (store s) old new | NodeDir i \<Rightarrow> Inl Unsupported)"

definition rename :: "fs_state \<Rightarrow> string \<Rightarrow> string \<Rightarrow> (unit ax_result \<times> fs_state) ran" where
  "rename s old new =
     (case (case ref_lookup s (parent_node_of s None new) new of
              Inl _ \<Rightarrow> Done (Inr (), s)
            | Inr _ \<Rightarrow> remove_file s None new) of
        Deadlock \<Rightarrow> Deadlock
      | Panic \<Rightarrow> Panic
      | Done (Inl e, s') \<Rightarrow> Done (Inl e, s')
      | Done (Inr _, s') \<Rightarrow> Done (ref_rename s' (parent_node_of s' None old) old new, s'))"

subsection \<open>Longest match\<close>

text \<open>A mount path (with its leading slash) matches a trimmed path when the path is the mount
  point or lies below it.\<close>

definition mount_matches :: "string \<Rightarrow> string \<Rightarrow> bool" where
  "mount_matches mp path \<longleftrightarrow> path = tl mp \<or> starts_with (tl mp @ ''/'') path"

lemma starts_with_iff: "starts_with p s \<longleftrightarrow> (\<exists>t. s = p @ t)"
proof
  assume "starts_with p s"
  then have "s = p @ drop (length p) s"
    unfolding starts_with_def using append_take_drop_id [of "length p" s] by simp
  then show "\<exists>t. s = p @ t" by blast
qed (auto simp: starts_with_def)

lemma mount_condition:
  assumes "mp \<noteq> []"
  shows "starts_with (tl mp) path \<and> (length path = length (tl mp @ ''/'') - 1 \<or> starts_with (tl mp @ ''/'') path)
    \<longleftrightarrow> mount_matches mp path"
  unfolding mount_matches_def starts_with_iff by auto

lemma mount_matches_split: "mount_matches mp path \<Longrightarrow> path = tl mp @ drop (length mp - 1) path"
  unfolding mount_matches_def starts_with_iff by auto

text \<open>Mount paths are absolute and not the root itself, as \<open>mount\<close> requires.\<close>

definition mounts_ok :: "(string \<times> inode) list \<Rightarrow> bool" where
  "mounts_ok ms \<longleftrightarrow> list_all (\<lambda>(mp, r). starts_with_slash mp \<and> 1 < length mp) ms \<and> distinct (map fst ms)"

lemma mounts_okD: "mounts_ok ms \<Longrightarrow> (mp, r) \<in> set ms \<Longrightarrow> 1 < length mp"
  by (auto simp: mounts_ok_def list_all_iff)

lemma best_mount_Cons:
  assumes "1 < length mp"
  shows "best_mount ((mp, r) # ms) path n idx =
    (if mount_matches mp path \<and> n < length mp then best_mount ms path (length mp - 1) (Some r)
     else best_mount ms path n idx)"
proof -
  have "mp \<noteq> []" "length (tl mp @ ''/'') = length mp"
    using assms by auto
  with mount_condition [of mp path] show ?thesis
    by (auto simp: Let_def)
qed

declare best_mount.simps(2) [simp del]

lemma best_mount_upper:
  assumes "\<forall>x \<in> set ms. 1 < length (fst x)"
  shows "n \<le> fst (best_mount ms path n idx) \<and>
    (\<forall>(mp, r) \<in> set ms. mount_matches mp path \<longrightarrow> length mp - 1 \<le> fst (best_mount ms path n idx))"
  using assms
proof (induction ms arbitrary: n idx)
  case (Cons m ms)
  obtain mp r where m: "m = (mp, r)" by (cases m)
  with Cons.prems have len: "1 < length mp" by auto
  from Cons.prems have IH: "n' \<le> fst (best_mount ms path n' idx') \<and>
    (\<forall>(mp, r) \<in> set ms. mount_matches mp path \<longrightarrow> length mp - 1 \<le> fst (best_mount ms path n' idx'))" for n' idx'
    by (intro Cons.IH) auto
  show ?case
    using IH [of "length mp - 1" "Some r"] IH [of n idx]
    by (auto simp: m best_mount_Cons [OF len])
qed simp

lemma best_mount_found:
  assumes "\<forall>x \<in> set ms. 1 < length (fst x)"
  shows "best_mount ms path n idx = (n, idx) \<or>
    (\<exists>(mp, r) \<in> set ms. mount_matches mp path \<and> best_mount ms path n idx = (length mp - 1, Some r))"
  using assms
proof (induction ms arbitrary: n idx)
  case (Cons m ms)
  obtain mp r where m: "m = (mp, r)" by (cases m)
  with Cons.prems have len: "1 < length mp" by auto
  from Cons.prems have IH: "best_mount ms path n' idx' = (n', idx') \<or>
    (\<exists>(mp, r) \<in> set ms. mount_matches mp path \<and> best_mount ms path n' idx' = (length mp - 1, Some r))" for n' idx'
    by (intro Cons.IH) auto
  show ?case
    using IH [of "length mp - 1" "Some r"] IH [of n idx]
    by (auto simp: m best_mount_Cons [OF len])
qed simp

text \<open>Mounting keeps the table well formed, whatever the file systems hold.\<close>

lemma mount_keeps_mounts_ok:
  assumes "mounts_ok (mounts rt)" "mount path r rt fs = Done (res, rt', fs')"
  shows "mounts_ok (mounts rt')"
proof (cases "res")
  case (Inl e)
  with assms show ?thesis
    by (auto simp: mount_def split: if_splits ran.splits sum.splits prod.splits)
next
  case (Inr u)
  with assms(2) have p: "path \<noteq> ''/''" "starts_with_slash path" "\<not> contains_mount rt path"
    and rt': "rt' = rt\<lparr>mounts := mounts rt @ [(path, r)]\<rparr>"
    by (auto simp: mount_def split: if_splits ran.splits sum.splits prod.splits)
  from p have "1 < length path"
    by (cases path; cases "tl path") (auto simp: starts_with_slash_def)
  with p assms(1) show ?thesis
    unfolding rt' by (auto simp: mounts_ok_def contains_mount_def list_ex_iff list_all_iff)
qed

text \<open>C9: the root directory hands a path to the mounted file system with the longest mount path
  that is the path or one of its ancestors, with exactly the rest of the path; without such a
  mount, the whole path goes to the main file system.\<close>

theorem longest_mount_wins:
  assumes ok: "mounts_ok (mounts rt)" and p: "p = trim_matches (CHR ''/'') path" "\<not> starts_with ''./'' p"
  shows "case lookup_mounted_fs rt path of (r, rest) \<Rightarrow>
    (r = main_fs rt \<and> rest = p \<and> (\<forall>(mp, q) \<in> set (mounts rt). \<not> mount_matches mp p)) \<or>
    (\<exists>mp. (mp, r) \<in> set (mounts rt) \<and> mount_matches mp p \<and> p = tl mp @ rest \<and>
       (\<forall>(mq, q) \<in> set (mounts rt). mount_matches mq p \<longrightarrow> length mq \<le> length mp))"
proof -
  from ok have len: "\<forall>x \<in> set (mounts rt). 1 < length (fst x)"
    using mounts_okD by force
  let ?b = "best_mount (mounts rt) p 0 None"
  have unf: "lookup_mounted_fs rt path = (let (max_len, idx) = ?b
      in if max_len = 0 then (main_fs rt, p)
         else (case idx of None \<Rightarrow> (main_fs rt, p) | Some r \<Rightarrow> (r, drop max_len p)))"
    using p(2) unfolding p(1) by (subst lookup_mounted_fs.simps) (simp add: Let_def)
  from best_mount_found [OF len, of p 0 None] consider
      "?b = (0, None)"
    | mp r where "(mp, r) \<in> set (mounts rt)" "mount_matches mp p" "?b = (length mp - 1, Some r)"
    by auto
  then show ?thesis
  proof cases
    case 1
    have "\<not> mount_matches mp p" if "(mp, q) \<in> set (mounts rt)" for mp q
      using best_mount_upper [OF len, of 0 p None] that len 1 by fastforce
    then show ?thesis unfolding unf 1 by auto
  next
    case (2 mp r)
    have "length mq \<le> length mp" if "(mq, q) \<in> set (mounts rt)" "mount_matches mq p" for mq q
      using best_mount_upper [OF len, of 0 p None] that len 2 by fastforce
    moreover have "lookup_mounted_fs rt path = (r, drop (length mp - 1) p)"
      unfolding unf 2 using len 2 by force
    ultimately show ?thesis
      using 2 mount_matches_split by auto
  qed
qed

theorem longest_mount_wins_witness:
  "\<exists>mp. (mp, 2 :: inode) \<in> set [(''/dev'', 1), (''/dev/shm'', 2)] \<and> mount_matches mp ''dev/shm/x'' \<and> ''dev/shm/x'' = tl mp @ ''/x''"
proof -
  define rt where "rt = \<lparr>main_fs = 0, mounts = [(''/dev'', 1), (''/dev/shm'', 2)]\<rparr>"
  have "trim_matches (CHR ''/'') ''/dev/shm/x'' = ''dev/shm/x''" "\<not> starts_with ''./'' ''dev/shm/x''"
    "mounts_ok (mounts rt)"
    by (simp_all add: rt_def trim_matches_def starts_with_def mounts_ok_def starts_with_slash_def)
  moreover have "lookup_mounted_fs rt ''/dev/shm/x'' = (2, ''/x'')"
    by (subst lookup_mounted_fs.simps)
      (simp add: rt_def trim_matches_def starts_with_def best_mount.simps Let_def)
  ultimately show ?thesis
    using longest_mount_wins [of rt "''dev/shm/x''" "''/dev/shm/x''"] by (auto simp: rt_def)
qed

subsection \<open>Rename\<close>

text \<open>Renaming never succeeds on the memory and device file systems, but it destroys an
  existing target first: when the target exists and can be removed as a file, the call returns an
  error and leaves the state in which the target has been removed.\<close>

lemma rename_destroys_target:
  assumes "ref_lookup s (parent_node_of s None new) new = Inr i"
    and "remove_file s None new = Done (Inr (), s')"
  shows "\<exists>e. rename s old new = Done (Inl e, s') \<and> (e = Unsupported \<or> e = PermissionDenied)"
proof -
  have "\<exists>e. ref_rename s' d old new = Inl e \<and> (e = Unsupported \<or> e = PermissionDenied)" for d
    by (cases d) (auto simp: ref_rename_def root_rename_def split: prod.splits)
  with assms show ?thesis
    by (simp add: rename_def)
qed

text \<open>The witness has a memory file system mounted at \<open>/tmp\<close>, as the kernel does, with a file
  \<open>b\<close> in it.\<close>

definition tmp_state :: fs_state where
  "tmp_state = \<lparr>store = ramfs_new\<lparr>nodes := [0 \<mapsto> RamDir None [], 1 \<mapsto> RamDir None [(''b'', 2)], 2 \<mapsto> RamFile [1]]\<rparr>,
     root_dir = \<lparr>main_fs = 0, mounts = [(''/tmp'', 1)]\<rparr>, current_dir = RootDir, current_path = ''/''\<rparr>"

lemma tmp_dispatch: "lookup_mounted_fs (root_dir tmp_state) ''/tmp/b'' = (1, ''/b'')"
  by (subst lookup_mounted_fs.simps)
    (simp add: tmp_state_def trim_matches_def starts_with_def best_mount.simps Let_def)

lemma tmp_nodes: "nodes (store tmp_state) 1 = Some (RamDir None [(''b'', 2)])"
  "nodes (store tmp_state) 2 = Some (RamFile [1])" and tmp_split: "split_path ''/b'' = (''b'', None)"
  by (simp_all add: tmp_state_def split_path_def)

lemma tmp_lookup: "lookup (store tmp_state) 1 ''/b'' = Inr 2"
  by (subst lookup.simps) (simp only: tmp_split tmp_nodes, simp)

lemma tmp_remove: "remove [] (store tmp_state) 1 ''/b'' = Done (Inr (), set_children 1 [] (store tmp_state))"
  by (subst remove.simps) (simp only: tmp_split tmp_nodes, simp add: remove_node_def tmp_nodes bt_remove_def del: One_nat_def)

lemma rename_destroys_target_witness:
  "\<exists>s' e. rename tmp_state ''/tmp/a'' ''/tmp/b'' = Done (Inl e, s') \<and>
     nodes (store s') 1 = Some (RamDir None [])"
proof -
  have l: "ref_lookup tmp_state (parent_node_of tmp_state None ''/tmp/b'') ''/tmp/b'' = Inr 2"
    by (simp add: ref_lookup_def parent_node_of_def starts_with_slash_def root_lookup_def tmp_dispatch tmp_lookup del: One_nat_def)
  have "\<exists>s'. remove_file tmp_state None ''/tmp/b'' = Done (Inr (), s') \<and> nodes (store s') 1 = Some (RamDir None [])"
    using l by (simp add: remove_file_def fs_lookup_def ends_with_slash_def ref_remove_def parent_node_of_def
        starts_with_slash_def root_remove_def tmp_dispatch with_store_def get_attr_def tmp_nodes tmp_remove
        attr_new_file_def attr_new_def has_perm_def owner_writable_def set_children_def default_file_def del: One_nat_def)
  then obtain s' where "remove_file tmp_state None ''/tmp/b'' = Done (Inr (), s')"
    "nodes (store s') 1 = Some (RamDir None [])" by blast
  with rename_destroys_target [OF l] show ?thesis by blast
qed

end
