(* ===== verification/File_Ops.thy ===== *)
theory File_Ops
  imports Root_Fs
begin

section \<open>Open files and directories (async_fs/src/fops.rs, async_fs/src/api)\<close>

text \<open>
  An open file is a node with the capabilities it was opened with, an append flag and a cursor; an
  open directory is a node with a position. The \<open>capability\<close> crate is a parameter: \<open>acc have need\<close>
  is the result of \<open>WithCap::access\<close> for a node held with the capabilities \<open>have\<close>; what is relied
  on is \<open>cap_access\<close>. \<open>None\<close> is a panic; opening and releasing a node do nothing in the modelled
  file systems.
\<close>

subsection \<open>Capabilities and options\<close>

datatype Cap = READ | WRITE | EXECUTE

type_synonym access = "Cap set \<Rightarrow> Cap set \<Rightarrow> unit ax_result"

definition cap_access :: "access \<Rightarrow> bool" where
  "cap_access acc \<longleftrightarrow> (\<forall>have need. acc have need = (if need \<subseteq> have then Inr () else Inl PermissionDenied))"

record OpenOptions =
  opt_read :: bool
  opt_write :: bool
  opt_append :: bool
  opt_truncate :: bool
  opt_create :: bool
  opt_create_new :: bool
  custom_flags :: int
  opt_mode :: nat

definition opts_new :: OpenOptions where
  "opts_new = \<lparr>opt_read = False, opt_write = False, opt_append = False, opt_truncate = False,
     opt_create = False, opt_create_new = False, custom_flags = 0, opt_mode = 438\<rparr>"

definition is_valid :: "OpenOptions \<Rightarrow> bool" where
  "is_valid o1 =
     (if \<not> opt_read o1 \<and> \<not> opt_write o1 \<and> \<not> opt_append o1 then False
      else (case (opt_write o1, opt_append o1) of
          (True, False) \<Rightarrow> True
        | (False, False) \<Rightarrow> \<not> (opt_truncate o1 \<or> opt_create o1 \<or> opt_create_new o1)
        | (_, True) \<Rightarrow> \<not> (opt_truncate o1 \<and> \<not> opt_create_new o1)))"

definition cap_of_opts :: "OpenOptions \<Rightarrow> Cap set" where
  "cap_of_opts o1 = (if opt_read o1 then {READ} else {}) \<union> (if opt_write o1 \<or> opt_append o1 then {WRITE} else {})"

definition perm_to_cap :: "VfsNodePerm \<Rightarrow> Cap set" where
  "perm_to_cap p =
     (if owner_readable p then {READ} else {}) \<union> (if owner_writable p then {WRITE} else {})
     \<union> (if owner_executable p then {EXECUTE} else {})"

subsection \<open>Files\<close>

record File =
  fnode :: inode
  fcap :: "Cap set"
  is_append :: bool
  offset :: nat

text \<open>The trait implementation: reading hands errors on, writing unwraps the errors of the node.\<close>

definition poll_read :: "access \<Rightarrow> vfs \<Rightarrow> File \<Rightarrow> nat \<Rightarrow> (byte list ax_result \<times> File) option" where
  "poll_read acc fs f len =
     (case acc (fcap f) {READ} of
        Inl e \<Rightarrow> Some (Inl e, f)
      | Inr _ \<Rightarrow>
          (case read_at fs (fnode f) (offset f) len of
             None \<Rightarrow> None
           | Some (Inl e) \<Rightarrow> Some (Inl e, f)
           | Some (Inr bs) \<Rightarrow> Some (Inr bs, f\<lparr>offset := uadd (offset f) (length bs)\<rparr>)))"

definition poll_write :: "access \<Rightarrow> vfs \<Rightarrow> File \<Rightarrow> byte list \<Rightarrow> (nat ax_result \<times> File \<times> vfs) option" where
  "poll_write acc fs f buf =
     (case acc (fcap f) {WRITE} of
        Inl e \<Rightarrow> Some (Inl e, f, fs)
      | Inr _ \<Rightarrow> do {
          f1 \<leftarrow> (if is_append f then
                   (case get_attr fs (fnode f) of
                      Inl _ \<Rightarrow> None
                    | Inr a \<Rightarrow> Some (f\<lparr>offset := attr_size a\<rparr>))
                 else Some f);
          (r, fs') \<leftarrow> write_at fs (fnode f) (offset f1) buf;
          (case r of
             Inl _ \<Rightarrow> None
           | Inr n \<Rightarrow> Some (Inr n, f1\<lparr>offset := uadd (offset f1) n\<rparr>, fs'))
        })"

definition poll_flush :: "access \<Rightarrow> vfs \<Rightarrow> File \<Rightarrow> unit ax_result" where
  "poll_flush acc fs f = (case acc (fcap f) {WRITE} of Inl e \<Rightarrow> Inl e | Inr _ \<Rightarrow> fsync fs (fnode f))"

definition poll_close :: "access \<Rightarrow> vfs \<Rightarrow> File \<Rightarrow> unit ax_result" where
  "poll_close acc fs f = poll_flush acc fs f"

definition seek_target :: "nat \<Rightarrow> nat \<Rightarrow> SeekFrom \<Rightarrow> nat option" where
  "seek_target off sz pos =
     (case pos of
        Start p \<Rightarrow> Some p
      | Current d \<Rightarrow> checked_add_signed off d
      | End d \<Rightarrow> checked_add_signed sz d)"

definition poll_seek :: "access \<Rightarrow> vfs \<Rightarrow> File \<Rightarrow> SeekFrom \<Rightarrow> (nat ax_result \<times> File) option" where
  "poll_seek acc fs f pos =
     (case acc (fcap f) {} of
        Inl e \<Rightarrow> Some (Inl e, f)
      | Inr _ \<Rightarrow>
          (case get_attr fs (fnode f) of
             Inl _ \<Rightarrow> None
           | Inr a \<Rightarrow>
               (case seek_target (offset f) (attr_size a) pos of
                  None \<Rightarrow> Some (Inl InvalidInput, f)
                | Some p \<Rightarrow> Some (Inr p, f\<lparr>offset := p\<rparr>))))"

text \<open>The methods of the type itself hand every error on.\<close>

definition file_get_attr :: "access \<Rightarrow> vfs \<Rightarrow> File \<Rightarrow> VfsNodeAttr ax_result" where
  "file_get_attr acc fs f = (case acc (fcap f) {} of Inl e \<Rightarrow> Inl e | Inr _ \<Rightarrow> get_attr fs (fnode f))"

definition file_truncate_to :: "access \<Rightarrow> vfs \<Rightarrow> File \<Rightarrow> nat \<Rightarrow> (unit ax_result \<times> vfs) option" where
  "file_truncate_to acc fs f sz =
     (case acc (fcap f) {WRITE} of Inl e \<Rightarrow> Some (Inl e, fs) | Inr _ \<Rightarrow> Vfs_Nodes.truncate fs (fnode f) sz)"

definition file_read :: "access \<Rightarrow> vfs \<Rightarrow> File \<Rightarrow> nat \<Rightarrow> (byte list ax_result \<times> File) option" where
  "file_read acc fs f len =
     (case acc (fcap f) {READ} of
        Inl e \<Rightarrow> Some (Inl e, f)
      | Inr _ \<Rightarrow>
          (case read_at fs (fnode f) (offset f) len of
             None \<Rightarrow> None
           | Some (Inl e) \<Rightarrow> Some (Inl e, f)
           | Some (Inr bs) \<Rightarrow> Some (Inr bs, f\<lparr>offset := uadd (offset f) (length bs)\<rparr>)))"

definition file_read_from :: "access \<Rightarrow> vfs \<Rightarrow> File \<Rightarrow> nat \<Rightarrow> nat \<Rightarrow> byte list ax_result option" where
  "file_read_from acc fs f off len =
     (case acc (fcap f) {READ} of Inl e \<Rightarrow> Some (Inl e) | Inr _ \<Rightarrow> read_at fs (fnode f) off len)"

definition file_write :: "access \<Rightarrow> vfs \<Rightarrow> File \<Rightarrow> byte list \<Rightarrow> (nat ax_result \<times> File \<times> vfs) option" where
  "file_write acc fs f buf =
     (case acc (fcap f) {WRITE} of
        Inl e \<Rightarrow> Some (Inl e, f, fs)
      | Inr _ \<Rightarrow>
          (case (if is_append f
                 then (case file_get_attr acc fs f of Inl e \<Rightarrow> Inl e | Inr a \<Rightarrow> Inr (f\<lparr>offset := attr_size a\<rparr>))
                 else Inr f) of
             Inl e \<Rightarrow> Some (Inl e, f, fs)
           | Inr f1 \<Rightarrow>
               (case write_at fs (fnode f) (offset f1) buf of
                  None \<Rightarrow> None
                | Some (Inl e, fs') \<Rightarrow> Some (Inl e, f1, fs')
                | Some (Inr n, fs') \<Rightarrow> Some (Inr n, f1\<lparr>offset := uadd (offset f1) n\<rparr>, fs'))))"

definition file_write_to :: "access \<Rightarrow> vfs \<Rightarrow> File \<Rightarrow> nat \<Rightarrow> byte list \<Rightarrow> (nat ax_result \<times> vfs) option" where
  "file_write_to acc fs f off buf =
     (case acc (fcap f) {WRITE} of Inl e \<Rightarrow> Some (Inl e, fs) | Inr _ \<Rightarrow> write_at fs (fnode f) off buf)"

definition file_flush :: "access \<Rightarrow> vfs \<Rightarrow> File \<Rightarrow> unit ax_result" where
  "file_flush acc fs f = (case acc (fcap f) {WRITE} of Inl e \<Rightarrow> Inl e | Inr _ \<Rightarrow> fsync fs (fnode f))"

definition file_seek :: "access \<Rightarrow> vfs \<Rightarrow> File \<Rightarrow> SeekFrom \<Rightarrow> nat ax_result \<times> File" where
  "file_seek acc fs f pos =
     (case file_get_attr acc fs f of
        Inl e \<Rightarrow> (Inl e, f)
      | Inr a \<Rightarrow>
          (case seek_target (offset f) (attr_size a) pos of
             None \<Rightarrow> (Inl InvalidInput, f)
           | Some p \<Rightarrow> (Inr p, f\<lparr>offset := p\<rparr>)))"

definition can_access :: "access \<Rightarrow> Cap set \<Rightarrow> Cap set \<Rightarrow> bool" where
  "can_access acc have need = (acc have need = Inr ())"

definition file_readable :: "access \<Rightarrow> File \<Rightarrow> bool" where
  "file_readable acc f = can_access acc (fcap f) {READ}"

definition file_writable :: "access \<Rightarrow> File \<Rightarrow> bool" where
  "file_writable acc f = can_access acc (fcap f) {WRITE}"

definition file_executable :: "access \<Rightarrow> File \<Rightarrow> bool" where
  "file_executable acc f = can_access acc (fcap f) {EXECUTE}"

subsection \<open>Opening files\<close>

definition open_at ::
  "access \<Rightarrow> fs_state \<Rightarrow> dir_ref option \<Rightarrow> string \<Rightarrow> OpenOptions \<Rightarrow> (File ax_result \<times> fs_state) ran" where
  "open_at acc s dir path opts =
     (if \<not> is_valid opts then Done (Inl InvalidInput, s)
      else (case (let node_option = fs_lookup s dir path
              in if opt_create opts \<or> opt_create_new opts then
                   (case node_option of
                      Inr i \<Rightarrow> if opt_create_new opts then Done (Inl AlreadyExists, s) else Done (Inr i, s)
                    | Inl NotFound \<Rightarrow> create_file s dir path
                    | Inl e \<Rightarrow> Done (Inl e, s))
                 else Done (node_option, s)) of
          Deadlock \<Rightarrow> Deadlock
        | Panic \<Rightarrow> Panic
        | Done (Inl e, s1) \<Rightarrow> Done (Inl e, s1)
        | Done (Inr i, s1) \<Rightarrow>
            (case get_attr (store s1) i of
               Inl e \<Rightarrow> Done (Inl e, s1)
             | Inr a \<Rightarrow>
                 if attr_ty a = Dir \<and> (opt_create opts \<or> opt_create_new opts \<or> opt_write opts
                      \<or> opt_append opts \<or> opt_truncate opts)
                 then Done (Inl IsADirectory, s1)
                 else if \<not> cap_of_opts opts \<subseteq> perm_to_cap (attr_mode a) then Done (Inl PermissionDenied, s1)
                 else (let f = \<lparr>fnode = i, fcap = cap_of_opts opts, is_append = opt_append opts, offset = 0\<rparr>
                   in if opt_truncate opts then
                        (case Vfs_Nodes.truncate (store s1) i 0 of
                           None \<Rightarrow> Panic
                         | Some (Inl e, fs') \<Rightarrow> Done (Inl e, s1\<lparr>store := fs'\<rparr>)
                         | Some (Inr _, fs') \<Rightarrow> Done (Inr f, s1\<lparr>store := fs'\<rparr>))
                      else Done (Inr f, s1)))))"

definition open_withperm :: "access \<Rightarrow> fs_state \<Rightarrow> string \<Rightarrow> OpenOptions \<Rightarrow> (File ax_result \<times> fs_state) ran" where
  "open_withperm acc s path opts = open_at acc s None path opts"

text \<open>The constructors of \<open>api::File\<close>.\<close>

definition api_open :: "access \<Rightarrow> fs_state \<Rightarrow> string \<Rightarrow> (File ax_result \<times> fs_state) ran" where
  "api_open acc s path = open_withperm acc s path (opts_new\<lparr>opt_read := True\<rparr>)"

definition api_create :: "access \<Rightarrow> fs_state \<Rightarrow> string \<Rightarrow> (File ax_result \<times> fs_state) ran" where
  "api_create acc s path =
     open_withperm acc s path (opts_new\<lparr>opt_write := True, opt_create := True, opt_truncate := True\<rparr>)"

definition api_create_new :: "access \<Rightarrow> fs_state \<Rightarrow> string \<Rightarrow> (File ax_result \<times> fs_state) ran" where
  "api_create_new acc s path =
     open_withperm acc s path (opts_new\<lparr>opt_read := True, opt_write := True, opt_create_new := True\<rparr>)"

definition api_set_len :: "access \<Rightarrow> vfs \<Rightarrow> File \<Rightarrow> nat \<Rightarrow> (unit ax_result \<times> vfs) option" where
  "api_set_len acc fs f sz = file_truncate_to acc fs f sz"

subsection \<open>Directories\<close>

record Directory =
  dnode :: inode
  dcap :: "Cap set"
  entry_idx :: nat

definition open_dir_in :: "fs_state \<Rightarrow> dir_ref option \<Rightarrow> string \<Rightarrow> OpenOptions \<Rightarrow> Directory ax_result" where
  "open_dir_in s dir path opts =
     (if \<not> opt_read opts then Inl InvalidInput
      else if opt_create opts \<or> opt_create_new opts \<or> opt_write opts \<or> opt_append opts \<or> opt_truncate opts
      then Inl InvalidInput
      else (case fs_lookup s dir path of
          Inl e \<Rightarrow> Inl e
        | Inr i \<Rightarrow>
            (case get_attr (store s) i of
               Inl e \<Rightarrow> Inl e
             | Inr a \<Rightarrow>
                 if attr_ty a \<noteq> Dir then Inl NotADirectory
                 else if \<not> cap_of_opts opts \<subseteq> perm_to_cap (attr_mode a) then Inl PermissionDenied
                 else Inr \<lparr>dnode = i, dcap = cap_of_opts opts, entry_idx = 0\<rparr>)))"

definition access_at :: "access \<Rightarrow> Directory \<Rightarrow> string \<Rightarrow> dir_ref option ax_result" where
  "access_at acc d path =
     (if starts_with_slash path then Inr None
      else (case acc (dcap d) {EXECUTE} of Inl e \<Rightarrow> Inl e | Inr _ \<Rightarrow> Inr (Some (NodeDir (dnode d)))))"

definition dir_open_dir :: "fs_state \<Rightarrow> string \<Rightarrow> OpenOptions \<Rightarrow> Directory ax_result" where
  "dir_open_dir s path opts = open_dir_in s None path opts"

definition dir_open_dir_at :: "access \<Rightarrow> fs_state \<Rightarrow> Directory \<Rightarrow> string \<Rightarrow> OpenOptions \<Rightarrow> Directory ax_result" where
  "dir_open_dir_at acc s d path opts =
     (case access_at acc d path of Inl e \<Rightarrow> Inl e | Inr dir \<Rightarrow> open_dir_in s dir path opts)"

definition dir_open_file_at ::
  "access \<Rightarrow> fs_state \<Rightarrow> Directory \<Rightarrow> string \<Rightarrow> OpenOptions \<Rightarrow> (File ax_result \<times> fs_state) ran" where
  "dir_open_file_at acc s d path opts =
     (case access_at acc d path of Inl e \<Rightarrow> Done (Inl e, s) | Inr dir \<Rightarrow> open_at acc s dir path opts)"

definition dir_create_file :: "access \<Rightarrow> fs_state \<Rightarrow> Directory \<Rightarrow> string \<Rightarrow> (inode ax_result \<times> fs_state) ran" where
  "dir_create_file acc s d path =
     (case access_at acc d path of Inl e \<Rightarrow> Done (Inl e, s) | Inr dir \<Rightarrow> create_file s dir path)"

definition dir_create_dir :: "access \<Rightarrow> fs_state \<Rightarrow> Directory \<Rightarrow> string \<Rightarrow> (unit ax_result \<times> fs_state) ran" where
  "dir_create_dir acc s d path =
     (case access_at acc d path of Inl e \<Rightarrow> Done (Inl e, s) | Inr dir \<Rightarrow> create_dir s dir path)"

definition dir_remove_file :: "access \<Rightarrow> fs_state \<Rightarrow> Directory \<Rightarrow> string \<Rightarrow> (unit ax_result \<times> fs_state) ran" where
  "dir_remove_file acc s d path =
     (case access_at acc d path of Inl e \<Rightarrow> Done (Inl e, s) | Inr dir \<Rightarrow> remove_file s dir path)"

definition dir_remove_dir :: "access \<Rightarrow> fs_state \<Rightarrow> Directory \<Rightarrow> string \<Rightarrow> (unit ax_result \<times> fs_state) ran" where
  "dir_remove_dir acc s d path =
     (case access_at acc d path of Inl e \<Rightarrow> Done (Inl e, s) | Inr dir \<Rightarrow> remove_dir s dir path)"

definition dir_read_dir :: "access \<Rightarrow> vfs \<Rightarrow> Directory \<Rightarrow> nat \<Rightarrow> (VfsDirEntry list ax_result \<times> Directory) option" where
  "dir_read_dir acc fs d n =
     (case acc (dcap d) {READ} of
        Inl e \<Rightarrow> Some (Inl e, d)
      | Inr _ \<Rightarrow>
          (case read_dir fs (dnode d) (entry_idx d) n of
             None \<Rightarrow> None
           | Some (Inl e) \<Rightarrow> Some (Inl e, d)
           | Some (Inr es) \<Rightarrow> Some (Inr es, d\<lparr>entry_idx := uadd (entry_idx d) (length es)\<rparr>)))"

definition dir_rename :: "fs_state \<Rightarrow> Directory \<Rightarrow> string \<Rightarrow> string \<Rightarrow> (unit ax_result \<times> fs_state) ran" where
  "dir_rename s d old new = rename s old new"

subsection \<open>Reads and writes at a position (api/port.rs)\<close>

text \<open>\<open>read_full\<close> reads until the buffer is full or a read returns nothing. A read that returns more
  bytes than the buffer holds would make the slice panic.\<close>

function read_full :: "access \<Rightarrow> vfs \<Rightarrow> File \<Rightarrow> nat \<Rightarrow> (byte list ax_result \<times> File) option" where
  "read_full acc fs f len =
     (if len = 0 then Some (Inr [], f)
      else (case poll_read acc fs f len of
          None \<Rightarrow> None
        | Some (Inl e, f') \<Rightarrow> Some (Inl e, f')
        | Some (Inr bs, f') \<Rightarrow>
            if bs = [] then Some (Inr [], f')
            else if length bs > len then None
            else (case read_full acc fs f' (len - length bs) of
                None \<Rightarrow> None
              | Some (Inl e, f'') \<Rightarrow> Some (Inl e, f'')
              | Some (Inr rest, f'') \<Rightarrow> Some (Inr (bs @ rest), f''))))"
  by pat_completeness auto
termination
  by (relation "measure (\<lambda>(_, _, _, len). len)") auto

declare read_full.simps [simp del]

definition seek_ok :: "access \<Rightarrow> vfs \<Rightarrow> File \<Rightarrow> SeekFrom \<Rightarrow> (nat \<times> File) option" where
  "seek_ok acc fs f pos =
     (case poll_seek acc fs f pos of Some (Inr p, f') \<Rightarrow> Some (p, f') | _ \<Rightarrow> None)"

definition read_from_seek :: "access \<Rightarrow> vfs \<Rightarrow> File \<Rightarrow> SeekFrom \<Rightarrow> nat \<Rightarrow> (byte list ax_result \<times> File) option" where
  "read_from_seek acc fs f pos len = do {
     (old_pos, f1) \<leftarrow> seek_ok acc fs f (Current 0);
     (_, f2) \<leftarrow> seek_ok acc fs f1 pos;
     (r, f3) \<leftarrow> read_full acc fs f2 len;
     (case r of
        Inl e \<Rightarrow> Some (Inl e, f3)
      | Inr bs \<Rightarrow> do {
          (new_pos, f4) \<leftarrow> seek_ok acc fs f3 (Start old_pos);
          if old_pos = new_pos then Some (Inr bs, f4) else None
        })
   }"

definition write_to_seek :: "access \<Rightarrow> vfs \<Rightarrow> File \<Rightarrow> SeekFrom \<Rightarrow> byte list \<Rightarrow> (nat ax_result \<times> File \<times> vfs) option" where
  "write_to_seek acc fs f pos buf = do {
     (old_pos, f1) \<leftarrow> seek_ok acc fs f (Current 0);
     (_, f2) \<leftarrow> seek_ok acc fs f1 pos;
     (write_len, f3, fs') \<leftarrow> poll_write acc fs f2 buf;
     (_, f4) \<leftarrow> seek_ok acc fs' f3 (Start old_pos);
     Some (write_len, f4, fs')
   }"

subsection \<open>Positioned input and output\<close>

text \<open>What a cursor relies on: a store whose bytes can be overwritten and read at a position, as
  long as the position stays below \<open>room\<close>. Writing past the end fills the gap with zeros.\<close>

definition overwrite :: "nat \<Rightarrow> byte list \<Rightarrow> byte list \<Rightarrow> byte list" where
  "overwrite off b c = take off c @ replicate (off - length c) 0 @ b @ drop (off + length b) c"

lemma overwrite_overwrite: "overwrite (off + length a) b (overwrite off a c) = overwrite off (a @ b) c"
proof -
  have l: "off - length c + min (length c) off = off"
    by simp
  show ?thesis
    unfolding overwrite_def by (simp add: algebra_simps l)
qed

lemma overwrite_read: "take (length b) (drop off (overwrite off b c)) = b"
proof -
  have "length (take off c @ replicate (off - length c) 0) = off"
    by simp
  then have "drop off (overwrite off b c) = b @ drop (off + length b) c"
    unfolding overwrite_def by (metis append.assoc append_eq_conv_conj)
  then show ?thesis by simp
qed

fun wr_all :: "('s \<Rightarrow> nat \<Rightarrow> byte list \<Rightarrow> (nat \<times> 's) option) \<Rightarrow> 's \<Rightarrow> nat \<Rightarrow> byte list list \<Rightarrow> 's option" where
  "wr_all wr s off [] = Some s"
| "wr_all wr s off (b # bs) =
     (case wr s off b of None \<Rightarrow> None | Some (n, s') \<Rightarrow> wr_all wr s' (off + n) bs)"

locale positional_io =
  fixes rd :: "'s \<Rightarrow> nat \<Rightarrow> nat \<Rightarrow> byte list option"
    and wr :: "'s \<Rightarrow> nat \<Rightarrow> byte list \<Rightarrow> (nat \<times> 's) option"
    and cont :: "'s \<Rightarrow> byte list"
    and valid :: "'s \<Rightarrow> bool"
    and room :: nat
  assumes wr_ok: "valid s \<Longrightarrow> off + length b < room \<Longrightarrow>
      \<exists>s'. wr s off b = Some (length b, s') \<and> valid s' \<and> cont s' = overwrite off b (cont s)"
    and rd_ok: "valid s \<Longrightarrow> off + n < room \<Longrightarrow> rd s off n = Some (take n (drop off (cont s)))"
begin

lemma wr_all_concat:
  assumes "bufs \<noteq> []" "valid s" "off + length (concat bufs) < room"
  shows "\<exists>s'. wr_all wr s off bufs = Some s' \<and> valid s' \<and> cont s' = overwrite off (concat bufs) (cont s)"
  using assms
proof (induction bufs arbitrary: s off rule: list_nonempty_induct)
  case (single b)
  with wr_ok [of s off b] show ?case by auto
next
  case (cons b bs)
  then obtain s1 where s1: "wr s off b = Some (length b, s1)" "valid s1" "cont s1 = overwrite off b (cont s)"
    using wr_ok [of s off b] by auto
  have "off + length b + length (concat bs) < room"
    using cons.prems by simp
  from cons.IH [OF s1(2) this] show ?case
    by (auto simp: s1 overwrite_overwrite)
qed

lemma wr_all_read:
  assumes "valid s" "off + length (concat bufs) < room"
  shows "\<exists>s'. wr_all wr s off bufs = Some s' \<and> valid s' \<and> rd s' off (length (concat bufs)) = Some (concat bufs)"
proof (cases "bufs = []")
  case True
  with assms rd_ok [of s off 0] show ?thesis by simp
next
  case False
  from wr_all_concat [OF this assms] assms show ?thesis
    by (auto simp: rd_ok overwrite_read)
qed

end

text \<open>A file of the memory file system provides it.\<close>

definition ram_cont :: "inode \<Rightarrow> vfs \<Rightarrow> byte list" where
  "ram_cont i fs = (case nodes fs i of Some (RamFile c) \<Rightarrow> c | _ \<Rightarrow> [])"

definition is_ram_file :: "inode \<Rightarrow> vfs \<Rightarrow> bool" where
  "is_ram_file i fs = (case nodes fs i of Some (RamFile c) \<Rightarrow> True | _ \<Rightarrow> False)"

definition ram_rd :: "inode \<Rightarrow> vfs \<Rightarrow> nat \<Rightarrow> nat \<Rightarrow> byte list option" where
  "ram_rd i fs off n = (case read_at fs i off n of Some (Inr bs) \<Rightarrow> Some bs | _ \<Rightarrow> None)"

definition ram_wr :: "inode \<Rightarrow> vfs \<Rightarrow> nat \<Rightarrow> byte list \<Rightarrow> (nat \<times> vfs) option" where
  "ram_wr i fs off b = (case write_at fs i off b of Some (Inr n, fs') \<Rightarrow> Some (n, fs') | _ \<Rightarrow> None)"

lemma is_ram_fileD: "is_ram_file i fs \<Longrightarrow> nodes fs i = Some (RamFile (ram_cont i fs))"
  by (auto simp: is_ram_file_def ram_cont_def split: option.splits node.splits)

lemma ram_file_upd [simp]:
  "is_ram_file i (fs\<lparr>nodes := (nodes fs)(i \<mapsto> RamFile c)\<rparr>)"
  "ram_cont i (fs\<lparr>nodes := (nodes fs)(i \<mapsto> RamFile c)\<rparr>) = c"
  by (simp_all add: is_ram_file_def ram_cont_def)

interpretation ram: positional_io "ram_rd i" "ram_wr i" "ram_cont i" "is_ram_file i" "2 ^ 63" for i
proof
  fix fs off and b :: "byte list"
  assume i: "is_ram_file i fs" and r: "off + length b < 2 ^ 63"
  from file_write_at_eq [OF r] have "file_write_at off b (ram_cont i fs)
      = Some (length b, overwrite off b (ram_cont i fs))"
    by (simp add: overwrite_def)
  with is_ram_fileD [OF i] have "ram_wr i fs off b
      = Some (length b, fs\<lparr>nodes := (nodes fs)(i \<mapsto> RamFile (overwrite off b (ram_cont i fs)))\<rparr>)"
    by (simp add: ram_wr_def write_at_def)
  then show "\<exists>s'. ram_wr i fs off b = Some (length b, s') \<and> is_ram_file i s' \<and>
      ram_cont i s' = overwrite off b (ram_cont i fs)"
    by (simp add: ram_file_upd)
next
  fix fs and off n :: nat
  assume i: "is_ram_file i fs" and r: "off + n < 2 ^ 63"
  from file_read_at_eq [OF r] show "ram_rd i fs off n = Some (take n (drop off (ram_cont i fs)))"
    using is_ram_fileD [OF i] by (simp add: ram_rd_def read_at_def)
qed

subsection \<open>The cursor\<close>

lemma cap_accessD:
  "cap_access acc \<Longrightarrow> need \<subseteq> have \<Longrightarrow> acc have need = Inr ()"
  "cap_access acc \<Longrightarrow> \<not> need \<subseteq> have \<Longrightarrow> acc have need = Inl PermissionDenied"
  by (auto simp: cap_access_def)

text \<open>Successive writes through one open file; any error ends them.\<close>

fun write_each :: "access \<Rightarrow> vfs \<Rightarrow> File \<Rightarrow> byte list list \<Rightarrow> (File \<times> vfs) option" where
  "write_each acc fs f [] = Some (f, fs)"
| "write_each acc fs f (b # bs) =
     (case file_write acc fs f b of Some (Inr _, f', fs') \<Rightarrow> write_each acc fs' f' bs | _ \<Rightarrow> None)"

lemma file_write_ram:
  assumes "cap_access acc" "WRITE \<in> fcap f" "\<not> is_append f" "ram_wr (fnode f) fs (offset f) b = Some (n, fs')"
  shows "file_write acc fs f b = Some (Inr n, f\<lparr>offset := uadd (offset f) n\<rparr>, fs')"
  using assms by (auto simp: file_write_def cap_accessD ram_wr_def split: option.splits sum.splits)

lemma write_each_wr_all:
  assumes "cap_access acc" "WRITE \<in> fcap f" "\<not> is_append f" "is_ram_file (fnode f) fs"
    "offset f + length (concat bufs) < 2 ^ 63" "wr_all (ram_wr (fnode f)) fs (offset f) bufs = Some fs'"
  shows "write_each acc fs f bufs = Some (f\<lparr>offset := offset f + length (concat bufs)\<rparr>, fs')"
  using assms
proof (induction bufs arbitrary: fs f)
  case (Cons b bs)
  obtain fs1 where w: "ram_wr (fnode f) fs (offset f) b = Some (length b, fs1)" "is_ram_file (fnode f) fs1"
    using ram.wr_ok [of "fnode f" fs "offset f" b] Cons.prems by auto
  have u: "uadd (offset f) (length b) = offset f + length b"
    using Cons.prems(5) by (intro uadd_eq) (simp add: usize_lim_def)
  let ?f = "f\<lparr>offset := offset f + length b\<rparr>"
  have "write_each acc fs1 ?f bs = Some (?f\<lparr>offset := offset ?f + length (concat bs)\<rparr>, fs')"
    using Cons.prems w by (intro Cons.IH) (simp_all add: add.assoc)
  with file_write_ram [OF Cons.prems(1-3) w(1)] show ?case
    by (simp add: u add.assoc)
qed simp

subsection \<open>Files without write access\<close>

datatype file_call =
    CallRead nat | CallPollRead nat | CallReadAt nat nat | CallWrite "byte list" | CallPollWrite "byte list"
  | CallWriteAt nat "byte list" | CallTruncate nat | CallSeek SeekFrom | CallPollSeek SeekFrom

fun file_call_step :: "access \<Rightarrow> file_call \<Rightarrow> File \<times> vfs \<Rightarrow> (File \<times> vfs) option" where
  "file_call_step acc (CallRead n) (f, fs) = map_option (\<lambda>(_, f'). (f', fs)) (file_read acc fs f n)"
| "file_call_step acc (CallPollRead n) (f, fs) = map_option (\<lambda>(_, f'). (f', fs)) (poll_read acc fs f n)"
| "file_call_step acc (CallReadAt off n) (f, fs) = map_option (\<lambda>_. (f, fs)) (file_read_from acc fs f off n)"
| "file_call_step acc (CallWrite b) (f, fs) = map_option (\<lambda>(_, f', fs'). (f', fs')) (file_write acc fs f b)"
| "file_call_step acc (CallPollWrite b) (f, fs) = map_option (\<lambda>(_, f', fs'). (f', fs')) (poll_write acc fs f b)"
| "file_call_step acc (CallWriteAt off b) (f, fs) = map_option (\<lambda>(_, fs'). (f, fs')) (file_write_to acc fs f off b)"
| "file_call_step acc (CallTruncate n) (f, fs) = map_option (\<lambda>(_, fs'). (f, fs')) (file_truncate_to acc fs f n)"
| "file_call_step acc (CallSeek p) (f, fs) = Some (snd (file_seek acc fs f p), fs)"
| "file_call_step acc (CallPollSeek p) (f, fs) = map_option (\<lambda>(_, f'). (f', fs)) (poll_seek acc fs f p)"

fun file_calls :: "access \<Rightarrow> file_call list \<Rightarrow> File \<times> vfs \<Rightarrow> (File \<times> vfs) option" where
  "file_calls acc [] s = Some s"
| "file_calls acc (c # cs) s = Option.bind (file_call_step acc c s) (file_calls acc cs)"

lemma file_call_step_readonly:
  assumes "cap_access acc" "WRITE \<notin> fcap f" "file_call_step acc c (f, fs) = Some (f', fs')"
  shows "fs' = fs \<and> fcap f' = fcap f"
  using assms
  by (cases c)
    (auto simp: file_read_def poll_read_def file_write_def poll_write_def file_write_to_def file_truncate_to_def
      file_seek_def poll_seek_def cap_accessD split: option.splits sum.splits)

lemma file_calls_readonly:
  assumes "cap_access acc" "WRITE \<notin> fcap f" "file_calls acc cs (f, fs) = Some (f', fs')"
  shows "fs' = fs"
  using assms(2,3)
proof (induction cs arbitrary: f fs)
  case (Cons c cs)
  then obtain g gs where st: "file_call_step acc c (f, fs) = Some (g, gs)" and r: "file_calls acc cs (g, gs) = Some (f', fs')"
    by (auto simp: bind_eq_Some_conv)
  from file_call_step_readonly [OF assms(1) Cons.prems(1) st] have "gs = fs" "WRITE \<notin> fcap g"
    using Cons.prems(1) by auto
  with Cons.IH [OF _ r] show ?case by simp
qed simp

lemma open_readonly:
  assumes "open_at acc s dir path opts = Done (Inr f, s')" "\<not> opt_write opts" "\<not> opt_append opts"
  shows "store s' = store s \<and> WRITE \<notin> fcap f"
proof -
  from assms have "is_valid opts"
    by (auto simp: open_at_def split: if_splits)
  with assms(2,3) have "\<not> opt_create opts" "\<not> opt_create_new opts" "\<not> opt_truncate opts"
    by (auto simp: is_valid_def split: if_splits)
  with assms show ?thesis
    by (auto simp: open_at_def cap_of_opts_def split: if_splits sum.splits)
qed

subsection \<open>Properties\<close>

text \<open>An instance of the capability crate, for the witnesses, and a file of one byte.\<close>

definition subset_access :: access where
  "subset_access have need = (if need \<subseteq> have then Inr () else Inl PermissionDenied)"

lemma subset_access_ok: "cap_access subset_access"
  by (simp add: cap_access_def subset_access_def)

definition one_file :: vfs where
  "one_file = ramfs_new\<lparr>nodes := [0 \<mapsto> RamDir None [(''f'', 1)], 1 \<mapsto> RamFile [9]]\<rparr>"

definition one_state :: fs_state where
  "one_state = \<lparr>store = one_file, root_dir = \<lparr>main_fs = 0, mounts = []\<rparr>, current_dir = RootDir, current_path = ''/''\<rparr>"



text \<open>C12: a file opened without write or append access never changes a file system. Opening it
  leaves the store as it was, and so does every sequence of calls on it, whatever their arguments.\<close>

theorem readonly_never_modifies:
  assumes "cap_access acc" "open_at acc s dir path opts = Done (Inr f, s')" "\<not> opt_write opts" "\<not> opt_append opts"
  shows "store s' = store s \<and> (\<forall>cs f' fs'. file_calls acc cs (f, store s') = Some (f', fs') \<longrightarrow> fs' = store s)"
  using open_readonly [OF assms(2-4)] file_calls_readonly [OF assms(1)] by fastforce

text \<open>An open directory cannot be used for relative paths. A directory is opened with read
  access at most, while every operation relative to it asks for execute access: opening, creating
  and removing by a relative path always fail with \<open>PermissionDenied\<close>.\<close>

lemma dir_relative_denied:
  assumes "cap_access acc" "dir_open_dir s0 p0 opts = Inr d" "\<not> starts_with_slash path"
  shows "dir_open_file_at acc s d path o1 = Done (Inl PermissionDenied, s) \<and>
    dir_open_dir_at acc s d path o1 = Inl PermissionDenied \<and>
    dir_create_file acc s d path = Done (Inl PermissionDenied, s) \<and>
    dir_create_dir acc s d path = Done (Inl PermissionDenied, s) \<and>
    dir_remove_file acc s d path = Done (Inl PermissionDenied, s) \<and>
    dir_remove_dir acc s d path = Done (Inl PermissionDenied, s)"
proof -
  from assms(2) have "EXECUTE \<notin> dcap d"
    by (auto simp: dir_open_dir_def open_dir_in_def cap_of_opts_def split: if_splits sum.splits)
  with assms(1,3) have "access_at acc d path = Inl PermissionDenied"
    by (simp add: access_at_def cap_accessD)
  then show ?thesis
    by (simp add: dir_open_file_at_def dir_open_dir_at_def dir_create_file_def dir_create_dir_def
        dir_remove_file_def dir_remove_dir_def)
qed

lemma one_root: "fs_lookup one_state None ''/'' = Inr 0"
proof -
  have "lookup_mounted_fs (root_dir one_state) ''/'' = (0, [])"
    by (subst lookup_mounted_fs.simps) (simp add: one_state_def trim_matches_def starts_with_def)
  moreover have "lookup (store one_state) 0 [] = Inr 0"
    by (subst lookup.simps) (simp add: one_state_def one_file_def split_path_def)
  moreover have "get_attr (store one_state) 0 = Inr (attr_new_dir 4096 0)"
    by (simp add: one_state_def one_file_def get_attr_def)
  ultimately show ?thesis
    by (simp add: fs_lookup_def ref_lookup_def parent_node_of_def starts_with_slash_def root_lookup_def
        attr_new_dir_def attr_new_def ends_with_slash_def)
qed

lemma one_root_attr: "get_attr (store one_state) 0 = Inr (attr_new_dir 4096 0)"
  by (simp add: one_state_def one_file_def get_attr_def)

lemma root_read_opts:
  "open_dir_in one_state None ''/'' (opts_new\<lparr>opt_read := True\<rparr>) = Inr \<lparr>dnode = 0, dcap = {READ}, entry_idx = 0\<rparr>"
  "open_at acc one_state None ''/'' (opts_new\<lparr>opt_read := True\<rparr>)
     = Done (Inr \<lparr>fnode = 0, fcap = {READ}, is_append = False, offset = 0\<rparr>, one_state)"
  by (simp_all add: open_dir_in_def open_at_def is_valid_def one_root one_root_attr opts_new_def attr_new_dir_def attr_new_def
      cap_of_opts_def perm_to_cap_def owner_readable_def has_perm_def default_dir_def Let_def)

theorem readonly_never_modifies_witness:
  "\<exists>f. open_at subset_access one_state None ''/'' (opts_new\<lparr>opt_read := True\<rparr>) = Done (Inr f, one_state) \<and>
     (\<forall>f' fs'. file_calls subset_access [CallWrite [1], CallTruncate 0] (f, store one_state) = Some (f', fs') \<longrightarrow> fs' = store one_state)"
proof -
  have "\<not> opt_write (opts_new\<lparr>opt_read := True\<rparr>)" "\<not> opt_append (opts_new\<lparr>opt_read := True\<rparr>)"
    by (simp_all add: opts_new_def)
  from readonly_never_modifies [OF subset_access_ok root_read_opts(2) this] show ?thesis
    using root_read_opts(2) [of subset_access] by blast
qed

lemma dir_relative_denied_witness:
  "\<exists>d. dir_open_dir one_state ''/'' (opts_new\<lparr>opt_read := True\<rparr>) = Inr d \<and>
     dir_create_file subset_access one_state d ''g'' = Done (Inl PermissionDenied, one_state)"
proof -
  have d: "dir_open_dir one_state ''/'' (opts_new\<lparr>opt_read := True\<rparr>) = Inr \<lparr>dnode = 0, dcap = {READ}, entry_idx = 0\<rparr>"
    by (simp add: dir_open_dir_def root_read_opts)
  from dir_relative_denied [OF subset_access_ok d, of "''g''" one_state opts_new] d show ?thesis
    by (simp add: starts_with_slash_def)
qed

end
