(* ===== verification/Mem_Area.thy ===== *)
theory Mem_Area
  imports File_Ops
begin

section \<open>Mapped areas of a user address space (async_mem/src/area.rs, backend.rs)\<close>

text \<open>
  A \<open>MapArea\<close> is a run of pages at a virtual address, each with its physical page once it has been
  touched, and possibly a backing file (an open file with its own cursor). A physical page is named
  by its physical address. The page table crate and the physical page allocator are parameters: the
  operations of a page table are a record over the type of page tables, an error of one of them is
  \<open>None\<close> (the code unwraps all of them), and the pages the allocator hands out next are part of the
  machine state, together with the contents of physical pages and the file systems. Freeing a page
  is the allocator's business and has no effect here. \<open>None\<close> as a result is a panic.
\<close>

subsection \<open>Parameters\<close>

definition PAGE_SIZE_4K :: nat where
  "PAGE_SIZE_4K = 4096"

type_synonym MappingFlags = "64 word"

definition flags_contain :: "MappingFlags \<Rightarrow> MappingFlags \<Rightarrow> bool" where
  "flags_contain a b \<longleftrightarrow> and a b = b"

text \<open>\<open>pt_entry\<close> is \<open>get_entry_mut\<close>: whether the entry is present, and its flags; \<open>pt_query\<close> is \<open>query\<close>:
  the physical page and the flags of an address that is mapped.\<close>

record 'pt paging =
  map_fault_region :: "nat \<Rightarrow> nat \<Rightarrow> MappingFlags \<Rightarrow> 'pt \<Rightarrow> 'pt option"
  map_region :: "nat \<Rightarrow> nat \<Rightarrow> nat \<Rightarrow> MappingFlags \<Rightarrow> bool \<Rightarrow> 'pt \<Rightarrow> 'pt option"
  unmap_region :: "nat \<Rightarrow> nat \<Rightarrow> 'pt \<Rightarrow> 'pt option"
  update_region :: "nat \<Rightarrow> nat \<Rightarrow> MappingFlags \<Rightarrow> 'pt \<Rightarrow> 'pt option"
  map_overwrite :: "nat \<Rightarrow> nat \<Rightarrow> MappingFlags \<Rightarrow> 'pt \<Rightarrow> 'pt option"
  map_page :: "nat \<Rightarrow> nat \<Rightarrow> MappingFlags \<Rightarrow> 'pt \<Rightarrow> 'pt option"
  map_fault :: "nat \<Rightarrow> MappingFlags \<Rightarrow> 'pt \<Rightarrow> 'pt option"
  pt_entry :: "nat \<Rightarrow> 'pt \<Rightarrow> (bool \<times> MappingFlags) option"
  pt_query :: "nat \<Rightarrow> 'pt \<Rightarrow> (nat \<times> MappingFlags) option"

record machine =
  phys :: "nat \<Rightarrow> byte list"
  free_pages :: "nat list"
  mfs :: vfs

definition phys_alloc :: "machine \<Rightarrow> (nat \<times> machine) option" where
  "phys_alloc m = (case free_pages m of [] \<Rightarrow> None | p # ps \<Rightarrow> Some (p, m\<lparr>free_pages := ps\<rparr>))"

text \<open>\<open>alloc_contiguous\<close> copies the data into the new pages and clears the rest.\<close>

type_synonym contiguous = "nat \<Rightarrow> byte list option \<Rightarrow> machine \<Rightarrow> (nat list \<times> machine) ax_result"

definition is_aligned_4k :: "nat \<Rightarrow> bool" where
  "is_aligned_4k a \<longleftrightarrow> a mod PAGE_SIZE_4K = 0"

definition align_down_4k :: "nat \<Rightarrow> nat" where
  "align_down_4k a = a div PAGE_SIZE_4K * PAGE_SIZE_4K"

subsection \<open>Backing files\<close>

record MemBackend =
  bfile :: File

definition backend_seek :: "access \<Rightarrow> vfs \<Rightarrow> MemBackend \<Rightarrow> SeekFrom \<Rightarrow> MemBackend option" where
  "backend_seek acc fs b pos = map_option (\<lambda>(_, f). b\<lparr>bfile := f\<rparr>) (seek_ok acc fs (bfile b) pos)"

definition backend_new :: "access \<Rightarrow> vfs \<Rightarrow> File \<Rightarrow> nat \<Rightarrow> MemBackend option" where
  "backend_new acc fs f off = map_option (\<lambda>(_, f'). \<lparr>bfile = f'\<rparr>) (seek_ok acc fs f (Start off))"

definition clone_with_delta :: "access \<Rightarrow> vfs \<Rightarrow> MemBackend \<Rightarrow> int \<Rightarrow> MemBackend option" where
  "clone_with_delta acc fs b d = backend_seek acc fs b (Current d)"

definition backend_read_from_seek ::
  "access \<Rightarrow> vfs \<Rightarrow> MemBackend \<Rightarrow> SeekFrom \<Rightarrow> nat \<Rightarrow> (byte list ax_result \<times> MemBackend) option" where
  "backend_read_from_seek acc fs b pos len =
     map_option (\<lambda>(r, f). (r, b\<lparr>bfile := f\<rparr>)) (read_from_seek acc fs (bfile b) pos len)"

definition backend_write_to_seek ::
  "access \<Rightarrow> vfs \<Rightarrow> MemBackend \<Rightarrow> SeekFrom \<Rightarrow> byte list \<Rightarrow> (nat ax_result \<times> MemBackend \<times> vfs) option" where
  "backend_write_to_seek acc fs b pos buf =
     map_option (\<lambda>(r, f, fs'). (r, b\<lparr>bfile := f\<rparr>, fs')) (write_to_seek acc fs (bfile b) pos buf)"

definition backend_readable :: "access \<Rightarrow> MemBackend \<Rightarrow> bool" where
  "backend_readable acc b = file_readable acc (bfile b)"

definition backend_writable :: "access \<Rightarrow> MemBackend \<Rightarrow> bool" where
  "backend_writable acc b = file_writable acc (bfile b)"

text \<open>Moving the cursor of an optional backing file; the code unwraps the result.\<close>

definition seek_backend :: "access \<Rightarrow> vfs \<Rightarrow> MemBackend option \<Rightarrow> int \<Rightarrow> MemBackend option option" where
  "seek_backend acc fs bo d =
     (case bo of None \<Rightarrow> Some None | Some b \<Rightarrow> map_option Some (backend_seek acc fs b (Current d)))"

subsection \<open>Areas\<close>

record MapArea =
  pages :: "nat option list"
  vaddr :: nat
  shared :: bool
  aflags :: MappingFlags
  backend :: "MemBackend option"

definition area_size :: "MapArea \<Rightarrow> nat" where
  "area_size ar = umul (length (pages ar)) PAGE_SIZE_4K"

definition end_va :: "MapArea \<Rightarrow> nat" where
  "end_va ar = uadd (vaddr ar) (area_size ar)"

definition allocated :: "MapArea \<Rightarrow> bool" where
  "allocated ar = list_all (\<lambda>p. p \<noteq> None) (pages ar)"

definition overlap_with :: "MapArea \<Rightarrow> nat \<Rightarrow> nat \<Rightarrow> bool" where
  "overlap_with ar start end1 \<longleftrightarrow>
     vaddr ar \<le> start \<and> start < end_va ar \<or> start \<le> vaddr ar \<and> vaddr ar < end1"

definition contained_in :: "MapArea \<Rightarrow> nat \<Rightarrow> nat \<Rightarrow> bool" where
  "contained_in ar start end1 \<longleftrightarrow> start \<le> vaddr ar \<and> end_va ar \<le> end1"

definition area_contains :: "MapArea \<Rightarrow> nat \<Rightarrow> nat \<Rightarrow> bool" where
  "area_contains ar start end1 \<longleftrightarrow> vaddr ar \<le> start \<and> end1 \<le> end_va ar"

definition strict_contain :: "MapArea \<Rightarrow> nat \<Rightarrow> nat \<Rightarrow> bool" where
  "strict_contain ar start end1 \<longleftrightarrow> vaddr ar < start \<and> end1 < end_va ar"

definition new_lazy ::
  "'pt paging \<Rightarrow> nat \<Rightarrow> nat \<Rightarrow> MappingFlags \<Rightarrow> MemBackend option \<Rightarrow> 'pt \<Rightarrow> (MapArea \<times> 'pt) option" where
  "new_lazy pg start num_pages flags be pt = do {
     pt' \<leftarrow> map_fault_region pg start (umul num_pages PAGE_SIZE_4K) flags pt;
     Some (\<lparr>pages = replicate num_pages None, vaddr = start, shared = False, aflags = flags, backend = be\<rparr>, pt')
   }"

definition new_without_alloc ::
  "'pt paging \<Rightarrow> nat \<Rightarrow> nat \<Rightarrow> nat \<Rightarrow> MappingFlags \<Rightarrow> 'pt \<Rightarrow> (MapArea \<times> 'pt) option" where
  "new_without_alloc pg start paddr num_pages flags pt = do {
     pt' \<leftarrow> map_region pg start paddr (umul num_pages PAGE_SIZE_4K) flags False pt;
     Some (\<lparr>pages = replicate num_pages None, vaddr = start, shared = False, aflags = flags, backend = None\<rparr>, pt')
   }"

definition new_alloc ::
  "'pt paging \<Rightarrow> contiguous \<Rightarrow> nat \<Rightarrow> nat \<Rightarrow> MappingFlags \<Rightarrow> byte list option \<Rightarrow> MemBackend option \<Rightarrow> 'pt \<Rightarrow> machine
     \<Rightarrow> (MapArea ax_result \<times> 'pt \<times> machine) option" where
  "new_alloc pg contig start num_pages flags data be pt m =
     (case contig num_pages data m of
        Inl e \<Rightarrow> Some (Inl e, pt, m)
      | Inr (ps, m') \<Rightarrow>
          (case ps of
             [] \<Rightarrow> None
           | p # _ \<Rightarrow> do {
               pt' \<leftarrow> map_region pg start p (umul num_pages PAGE_SIZE_4K) flags False pt;
               Some (Inr \<lparr>pages = map Some ps, vaddr = start, shared = False, aflags = flags, backend = be\<rparr>, pt', m')
             }))"

definition set_shared :: "bool \<Rightarrow> MapArea \<Rightarrow> MapArea" where
  "set_shared b ar = ar\<lparr>shared := b\<rparr>"

definition is_shared :: "MapArea \<Rightarrow> bool" where
  "is_shared ar = shared ar"

definition dealloc :: "'pt paging \<Rightarrow> MapArea \<Rightarrow> 'pt \<Rightarrow> (MapArea \<times> 'pt) option" where
  "dealloc pg ar pt = do {
     pt' \<leftarrow> unmap_region pg (vaddr ar) (area_size ar) pt;
     Some (ar\<lparr>pages := []\<rparr>, pt')
   }"

text \<open>\<open>Vec::drain\<close> panics when the range is reversed or passes the end.\<close>

definition drain :: "nat \<Rightarrow> nat \<Rightarrow> 'a list \<Rightarrow> ('a list \<times> 'a list) option" where
  "drain a b xs = (if a \<le> b \<and> b \<le> length xs then Some (take (b - a) (drop a xs), take a xs @ drop b xs) else None)"

definition shrink_left ::
  "access \<Rightarrow> 'pt paging \<Rightarrow> vfs \<Rightarrow> nat \<Rightarrow> MapArea \<Rightarrow> 'pt \<Rightarrow> (MapArea \<times> 'pt) option" where
  "shrink_left acc pg fs new_start ar pt = do {
     _ \<leftarrow> rassert (is_aligned_4k new_start);
     let delete_size = usub new_start (vaddr ar);
     let delete_pages = delete_size div PAGE_SIZE_4K;
     be \<leftarrow> seek_backend acc fs (backend ar) (swrap (int delete_size));
     (_, ps) \<leftarrow> drain 0 delete_pages (pages ar);
     pt' \<leftarrow> unmap_region pg (vaddr ar) delete_size pt;
     Some (ar\<lparr>pages := ps, backend := be, vaddr := new_start\<rparr>, pt')
   }"

definition shrink_right :: "'pt paging \<Rightarrow> nat \<Rightarrow> MapArea \<Rightarrow> 'pt \<Rightarrow> (MapArea \<times> 'pt) option" where
  "shrink_right pg new_end ar pt = do {
     _ \<leftarrow> rassert (is_aligned_4k new_end);
     let delete_size = usub (end_va ar) new_end;
     let delete_pages = delete_size div PAGE_SIZE_4K;
     (_, ps) \<leftarrow> drain (usub (length (pages ar)) delete_pages) (length (pages ar)) (pages ar);
     pt' \<leftarrow> unmap_region pg new_end delete_size pt;
     Some (ar\<lparr>pages := ps\<rparr>, pt')
   }"

text \<open>\<open>split\<close> keeps the left part and returns the right one.\<close>

definition split_area :: "access \<Rightarrow> vfs \<Rightarrow> nat \<Rightarrow> MapArea \<Rightarrow> (MapArea \<times> MapArea) option" where
  "split_area acc fs addr ar = do {
     _ \<leftarrow> rassert (is_aligned_4k addr);
     let right_page_count = usub (end_va ar) addr div PAGE_SIZE_4K;
     (right_pages, left_pages) \<leftarrow> drain (usub (length (pages ar)) right_page_count) (length (pages ar)) (pages ar);
     be \<leftarrow> seek_backend acc fs (backend ar) (swrap (int (usub addr (vaddr ar))));
     Some (ar\<lparr>pages := left_pages\<rparr>,
       \<lparr>pages = right_pages, vaddr = addr, shared = shared ar, aflags = aflags ar, backend = be\<rparr>)
   }"

text \<open>\<open>split3\<close> keeps the left part and returns the middle and the right one. The second drain is
  computed with the area as the first one left it.\<close>

definition split3 :: "access \<Rightarrow> vfs \<Rightarrow> nat \<Rightarrow> nat \<Rightarrow> MapArea \<Rightarrow> (MapArea \<times> MapArea \<times> MapArea) option" where
  "split3 acc fs start end1 ar = do {
     _ \<leftarrow> rassert (is_aligned_4k start \<and> is_aligned_4k end1 \<and> start < end1 \<and> vaddr ar < start \<and> end1 < end_va ar);
     (right_pages, ps1) \<leftarrow> drain (usub (length (pages ar)) (usub (end_va ar) end1 div PAGE_SIZE_4K)) (length (pages ar)) (pages ar);
     let ar1 = ar\<lparr>pages := ps1\<rparr>;
     (mid_pages, ps2) \<leftarrow> drain (usub (length ps1) (usub (end_va ar1) start div PAGE_SIZE_4K)) (length ps1) ps1;
     let ar2 = ar\<lparr>pages := ps2\<rparr>;
     mid_be \<leftarrow> seek_backend acc fs (backend ar) (swrap (int (usub start (vaddr ar))));
     right_be \<leftarrow> seek_backend acc fs (backend ar) (swrap (int (usub end1 (vaddr ar))));
     Some (ar2,
       \<lparr>pages = mid_pages, vaddr = start, shared = shared ar, aflags = aflags ar, backend = mid_be\<rparr>,
       \<lparr>pages = right_pages, vaddr = end1, shared = shared ar, aflags = aflags ar, backend = right_be\<rparr>)
   }"

definition remove_mid ::
  "access \<Rightarrow> 'pt paging \<Rightarrow> vfs \<Rightarrow> nat \<Rightarrow> nat \<Rightarrow> MapArea \<Rightarrow> 'pt \<Rightarrow> (MapArea \<times> MapArea \<times> 'pt) option" where
  "remove_mid acc pg fs left_end right_start ar pt = do {
     _ \<leftarrow> rassert (is_aligned_4k left_end \<and> is_aligned_4k right_start \<and> left_end \<le> right_start);
     let delete_size = usub right_start left_end;
     let del_from = usub left_end (vaddr ar) div PAGE_SIZE_4K;
     let del_to = usub right_start (vaddr ar) div PAGE_SIZE_4K;
     (right_pages, ps1) \<leftarrow> drain del_to (length (pages ar)) (pages ar);
     right_be \<leftarrow> seek_backend acc fs (backend ar) (swrap (int (usub right_start (vaddr ar))));
     (_, ps2) \<leftarrow> drain del_from del_to ps1;
     pt' \<leftarrow> unmap_region pg left_end delete_size pt;
     Some (ar\<lparr>pages := ps2\<rparr>,
       \<lparr>pages = right_pages, vaddr = right_start, shared = shared ar, aflags = aflags ar, backend = right_be\<rparr>, pt')
   }"

definition update_flags :: "'pt paging \<Rightarrow> MappingFlags \<Rightarrow> MapArea \<Rightarrow> 'pt \<Rightarrow> (MapArea \<times> 'pt) option" where
  "update_flags pg flags ar pt = do {
     pt' \<leftarrow> update_region pg (vaddr ar) (area_size ar) flags pt;
     Some (ar\<lparr>aflags := flags\<rparr>, pt')
   }"

definition fill :: "byte \<Rightarrow> MapArea \<Rightarrow> machine \<Rightarrow> machine" where
  "fill b ar m = m\<lparr>phys := fold (\<lambda>p f. case p of None \<Rightarrow> f | Some q \<Rightarrow> f(q := replicate PAGE_SIZE_4K b)) (pages ar) (phys m)\<rparr>"

text \<open>A page fault takes a fresh page, fills it from the backing file (what the file does not cover
  keeps the old contents of the page) or with zeros, and maps it. The result is whether the access
  may be retried.\<close>

definition load_page ::
  "access \<Rightarrow> nat \<Rightarrow> nat \<Rightarrow> MemBackend option \<Rightarrow> machine \<Rightarrow> (MemBackend option \<times> machine) option" where
  "load_page acc page_index p bo m =
     (case bo of
        None \<Rightarrow> Some (None, m\<lparr>phys := (phys m)(p := replicate PAGE_SIZE_4K 0)\<rparr>)
      | Some b \<Rightarrow>
          (case backend_read_from_seek acc (mfs m) b (Current (swrap (int (umul page_index PAGE_SIZE_4K)))) PAGE_SIZE_4K of
             None \<Rightarrow> None
           | Some (Inl _, b') \<Rightarrow> Some (Some b', m\<lparr>phys := (phys m)(p := replicate PAGE_SIZE_4K 0)\<rparr>)
           | Some (Inr bs, b') \<Rightarrow>
               Some (Some b', m\<lparr>phys := (phys m)(p := bs @ drop (length bs) (phys m p))\<rparr>)))"

definition handle_page_fault ::
  "access \<Rightarrow> 'pt paging \<Rightarrow> nat \<Rightarrow> MappingFlags \<Rightarrow> MapArea \<Rightarrow> 'pt \<Rightarrow> machine \<Rightarrow> (bool \<times> MapArea \<times> 'pt \<times> machine) option" where
  "handle_page_fault acc pg addr flags ar pt m = do {
     _ \<leftarrow> rassert (vaddr ar \<le> addr \<and> addr < end_va ar);
     if \<not> flags_contain (aflags ar) flags then Some (False, ar, pt, m)
     else (let page_index = usub addr (vaddr ar) div PAGE_SIZE_4K in
       if page_index \<ge> length (pages ar) then Some (False, ar, pt, m)
       else if pages ar ! page_index \<noteq> None then Some (True, ar, pt, m)
       else do {
         (p, m1) \<leftarrow> phys_alloc m;
         (be, m2) \<leftarrow> load_page acc page_index p (backend ar) m1;
         pt' \<leftarrow> map_overwrite pg (align_down_4k addr) p (aflags ar) pt;
         Some (True, ar\<lparr>pages := (pages ar)[page_index := Some p], backend := be\<rparr>, pt', m2)
       })
   }"

definition sync_page_with_backend :: "access \<Rightarrow> nat \<Rightarrow> MapArea \<Rightarrow> machine \<Rightarrow> (MapArea \<times> machine) option" where
  "sync_page_with_backend acc page_index ar m =
     (if page_index \<ge> length (pages ar) then None
      else (case (pages ar ! page_index, backend ar) of
          (Some p, Some b) \<Rightarrow>
            if backend_writable acc b then
              (case backend_write_to_seek acc (mfs m) b (Start (umul page_index PAGE_SIZE_4K)) (phys m p) of
                 Some (Inr _, b', fs') \<Rightarrow> Some (ar\<lparr>backend := Some b'\<rparr>, m\<lparr>mfs := fs'\<rparr>)
               | _ \<Rightarrow> None)
            else Some (ar, m)
        | _ \<Rightarrow> Some (ar, m)))"

subsection \<open>Cloning an area for a child process\<close>

text \<open>Faulting in all missing pages of a shared area; the result of a fault is ignored.\<close>

fun fault_all ::
  "access \<Rightarrow> 'pt paging \<Rightarrow> nat list \<Rightarrow> MapArea \<Rightarrow> 'pt \<Rightarrow> machine \<Rightarrow> (MapArea \<times> 'pt \<times> machine) option" where
  "fault_all acc pg [] ar pt m = Some (ar, pt, m)"
| "fault_all acc pg (a # as) ar pt m =
     (case handle_page_fault acc pg a 0 ar pt m of
        None \<Rightarrow> None
      | Some (_, ar', pt', m') \<Rightarrow> fault_all acc pg as ar' pt' m')"

text \<open>Mapping the pages of a shared area in the child; every page must be there.\<close>

fun map_shared :: "'pt paging \<Rightarrow> nat \<Rightarrow> nat \<Rightarrow> MappingFlags \<Rightarrow> nat option list \<Rightarrow> 'pt \<Rightarrow> 'pt option" where
  "map_shared pg base idx flags [] pt = Some pt"
| "map_shared pg base idx flags (None # ps) pt = None"
| "map_shared pg base idx flags (Some p # ps) pt = do {
     pt' \<leftarrow> map_page pg (uadd base (umul idx PAGE_SIZE_4K)) p flags pt;
     map_shared pg base (Suc idx) flags ps pt'
   }"

text \<open>Copying the pages of a private area, page by page.\<close>

fun copy_pages ::
  "'pt paging \<Rightarrow> nat \<Rightarrow> nat \<Rightarrow> MappingFlags \<Rightarrow> nat option list \<Rightarrow> 'pt \<Rightarrow> machine \<Rightarrow> (nat option list \<times> 'pt \<times> machine) option" where
  "copy_pages pg base idx flags [] pt m = Some ([], pt, m)"
| "copy_pages pg base idx flags (None # ps) pt m = do {
     pt' \<leftarrow> map_fault pg (uadd base (umul idx PAGE_SIZE_4K)) flags pt;
     (qs, pt'', m') \<leftarrow> copy_pages pg base (Suc idx) flags ps pt' m;
     Some (None # qs, pt'', m')
   }"
| "copy_pages pg base idx flags (Some p # ps) pt m = do {
     (q, m1) \<leftarrow> phys_alloc m;
     let m2 = m1\<lparr>phys := (phys m1)(q := phys m1 p)\<rparr>;
     pt' \<leftarrow> map_page pg (uadd base (umul idx PAGE_SIZE_4K)) q flags pt;
     (qs, pt'', m3) \<leftarrow> copy_pages pg base (Suc idx) flags ps pt' m2;
     Some (Some q # qs, pt'', m3)
   }"

text \<open>The bytes of an area whose pages are all there, as the running process sees them.\<close>

definition area_bytes :: "MapArea \<Rightarrow> machine \<Rightarrow> byte list" where
  "area_bytes ar m = concat (map (\<lambda>p. case p of None \<Rightarrow> [] | Some q \<Rightarrow> phys m q) (pages ar))"

definition fault_addrs :: "MapArea \<Rightarrow> nat list" where
  "fault_addrs ar = map (\<lambda>(i, p). uadd (vaddr ar) (umul i PAGE_SIZE_4K))
     (filter (\<lambda>(i, p). p = None) (enumerate 0 (pages ar)))"

definition clone_alloc ::
  "access \<Rightarrow> 'pt paging \<Rightarrow> contiguous \<Rightarrow> MapArea \<Rightarrow> 'pt \<Rightarrow> 'pt \<Rightarrow> machine
     \<Rightarrow> (MapArea ax_result \<times> MapArea \<times> 'pt \<times> 'pt \<times> machine) option" where
  "clone_alloc acc pg contig ar child_pt parent_pt m =
     (if is_shared ar then do {
        (ar', parent', m') \<leftarrow> fault_all acc pg (fault_addrs ar) ar parent_pt m;
        child' \<leftarrow> map_shared pg (vaddr ar') 0 (aflags ar') (pages ar') child_pt;
        Some (Inr ar', ar', child', parent', m')
      }
      else if allocated ar then do {
        (r, child', m') \<leftarrow> new_alloc pg contig (vaddr ar) (length (pages ar)) (aflags ar) (Some (area_bytes ar m)) (backend ar) child_pt m;
        Some (r, ar, child', parent_pt, m')
      }
      else do {
        (ps, child', m') \<leftarrow> copy_pages pg (vaddr ar) 0 (aflags ar) (pages ar) child_pt m;
        Some (Inr (ar\<lparr>pages := ps\<rparr>), ar, child', parent_pt, m')
      })"

subsection \<open>Pages of an area\<close>

text \<open>What an area says about one of its pages: the physical page, whether it is shared, the flags,
  and the backing file with its cursor at the start of the page. \<open>area_pages\<close> is an area as a set
  of pages, which is what splitting it has to keep.\<close>

type_synonym page_info = "nat option \<times> bool \<times> MappingFlags \<times> MemBackend option"

definition advance :: "nat \<Rightarrow> MemBackend \<Rightarrow> MemBackend" where
  "advance d b = b\<lparr>bfile := (bfile b)\<lparr>offset := offset (bfile b) + d\<rparr>\<rparr>"

definition page_info :: "MapArea \<Rightarrow> nat \<Rightarrow> page_info" where
  "page_info ar i = (pages ar ! i, shared ar, aflags ar, map_option (advance (i * PAGE_SIZE_4K)) (backend ar))"

definition area_pages :: "MapArea \<Rightarrow> (nat \<times> page_info) set" where
  "area_pages ar = (\<lambda>i. (vaddr ar + i * PAGE_SIZE_4K, page_info ar i)) ` {..<length (pages ar)}"

definition backend_ok :: "vfs \<Rightarrow> nat \<Rightarrow> MemBackend \<Rightarrow> bool" where
  "backend_ok fs n b \<longleftrightarrow> (\<exists>a. get_attr fs (fnode (bfile b)) = Inr a) \<and> offset (bfile b) + n < 2 ^ 63"

definition area_ok :: "vfs \<Rightarrow> MapArea \<Rightarrow> bool" where
  "area_ok fs ar \<longleftrightarrow> pages ar \<noteq> [] \<and> is_aligned_4k (vaddr ar) \<and>
     vaddr ar + length (pages ar) * PAGE_SIZE_4K < 2 ^ 63 \<and>
     pred_option (backend_ok fs (length (pages ar) * PAGE_SIZE_4K)) (backend ar)"

text \<open>The pages \<open>a\<close> to \<open>b\<close> of an area, as an area.\<close>

definition sub_area :: "nat \<Rightarrow> nat \<Rightarrow> MapArea \<Rightarrow> MapArea" where
  "sub_area a b ar = ar\<lparr>pages := take (b - a) (drop a (pages ar)), vaddr := vaddr ar + a * PAGE_SIZE_4K,
     backend := map_option (advance (a * PAGE_SIZE_4K)) (backend ar)\<rparr>"

lemma sub_area_sel [simp]:
  "pages (sub_area a b ar) = take (b - a) (drop a (pages ar))"
  "vaddr (sub_area a b ar) = vaddr ar + a * PAGE_SIZE_4K"
  "shared (sub_area a b ar) = shared ar" "aflags (sub_area a b ar) = aflags ar"
  "backend (sub_area a b ar) = map_option (advance (a * PAGE_SIZE_4K)) (backend ar)"
  by (simp_all add: sub_area_def)

lemma advance_advance [simp]: "advance d (advance e b) = advance (e + d) b" and advance_0 [simp]: "advance 0 b = b"
  by (simp_all add: advance_def add.assoc)

lemma area_pages_sub_index:
  assumes "a \<le> b" "b \<le> length (pages ar)"
  shows "area_pages (sub_area a b ar) = (\<lambda>i. (vaddr ar + i * PAGE_SIZE_4K, page_info ar i)) ` {a..<b}"
proof -
  have info: "page_info (sub_area a b ar) i = page_info ar (a + i)" if "i < b - a" for i
    using that assms by (cases "backend ar") (simp_all add: page_info_def algebra_simps)
  have "area_pages (sub_area a b ar) = (\<lambda>i. (vaddr ar + (a + i) * PAGE_SIZE_4K, page_info ar (a + i))) ` {..<b - a}"
    using assms by (auto simp: area_pages_def info algebra_simps image_iff)
  also have "\<dots> = (\<lambda>i. (vaddr ar + i * PAGE_SIZE_4K, page_info ar i)) ` {a..<b}"
  proof -
    have "{a..<b} = (\<lambda>i. a + i) ` {..<b - a}"
    proof (intro set_eqI iffI)
      fix x
      assume "x \<in> {a..<b}"
      then have "x = a + (x - a)" "x - a \<in> {..<b - a}" by auto
      then show "x \<in> (\<lambda>i. a + i) ` {..<b - a}" by blast
    qed auto
    then show ?thesis by (simp add: image_image)
  qed
  finally show ?thesis .
qed

lemma area_pages_sub:
  assumes "a \<le> b" "b \<le> length (pages ar)"
  shows "area_pages (sub_area a b ar) =
    {(x, p) \<in> area_pages ar. vaddr ar + a * PAGE_SIZE_4K \<le> x \<and> x < vaddr ar + b * PAGE_SIZE_4K}"
  using assms unfolding area_pages_sub_index [OF assms] by (auto simp: area_pages_def PAGE_SIZE_4K_def)

lemma area_pages_range:
  "(x, p) \<in> area_pages ar \<Longrightarrow> vaddr ar \<le> x \<and> x < vaddr ar + length (pages ar) * PAGE_SIZE_4K"
  by (auto simp: area_pages_def PAGE_SIZE_4K_def)

lemma area_ok_sub:
  assumes "area_ok fs ar" "a < b" "b \<le> length (pages ar)"
  shows "area_ok fs (sub_area a b ar)"
proof -
  have n: "(b - a) * PAGE_SIZE_4K + a * PAGE_SIZE_4K \<le> length (pages ar) * PAGE_SIZE_4K"
    using assms by (simp flip: add_mult_distrib)
  have al: "is_aligned_4k (vaddr ar + a * PAGE_SIZE_4K)"
    using assms(1) by (simp add: area_ok_def is_aligned_4k_def)
  have l: "length (pages (sub_area a b ar)) = b - a"
    using assms by simp
  have be: "pred_option (backend_ok fs ((b - a) * PAGE_SIZE_4K)) (backend (sub_area a b ar))"
    using assms(1) n by (cases "backend ar") (auto simp: area_ok_def backend_ok_def advance_def)
  show ?thesis
    unfolding area_ok_def l
  proof (intro conjI)
    show "pages (sub_area a b ar) \<noteq> []"
      using assms by simp
    show "vaddr (sub_area a b ar) + (b - a) * PAGE_SIZE_4K < 2 ^ 63"
      using assms(1) n unfolding area_ok_def sub_area_sel by linarith
  qed (use al be in simp_all)
qed

text \<open>Inside an area that is well formed nothing wraps around.\<close>

lemma area_size_eq: "area_ok fs ar \<Longrightarrow> area_size ar = length (pages ar) * PAGE_SIZE_4K"
  unfolding area_size_def by (intro umul_eq) (simp add: area_ok_def usize_lim_def)

lemma end_va_eq: "area_ok fs ar \<Longrightarrow> end_va ar = vaddr ar + length (pages ar) * PAGE_SIZE_4K"
  unfolding end_va_def area_size_eq by (intro uadd_eq) (simp add: area_ok_def usize_lim_def)

lemma seek_backend_eq:
  assumes "cap_access acc" "pred_option (backend_ok fs n) bo" "d \<le> n"
  shows "seek_backend acc fs bo (swrap (int d)) = Some (map_option (advance d) bo)"
proof (cases bo)
  case (Some b)
  with assms have ok: "backend_ok fs n b" by simp
  with assms(3) have "swrap (int d) = int d"
    by (simp add: swrap_def backend_ok_def)
  moreover have "seek_ok acc fs (bfile b) (Current (int d)) = Some (offset (bfile b) + d, (bfile b)\<lparr>offset := offset (bfile b) + d\<rparr>)"
    using ok assms by (auto simp: seek_ok_def poll_seek_def cap_accessD backend_ok_def seek_target_def
        checked_add_signed_def usize_lim_def nat_add_distrib)
  ultimately show ?thesis
    by (simp add: Some seek_backend_def backend_seek_def advance_def)
qed (simp add: seek_backend_def)

subsection \<open>The operations cut areas into sub-areas\<close>

lemma sub_area_0: "sub_area 0 k ar = ar\<lparr>pages := take k (pages ar)\<rparr>"
  by (cases ar; cases "backend ar") (simp_all add: sub_area_def)

lemma sub_area_all: "sub_area 0 (length (pages ar)) ar = ar"
  by (simp add: sub_area_0)

lemma sub_area_record:
  "\<lparr>pages = take (b - a) (drop a (pages ar)), vaddr = vaddr ar + a * PAGE_SIZE_4K, shared = shared ar,
     aflags = aflags ar, backend = map_option (advance (a * PAGE_SIZE_4K)) (backend ar)\<rparr> = sub_area a b ar"
  by (cases ar) (simp add: sub_area_def)

lemma sub_area_last:
  "\<lparr>pages = drop a (pages ar), vaddr = vaddr ar + a * PAGE_SIZE_4K, shared = shared ar,
     aflags = aflags ar, backend = map_option (advance (a * PAGE_SIZE_4K)) (backend ar)\<rparr>
   = sub_area a (length (pages ar)) ar"
  by (simp flip: sub_area_record)

lemma drain_suffix: "k \<le> length xs \<Longrightarrow> drain k (length xs) xs = Some (drop k xs, take k xs)"
  by (simp add: drain_def)

lemma area_addr_lt:
  assumes "area_ok fs ar" "k \<le> length (pages ar)"
  shows "vaddr ar + k * PAGE_SIZE_4K < usize_lim" "k * PAGE_SIZE_4K < usize_lim" "k < usize_lim"
proof -
  have "vaddr ar + length (pages ar) * PAGE_SIZE_4K < 2 ^ 63" "k * PAGE_SIZE_4K \<le> length (pages ar) * PAGE_SIZE_4K"
    using assms by (simp_all add: area_ok_def)
  moreover have "(2 :: nat) ^ 63 < usize_lim"
    by (simp add: usize_lim_def)
  ultimately show l: "vaddr ar + k * PAGE_SIZE_4K < usize_lim" and m: "k * PAGE_SIZE_4K < usize_lim"
    by linarith+
  have "k \<le> k * PAGE_SIZE_4K"
    by (simp add: PAGE_SIZE_4K_def)
  with m show "k < usize_lim"
    by linarith
qed

lemma area_step_facts:
  assumes "area_ok fs ar" "k \<le> length (pages ar)"
  shows "is_aligned_4k (vaddr ar + k * PAGE_SIZE_4K)"
    "usub (vaddr ar + k * PAGE_SIZE_4K) (vaddr ar) = k * PAGE_SIZE_4K"
    "usub (end_va ar) (vaddr ar + k * PAGE_SIZE_4K) = (length (pages ar) - k) * PAGE_SIZE_4K"
    "usub (length (pages ar)) (length (pages ar) - k) = k"
proof -
  have k: "k * PAGE_SIZE_4K \<le> length (pages ar) * PAGE_SIZE_4K"
    using assms(2) by simp
  show "is_aligned_4k (vaddr ar + k * PAGE_SIZE_4K)"
    using assms(1) by (simp add: area_ok_def is_aligned_4k_def)
  show "usub (vaddr ar + k * PAGE_SIZE_4K) (vaddr ar) = k * PAGE_SIZE_4K"
    using area_addr_lt(1) [OF assms] by (simp add: usub_eq)
  have "usub (vaddr ar + length (pages ar) * PAGE_SIZE_4K) (vaddr ar + k * PAGE_SIZE_4K)
      = vaddr ar + length (pages ar) * PAGE_SIZE_4K - (vaddr ar + k * PAGE_SIZE_4K)"
    using k area_addr_lt(1) [OF assms(1) order_refl] by (intro usub_eq) simp_all
  then show "usub (end_va ar) (vaddr ar + k * PAGE_SIZE_4K) = (length (pages ar) - k) * PAGE_SIZE_4K"
    by (simp add: end_va_eq [OF assms(1)] diff_mult_distrib)
  show "usub (length (pages ar)) (length (pages ar) - k) = k"
    using assms(2) area_addr_lt(3) [OF assms(1) order_refl] by (subst usub_eq) simp_all
qed

lemma PAGE_SIZE_pos [simp]: "0 < PAGE_SIZE_4K" "PAGE_SIZE_4K \<noteq> 0"
  by (simp_all add: PAGE_SIZE_4K_def)

lemma seek_area:
  assumes "cap_access acc" "area_ok fs ar" "k \<le> length (pages ar)"
  shows "seek_backend acc fs (backend ar) (swrap (int (k * PAGE_SIZE_4K))) = Some (map_option (advance (k * PAGE_SIZE_4K)) (backend ar))"
  using assms by (intro seek_backend_eq [where n = "length (pages ar) * PAGE_SIZE_4K"]) (auto simp: area_ok_def)

lemma shrink_left_eq:
  assumes "cap_access acc" "area_ok fs ar" "k \<le> length (pages ar)"
  shows "shrink_left acc pg fs (vaddr ar + k * PAGE_SIZE_4K) ar pt =
    map_option (\<lambda>pt'. (sub_area k (length (pages ar)) ar, pt')) (unmap_region pg (vaddr ar) (k * PAGE_SIZE_4K) pt)"
  using assms(3) area_step_facts [OF assms(2,3)]
  by (simp add: shrink_left_def Let_def seek_area [OF assms, simplified] drain_def sub_area_def bind_map_option option.map_comp
      map_option_case split: option.split)

lemma shrink_right_eq:
  assumes "area_ok fs ar" "k \<le> length (pages ar)"
  shows "shrink_right pg (vaddr ar + k * PAGE_SIZE_4K) ar pt =
    map_option (\<lambda>pt'. (sub_area 0 k ar, pt')) (unmap_region pg (vaddr ar + k * PAGE_SIZE_4K) ((length (pages ar) - k) * PAGE_SIZE_4K) pt)"
  using assms(2) area_step_facts [OF assms]
  by (simp add: shrink_right_def Let_def drain_suffix sub_area_0 map_option_case split: option.split)

lemma split_area_eq:
  assumes "cap_access acc" "area_ok fs ar" "k \<le> length (pages ar)"
  shows "split_area acc fs (vaddr ar + k * PAGE_SIZE_4K) ar = Some (sub_area 0 k ar, sub_area k (length (pages ar)) ar)"
  using assms(3) area_step_facts [OF assms(2,3)]
  by (simp add: split_area_def Let_def drain_suffix seek_area [OF assms, simplified] sub_area_0 sub_area_last)

lemma end_va_take:
  assumes "area_ok fs ar" "j \<le> length (pages ar)"
  shows "end_va (ar\<lparr>pages := take j (pages ar)\<rparr>) = vaddr ar + j * PAGE_SIZE_4K"
  using assms(2) area_addr_lt [OF assms] unfolding end_va_def area_size_def
  by (simp add: umul_eq uadd_eq min_absorb2)

lemma usub_mult:
  assumes "area_ok fs ar" "i \<le> j" "j \<le> length (pages ar)"
  shows "usub (vaddr ar + j * PAGE_SIZE_4K) (vaddr ar + i * PAGE_SIZE_4K) = (j - i) * PAGE_SIZE_4K"
    "usub j (j - i) = i"
  using assms(2) area_addr_lt [OF assms(1,3)] by (simp_all add: usub_eq diff_mult_distrib)

lemma split3_eq:
  assumes "cap_access acc" "area_ok fs ar" "0 < i" "i < j" "j < length (pages ar)"
  shows "split3 acc fs (vaddr ar + i * PAGE_SIZE_4K) (vaddr ar + j * PAGE_SIZE_4K) ar =
    Some (sub_area 0 i ar, sub_area i j ar, sub_area j (length (pages ar)) ar)"
proof -
  have le: "i \<le> length (pages ar)" "j \<le> length (pages ar)" "i \<le> j"
    using assms by auto
  note facts_i = area_step_facts [OF assms(2) le(1)] and facts_j = area_step_facts [OF assms(2) le(2)]
  have e1: "end_va ar = vaddr ar + length (pages ar) * PAGE_SIZE_4K"
    by (rule end_va_eq [OF assms(2)])
  have guard: "is_aligned_4k (vaddr ar + i * PAGE_SIZE_4K) \<and> is_aligned_4k (vaddr ar + j * PAGE_SIZE_4K) \<and>
      vaddr ar + i * PAGE_SIZE_4K < vaddr ar + j * PAGE_SIZE_4K \<and> vaddr ar < vaddr ar + i * PAGE_SIZE_4K \<and>
      vaddr ar + j * PAGE_SIZE_4K < end_va ar"
    using assms facts_i facts_j by (simp add: e1)
  have d1: "drain (usub (length (pages ar)) (usub (end_va ar) (vaddr ar + j * PAGE_SIZE_4K) div PAGE_SIZE_4K)) (length (pages ar)) (pages ar)
      = Some (drop j (pages ar), take j (pages ar))"
    using le facts_j by (simp add: drain_suffix)
  have d2: "drain (usub (length (take j (pages ar))) (usub (end_va (ar\<lparr>pages := take j (pages ar)\<rparr>)) (vaddr ar + i * PAGE_SIZE_4K) div PAGE_SIZE_4K))
      (length (take j (pages ar))) (take j (pages ar)) = Some (take (j - i) (drop i (pages ar)), take i (pages ar))"
    using le usub_mult [OF assms(2) le(3,2)]
    by (simp add: end_va_take [OF assms(2) le(2)] min_absorb2 drain_def min_absorb1 take_drop)
  show ?thesis
    unfolding split3_def bind_rassert if_P [OF guard] d1 Option.bind.bind_lunit prod.case Let_def d2
    using facts_i(2) facts_j(2) seek_area [OF assms(1,2) le(1)] seek_area [OF assms(1,2) le(2)]
    by (simp add: sub_area_0 sub_area_record sub_area_last del: of_nat_mult)
qed

lemma remove_mid_eq:
  assumes "cap_access acc" "area_ok fs ar" "i \<le> j" "j \<le> length (pages ar)"
  shows "remove_mid acc pg fs (vaddr ar + i * PAGE_SIZE_4K) (vaddr ar + j * PAGE_SIZE_4K) ar pt =
    map_option (\<lambda>pt'. (sub_area 0 i ar, sub_area j (length (pages ar)) ar, pt'))
      (unmap_region pg (vaddr ar + i * PAGE_SIZE_4K) ((j - i) * PAGE_SIZE_4K) pt)"
proof -
  have le: "i \<le> length (pages ar)"
    using assms by auto
  note facts_i = area_step_facts [OF assms(2) le] and facts_j = area_step_facts [OF assms(2,4)]
  have "drain i j (take j (pages ar)) = Some (take (j - i) (drop i (pages ar)), take i (pages ar))"
    using assms by (simp add: drain_def take_drop min_absorb1 min_absorb2)
  then show ?thesis
    using assms(3,4) facts_i facts_j usub_mult [OF assms(2-4)] seek_area [OF assms(1,2,4)]
    by (simp add: remove_mid_def Let_def drain_suffix sub_area_0 sub_area_last map_option_case del: of_nat_mult split: option.split)
qed

end
