(* ===== verification/Mem_Set.thy ===== *)
theory Mem_Set
  imports Mem_Area
begin

section \<open>The address space of a process (async_mem/src/lib.rs, shared.rs)\<close>

text \<open>
  A memory set holds the areas of a process, ordered by start address, the page table, and the
  shared memory segments that are attached to it. The lowest user address is a parameter, like the
  page table and the allocator.
\<close>

subsection \<open>Shared memory segments\<close>

record SharedMemPermInfo =
  perm_key :: int
  perm_uid :: nat
  perm_gid :: nat
  perm_cuid :: nat
  perm_cgid :: nat
  perm_mode :: nat

record SharedMemInfo =
  info_perm :: SharedMemPermInfo
  info_size :: nat
  a_time :: nat
  d_time :: nat
  c_time :: nat
  c_pid :: nat
  l_pid :: nat

record SharedMem =
  sm_paddr :: nat
  sm_size :: nat
  sm_info :: SharedMemInfo

definition shared_mem_info_new :: "int \<Rightarrow> nat \<Rightarrow> nat \<Rightarrow> nat \<Rightarrow> nat \<Rightarrow> nat \<Rightarrow> nat \<Rightarrow> SharedMemInfo" where
  "shared_mem_info_new key sz pid uid gid mode now =
     \<lparr>info_perm = \<lparr>perm_key = key, perm_uid = uid, perm_gid = gid, perm_cuid = uid, perm_cgid = gid, perm_mode = mode\<rparr>,
      info_size = sz, a_time = 0, d_time = 0, c_time = now, c_pid = pid, l_pid = 0\<rparr>"

text \<open>\<open>galloc n\<close> is \<open>GlobalPage::alloc_contiguous\<close>: the physical address of \<open>n\<close> pages.\<close>

definition shared_mem_try_new ::
  "(nat \<Rightarrow> nat ax_result) \<Rightarrow> nat \<Rightarrow> int \<Rightarrow> nat \<Rightarrow> nat \<Rightarrow> nat \<Rightarrow> nat \<Rightarrow> nat \<Rightarrow> SharedMem ax_result" where
  "shared_mem_try_new galloc now key sz pid uid gid mode =
     (let num_pages = usub (uadd sz PAGE_SIZE_4K) 1 div PAGE_SIZE_4K
      in case galloc num_pages of
           Inl e \<Rightarrow> Inl e
         | Inr p \<Rightarrow> (let sz' = umul num_pages PAGE_SIZE_4K
                    in Inr \<lparr>sm_paddr = p, sm_size = sz', sm_info = shared_mem_info_new key sz' pid uid gid mode now\<rparr>))"

record shm_global =
  SHMID :: int
  SHARED_MEMS :: "(int \<times> SharedMem) list"
  KEY_TO_SHMID :: "(int \<times> int) list"

text \<open>The identifier counter is an \<open>i32\<close>.\<close>

definition i32_wrap :: "int \<Rightarrow> int" where
  "i32_wrap x = (x + 2 ^ 31) mod 2 ^ 32 - 2 ^ 31"

definition create_shared_mem ::
  "(nat \<Rightarrow> nat ax_result) \<Rightarrow> nat \<Rightarrow> int \<Rightarrow> nat \<Rightarrow> nat \<Rightarrow> nat \<Rightarrow> nat \<Rightarrow> nat \<Rightarrow> shm_global \<Rightarrow> (int \<times> SharedMem) ax_result \<times> shm_global" where
  "create_shared_mem galloc now key sz pid uid gid mode g =
     (let shmid = SHMID g;
          g' = g\<lparr>SHMID := i32_wrap (shmid + 1), KEY_TO_SHMID := bt_insert key shmid (KEY_TO_SHMID g)\<rparr>
      in case shared_mem_try_new galloc now key sz pid uid gid mode of
           Inl e \<Rightarrow> (Inl e, g')
         | Inr mem \<Rightarrow> (Inr (shmid, mem), g'))"

definition add_shared_mem :: "int \<Rightarrow> SharedMem \<Rightarrow> shm_global \<Rightarrow> shm_global option" where
  "add_shared_mem shmid mem g =
     (if map_of (SHARED_MEMS g) shmid \<noteq> None then None
      else Some (g\<lparr>SHARED_MEMS := bt_insert shmid mem (SHARED_MEMS g)\<rparr>))"

definition get_shared_mem :: "int \<Rightarrow> shm_global \<Rightarrow> SharedMem option" where
  "get_shared_mem shmid g = map_of (SHARED_MEMS g) shmid"

subsection \<open>Memory sets\<close>

record 'pt MemorySet =
  page_table :: 'pt
  owned_mem :: "(nat \<times> MapArea) list"
  private_mem :: "(int \<times> SharedMem) list"
  attached_mem :: "(nat \<times> MappingFlags \<times> SharedMem) list"

definition new_empty :: "'pt \<Rightarrow> 'pt MemorySet" where
  "new_empty pt = \<lparr>page_table = pt, owned_mem = [], private_mem = [], attached_mem = []\<rparr>"

text \<open>The kernel regions are (physical address, size, flags, virtual address).\<close>

fun map_kernel :: "'pt paging \<Rightarrow> (nat \<times> nat \<times> MappingFlags \<times> nat) list \<Rightarrow> 'pt \<Rightarrow> 'pt option" where
  "map_kernel pg [] pt = Some pt"
| "map_kernel pg ((pa, sz, fl, va) # rs) pt = Option.bind (map_region pg va pa sz fl True pt) (map_kernel pg rs)"

definition new_with_kernel_mapped ::
  "'pt paging \<Rightarrow> (nat \<times> nat \<times> MappingFlags \<times> nat) list \<Rightarrow> 'pt \<Rightarrow> 'pt MemorySet option" where
  "new_with_kernel_mapped pg regions pt = map_option new_empty (map_kernel pg regions pt)"

definition max_va :: "'pt MemorySet \<Rightarrow> nat" where
  "max_va ms = (case rev (owned_mem ms) of [] \<Rightarrow> 0 | (_, ar) # _ \<Rightarrow> end_va ar)"

text \<open>\<open>BTreeMap::insert\<close> under \<open>assert!(\<dots>.is_none())\<close>.\<close>

fun insert_all :: "MapArea list \<Rightarrow> (nat \<times> MapArea) list \<Rightarrow> (nat \<times> MapArea) list option" where
  "insert_all [] om = Some om"
| "insert_all (ar # ars) om =
     (if map_of om (vaddr ar) \<noteq> None then None else insert_all ars (bt_insert (vaddr ar) ar om))"

definition num_pages_of :: "nat \<Rightarrow> nat" where
  "num_pages_of sz = usub (uadd sz PAGE_SIZE_4K) 1 div PAGE_SIZE_4K"

definition new_region ::
  "'pt paging \<Rightarrow> contiguous \<Rightarrow> nat \<Rightarrow> nat \<Rightarrow> bool \<Rightarrow> MappingFlags \<Rightarrow> byte list option \<Rightarrow> MemBackend option
     \<Rightarrow> 'pt MemorySet \<Rightarrow> machine \<Rightarrow> ('pt MemorySet \<times> machine) option" where
  "new_region pg contig va sz shr flags data be ms m = do {
     let num_pages = num_pages_of sz;
     (ar, pt, m') \<leftarrow> (case data of
         Some d \<Rightarrow> (case new_alloc pg contig va num_pages flags (Some d) be (page_table ms) m of
             Some (Inr ar, pt, m') \<Rightarrow> Some (ar, pt, m')
           | _ \<Rightarrow> None)
       | None \<Rightarrow> map_option (\<lambda>(ar, pt). (ar, pt, m)) (new_lazy pg va num_pages flags be (page_table ms)));
     let ar' = (if shr then set_shared shr ar else ar);
     om \<leftarrow> insert_all [ar'] (owned_mem ms);
     Some (ms\<lparr>page_table := pt, owned_mem := om\<rparr>, m')
   }"

text \<open>The overlapped areas are taken out, changed one by one, and what is left of them is put back.\<close>

fun rewrite_areas ::
  "(MapArea \<Rightarrow> 'pt \<Rightarrow> (MapArea list \<times> 'pt) option) \<Rightarrow> (nat \<times> MapArea) list \<Rightarrow> (nat \<times> MapArea) list \<times> 'pt
     \<Rightarrow> ((nat \<times> MapArea) list \<times> 'pt) option" where
  "rewrite_areas step [] (om, pt) = Some (om, pt)"
| "rewrite_areas step ((_, ar) # rest) (om, pt) = do {
     (ars, pt') \<leftarrow> step ar pt;
     om' \<leftarrow> insert_all ars om;
     rewrite_areas step rest (om', pt')
   }"

definition rewrite_overlapped ::
  "(MapArea \<Rightarrow> 'pt \<Rightarrow> (MapArea list \<times> 'pt) option) \<Rightarrow> nat \<Rightarrow> nat \<Rightarrow> 'pt MemorySet \<Rightarrow> 'pt MemorySet option" where
  "rewrite_overlapped step start end1 ms =
     (let overlapped = filter (\<lambda>(_, ar). overlap_with ar start end1) (owned_mem ms);
          prev = filter (\<lambda>(_, ar). \<not> overlap_with ar start end1) (owned_mem ms)
      in map_option (\<lambda>(om, pt). ms\<lparr>owned_mem := om, page_table := pt\<rparr>)
           (rewrite_areas step overlapped (prev, page_table ms)))"

definition split_one ::
  "access \<Rightarrow> 'pt paging \<Rightarrow> vfs \<Rightarrow> nat \<Rightarrow> nat \<Rightarrow> MapArea \<Rightarrow> 'pt \<Rightarrow> (MapArea list \<times> 'pt) option" where
  "split_one acc pg fs start end1 ar pt =
     (if contained_in ar start end1 then map_option (\<lambda>(_, pt'). ([], pt')) (dealloc pg ar pt)
      else if strict_contain ar start end1 then
        map_option (\<lambda>(l, r, pt'). ([r, l], pt')) (remove_mid acc pg fs start end1 ar pt)
      else if start \<le> vaddr ar \<and> vaddr ar < end1 then
        map_option (\<lambda>(ar', pt'). ([ar'], pt')) (shrink_left acc pg fs end1 ar pt)
      else map_option (\<lambda>(ar', pt'). ([ar'], pt')) (shrink_right pg start ar pt))"

definition split_for_area ::
  "access \<Rightarrow> 'pt paging \<Rightarrow> vfs \<Rightarrow> nat \<Rightarrow> nat \<Rightarrow> 'pt MemorySet \<Rightarrow> 'pt MemorySet option" where
  "split_for_area acc pg fs start sz ms =
     (let end1 = uadd start sz
      in if is_aligned_4k end1 then rewrite_overlapped (split_one acc pg fs start end1) start end1 ms else None)"

text \<open>The search starts at \<open>last_end\<close> and looks at the gaps in front of each segment in order.\<close>

fun first_gap :: "nat \<Rightarrow> nat \<Rightarrow> (nat \<times> nat) list \<Rightarrow> nat option" where
  "first_gap last_end sz [] = None"
| "first_gap last_end sz ((s, e) # segs) = (if uadd last_end sz \<le> s then Some last_end else first_gap e sz segs)"

definition find_free_area :: "nat \<Rightarrow> nat \<Rightarrow> nat \<Rightarrow> 'pt MemorySet \<Rightarrow> nat option" where
  "find_free_area user_start hint sz ms =
     first_gap (max hint user_start) sz
       (sort (map (\<lambda>(s, ar). (s, uadd s (area_size ar))) (owned_mem ms)
              @ map (\<lambda>(s, _, mem). (s, uadd s (sm_size mem))) (attached_mem ms)))"

definition page_round :: "nat \<Rightarrow> nat" where
  "page_round sz = umul (num_pages_of sz) PAGE_SIZE_4K"

definition mmap ::
  "access \<Rightarrow> 'pt paging \<Rightarrow> contiguous \<Rightarrow> nat \<Rightarrow> nat \<Rightarrow> nat \<Rightarrow> MappingFlags \<Rightarrow> bool \<Rightarrow> bool \<Rightarrow> MemBackend option
     \<Rightarrow> 'pt MemorySet \<Rightarrow> machine \<Rightarrow> (nat ax_result \<times> 'pt MemorySet \<times> machine) option" where
  "mmap acc pg contig user_start start size0 flags shr fixed be ms m =
     (let sz = page_round size0 in
      if fixed then do {
        ms1 \<leftarrow> split_for_area acc pg (mfs m) start sz ms;
        (ms2, m') \<leftarrow> new_region pg contig start sz shr flags None be ms1 m;
        Some (Inr start, ms2, m')
      }
      else (case find_free_area user_start start sz ms of
          None \<Rightarrow> Some (Inl NoMemory, ms, m)
        | Some a \<Rightarrow> do {
            (ms2, m') \<leftarrow> new_region pg contig a sz shr flags None be ms m;
            Some (Inr a, ms2, m')
          }))"

definition munmap :: "access \<Rightarrow> 'pt paging \<Rightarrow> vfs \<Rightarrow> nat \<Rightarrow> nat \<Rightarrow> 'pt MemorySet \<Rightarrow> 'pt MemorySet option" where
  "munmap acc pg fs start size0 ms = split_for_area acc pg fs start (page_round size0) ms"

definition protect_one ::
  "access \<Rightarrow> 'pt paging \<Rightarrow> vfs \<Rightarrow> nat \<Rightarrow> nat \<Rightarrow> MappingFlags \<Rightarrow> MapArea \<Rightarrow> 'pt \<Rightarrow> (MapArea list \<times> 'pt) option" where
  "protect_one acc pg fs start end1 flags ar pt =
     (if contained_in ar start end1 then map_option (\<lambda>(ar', pt'). ([ar'], pt')) (update_flags pg flags ar pt)
      else if strict_contain ar start end1 then do {
        (l, mid, r) \<leftarrow> split3 acc fs start end1 ar;
        (mid', pt') \<leftarrow> update_flags pg flags mid pt;
        Some ([mid', r, l], pt')
      }
      else if start \<le> vaddr ar \<and> vaddr ar < end1 then do {
        (l, r) \<leftarrow> split_area acc fs end1 ar;
        (l', pt') \<leftarrow> update_flags pg flags l pt;
        Some ([r, l'], pt')
      }
      else do {
        (l, r) \<leftarrow> split_area acc fs start ar;
        (r', pt') \<leftarrow> update_flags pg flags r pt;
        Some ([r', l], pt')
      })"

definition mprotect ::
  "access \<Rightarrow> 'pt paging \<Rightarrow> vfs \<Rightarrow> nat \<Rightarrow> nat \<Rightarrow> MappingFlags \<Rightarrow> 'pt MemorySet \<Rightarrow> 'pt MemorySet option" where
  "mprotect acc pg fs start sz flags ms =
     (let end1 = uadd start sz
      in if is_aligned_4k end1 then rewrite_overlapped (protect_one acc pg fs start end1 flags) start end1 ms else None)"

subsection \<open>Writing back\<close>

fun sync_pages :: "access \<Rightarrow> nat \<Rightarrow> nat \<Rightarrow> nat list \<Rightarrow> MapArea \<Rightarrow> machine \<Rightarrow> (MapArea \<times> machine) option" where
  "sync_pages acc start end1 [] ar m = Some (ar, m)"
| "sync_pages acc start end1 (i # is) ar m =
     (let page_vaddr = uadd (vaddr ar) (umul i PAGE_SIZE_4K)
      in if start \<le> page_vaddr \<and> page_vaddr < end1 then
           Option.bind (sync_page_with_backend acc i ar m) (\<lambda>(ar', m'). sync_pages acc start end1 is ar' m')
         else sync_pages acc start end1 is ar m)"

fun msync_areas ::
  "access \<Rightarrow> nat \<Rightarrow> nat \<Rightarrow> (nat \<times> MapArea) list \<Rightarrow> machine \<Rightarrow> ((nat \<times> MapArea) list \<times> machine) option" where
  "msync_areas acc start end1 [] m = Some ([], m)"
| "msync_areas acc start end1 ((k, ar) # om) m = do {
     (ar', m') \<leftarrow> (if backend ar \<noteq> None \<and> overlap_with ar start end1
                  then sync_pages acc start end1 [0..<length (pages ar)] ar m else Some (ar, m));
     (om', m'') \<leftarrow> msync_areas acc start end1 om m';
     Some ((k, ar') # om', m'')
   }"

definition msync :: "access \<Rightarrow> nat \<Rightarrow> nat \<Rightarrow> 'pt MemorySet \<Rightarrow> machine \<Rightarrow> ('pt MemorySet \<times> machine) option" where
  "msync acc start sz ms m =
     map_option (\<lambda>(om, m'). (ms\<lparr>owned_mem := om\<rparr>, m')) (msync_areas acc start (uadd start sz) (owned_mem ms) m)"

subsection \<open>Page faults\<close>

definition area_at :: "nat \<Rightarrow> (nat \<times> MapArea) list \<Rightarrow> (nat \<times> MapArea) option" where
  "area_at addr om = List.find (\<lambda>(_, ar). vaddr ar \<le> addr \<and> addr < end_va ar) om"

definition set_area :: "nat \<Rightarrow> MapArea \<Rightarrow> (nat \<times> MapArea) list \<Rightarrow> (nat \<times> MapArea) list" where
  "set_area k ar om = map (\<lambda>(k', ar'). if k' = k then (k', ar) else (k', ar')) om"

definition ms_handle_page_fault ::
  "access \<Rightarrow> 'pt paging \<Rightarrow> nat \<Rightarrow> MappingFlags \<Rightarrow> 'pt MemorySet \<Rightarrow> machine \<Rightarrow> (unit ax_result \<times> 'pt MemorySet \<times> machine) option" where
  "ms_handle_page_fault acc pg addr flags ms m =
     (case area_at addr (owned_mem ms) of
        None \<Rightarrow> Some (Inl BadAddress, ms, m)
      | Some (k, ar) \<Rightarrow>
          (case handle_page_fault acc pg addr flags ar (page_table ms) m of
             None \<Rightarrow> None
           | Some (ok, ar', pt, m') \<Rightarrow>
               Some (if ok then Inr () else Inl BadAddress,
                 ms\<lparr>owned_mem := set_area k ar' (owned_mem ms), page_table := pt\<rparr>, m')))"

datatype paging_error = PtNoMemory | PtNotMapped

definition check_page_table_entry_validity :: "'pt paging \<Rightarrow> nat \<Rightarrow> 'pt \<Rightarrow> paging_error + unit" where
  "check_page_table_entry_validity pg addr pt =
     (case pt_entry pg addr pt of
        None \<Rightarrow> Inl PtNoMemory
      | Some (present, _) \<Rightarrow> if present then Inr () else Inl PtNotMapped)"

definition manual_alloc_for_lazy ::
  "access \<Rightarrow> 'pt paging \<Rightarrow> nat \<Rightarrow> 'pt MemorySet \<Rightarrow> machine \<Rightarrow> (unit ax_result \<times> 'pt MemorySet \<times> machine) option" where
  "manual_alloc_for_lazy acc pg addr ms m =
     (case area_at addr (owned_mem ms) of
        None \<Rightarrow> Some (Inl InvalidInput, ms, m)
      | Some (k, ar) \<Rightarrow>
          (case check_page_table_entry_validity pg addr (page_table ms) of
             Inl PtNoMemory \<Rightarrow> Some (Inl InvalidInput, ms, m)
           | Inr _ \<Rightarrow> Some (Inr (), ms, m)
           | Inl PtNotMapped \<Rightarrow>
               (case pt_entry pg addr (page_table ms) of
                  None \<Rightarrow> None
                | Some (_, flags) \<Rightarrow>
                    (case handle_page_fault acc pg addr flags ar (page_table ms) m of
                       None \<Rightarrow> None
                     | Some (ok, ar', pt, m') \<Rightarrow>
                         Some (if ok then Inr () else Inl BadAddress,
                           ms\<lparr>owned_mem := set_area k ar' (owned_mem ms), page_table := pt\<rparr>, m')))))"

text \<open>\<open>(start..=end).step_by(PAGE_SIZE_4K)\<close>\<close>

definition page_range :: "nat \<Rightarrow> nat \<Rightarrow> nat list" where
  "page_range a b = (if a \<le> b then map (\<lambda>i. a + i * PAGE_SIZE_4K) [0..<Suc ((b - a) div PAGE_SIZE_4K)] else [])"

fun alloc_pages ::
  "access \<Rightarrow> 'pt paging \<Rightarrow> nat list \<Rightarrow> 'pt MemorySet \<Rightarrow> machine \<Rightarrow> (unit ax_result \<times> 'pt MemorySet \<times> machine) option" where
  "alloc_pages acc pg [] ms m = Some (Inr (), ms, m)"
| "alloc_pages acc pg (a # as) ms m =
     (case manual_alloc_for_lazy acc pg a ms m of
        None \<Rightarrow> None
      | Some (Inl e, ms', m') \<Rightarrow> Some (Inl e, ms', m')
      | Some (Inr _, ms', m') \<Rightarrow> alloc_pages acc pg as ms' m')"

definition manual_alloc_range_for_lazy ::
  "access \<Rightarrow> 'pt paging \<Rightarrow> nat \<Rightarrow> nat \<Rightarrow> 'pt MemorySet \<Rightarrow> machine \<Rightarrow> (unit ax_result \<times> 'pt MemorySet \<times> machine) option" where
  "manual_alloc_range_for_lazy acc pg start end1 ms m =
     (if end1 < start then Some (Inl InvalidInput, ms, m)
      else alloc_pages acc pg (page_range (align_down_4k start) (align_down_4k end1)) ms m)"

definition manual_alloc_type_for_lazy ::
  "access \<Rightarrow> 'pt paging \<Rightarrow> nat \<Rightarrow> nat \<Rightarrow> 'pt MemorySet \<Rightarrow> machine \<Rightarrow> (unit ax_result \<times> 'pt MemorySet \<times> machine) option" where
  "manual_alloc_type_for_lazy acc pg size_of_t obj ms m =
     manual_alloc_range_for_lazy acc pg obj (usub (uadd obj size_of_t) 1) ms m"

subsection \<open>Other operations\<close>

fun dealloc_all :: "'pt paging \<Rightarrow> (nat \<times> MapArea) list \<Rightarrow> 'pt \<Rightarrow> 'pt option" where
  "dealloc_all pg [] pt = Some pt"
| "dealloc_all pg ((_, ar) # om) pt = Option.bind (dealloc pg ar pt) (\<lambda>(_, pt'). dealloc_all pg om pt')"

definition unmap_user_areas :: "'pt paging \<Rightarrow> 'pt MemorySet \<Rightarrow> 'pt MemorySet option" where
  "unmap_user_areas pg ms = map_option (\<lambda>pt. ms\<lparr>page_table := pt, owned_mem := []\<rparr>) (dealloc_all pg (owned_mem ms) (page_table ms))"

definition map_page_without_alloc :: "'pt paging \<Rightarrow> nat \<Rightarrow> nat \<Rightarrow> MappingFlags \<Rightarrow> 'pt MemorySet \<Rightarrow> unit ax_result \<times> 'pt MemorySet" where
  "map_page_without_alloc pg va paddr flags ms =
     (case map_region pg va paddr PAGE_SIZE_4K flags False (page_table ms) of
        None \<Rightarrow> (Inl InvalidInput, ms)
      | Some pt \<Rightarrow> (Inr (), ms\<lparr>page_table := pt\<rparr>))"

definition map_attach_page_without_alloc ::
  "'pt paging \<Rightarrow> nat \<Rightarrow> nat \<Rightarrow> nat \<Rightarrow> MappingFlags \<Rightarrow> 'pt MemorySet \<Rightarrow> 'pt MemorySet option" where
  "map_attach_page_without_alloc pg va paddr num_pages flags ms = do {
     (ar, pt) \<leftarrow> new_without_alloc pg va paddr num_pages flags (page_table ms);
     Some (ms\<lparr>page_table := pt, owned_mem := bt_insert (vaddr ar) ar (owned_mem ms)\<rparr>)
   }"

definition add_private_shared_mem :: "int \<Rightarrow> SharedMem \<Rightarrow> 'pt MemorySet \<Rightarrow> 'pt MemorySet option" where
  "add_private_shared_mem shmid mem ms =
     (if map_of (private_mem ms) shmid \<noteq> None then None
      else Some (ms\<lparr>private_mem := bt_insert shmid mem (private_mem ms)\<rparr>))"

definition get_private_shared_mem :: "int \<Rightarrow> 'pt MemorySet \<Rightarrow> SharedMem option" where
  "get_private_shared_mem shmid ms = map_of (private_mem ms) shmid"

definition attach_shared_mem :: "'pt paging \<Rightarrow> SharedMem \<Rightarrow> nat \<Rightarrow> MappingFlags \<Rightarrow> 'pt MemorySet \<Rightarrow> 'pt MemorySet option" where
  "attach_shared_mem pg mem addr flags ms = do {
     pt \<leftarrow> map_region pg addr (sm_paddr mem) (sm_size mem) flags False (page_table ms);
     Some (ms\<lparr>page_table := pt, attached_mem := attached_mem ms @ [(addr, flags, mem)]\<rparr>)
   }"

fun attach_all :: "'pt paging \<Rightarrow> (nat \<times> MappingFlags \<times> SharedMem) list \<Rightarrow> 'pt MemorySet \<Rightarrow> 'pt MemorySet option" where
  "attach_all pg [] ms = Some ms"
| "attach_all pg ((a, fl, mem) # rest) ms = Option.bind (attach_shared_mem pg mem a fl ms) (attach_all pg rest)"

text \<open>Cloning for a child process: the areas are cloned in order; an error ends it, with what has
  been faulted in for the parent kept.\<close>

fun clone_areas ::
  "access \<Rightarrow> 'pt paging \<Rightarrow> contiguous \<Rightarrow> (nat \<times> MapArea) list \<Rightarrow> 'pt \<Rightarrow> 'pt \<Rightarrow> machine
     \<Rightarrow> ((nat \<times> MapArea) list ax_result \<times> (nat \<times> MapArea) list \<times> 'pt \<times> 'pt \<times> machine) option" where
  "clone_areas acc pg contig [] cpt ppt m = Some (Inr [], [], cpt, ppt, m)"
| "clone_areas acc pg contig ((k, ar) # om) cpt ppt m =
     (case clone_alloc acc pg contig ar cpt ppt m of
        None \<Rightarrow> None
      | Some (Inl e, ar', cpt', ppt', m') \<Rightarrow> Some (Inl e, (k, ar') # om, cpt', ppt', m')
      | Some (Inr new_area, ar', cpt', ppt', m') \<Rightarrow>
          (case clone_areas acc pg contig om cpt' ppt' m' of
             None \<Rightarrow> None
           | Some (Inl e, om', cpt'', ppt'', m'') \<Rightarrow> Some (Inl e, (k, ar') # om', cpt'', ppt'', m'')
           | Some (Inr new_om, om', cpt'', ppt'', m'') \<Rightarrow>
               Some (Inr ((k, new_area) # new_om), (k, ar') # om', cpt'', ppt'', m'')))"

definition clone_or_err ::
  "access \<Rightarrow> 'pt paging \<Rightarrow> contiguous \<Rightarrow> (nat \<times> nat \<times> MappingFlags \<times> nat) list \<Rightarrow> 'pt \<Rightarrow> 'pt MemorySet \<Rightarrow> machine
     \<Rightarrow> ('pt MemorySet ax_result \<times> 'pt MemorySet \<times> machine) option" where
  "clone_or_err acc pg contig regions empty_pt ms m = do {
     pt \<leftarrow> map_kernel pg regions empty_pt;
     (r, om, cpt, ppt, m') \<leftarrow> clone_areas acc pg contig (owned_mem ms) pt (page_table ms) m;
     let ms' = ms\<lparr>owned_mem := om, page_table := ppt\<rparr>;
     (case r of
        Inl e \<Rightarrow> Some (Inl e, ms', m')
      | Inr new_om \<Rightarrow> do {
          child \<leftarrow> attach_all pg (attached_mem ms)
            \<lparr>page_table = cpt, owned_mem = new_om, private_mem = private_mem ms, attached_mem = []\<rparr>;
          Some (Inr child, ms', m')
        })
   }"

subsection \<open>Moving a mapping\<close>

text \<open>The pages that are there are copied through the addresses of the process, which the page
  table translates.\<close>

fun move_pages ::
  "access \<Rightarrow> 'pt paging \<Rightarrow> nat \<Rightarrow> nat \<Rightarrow> nat list \<Rightarrow> 'pt MemorySet \<Rightarrow> machine \<Rightarrow> (bool \<times> 'pt MemorySet \<times> machine) option" where
  "move_pages acc pg start old_page_start [] ms m = Some (True, ms, m)"
| "move_pages acc pg start old_page_start (addr # as) ms m =
     (case check_page_table_entry_validity pg addr (page_table ms) of
        Inl PtNoMemory \<Rightarrow> Some (False, ms, m)
      | Inl PtNotMapped \<Rightarrow> move_pages acc pg start old_page_start as ms m
      | Inr _ \<Rightarrow>
          (let page_start = usub (uadd start addr) old_page_start in
           case manual_alloc_for_lazy acc pg page_start ms m of
             None \<Rightarrow> None
           | Some (Inl _, ms', m') \<Rightarrow> move_pages acc pg start old_page_start as ms' m'
           | Some (Inr _, ms', m') \<Rightarrow>
               (case (pt_query pg addr (page_table ms'), pt_query pg page_start (page_table ms')) of
                  (Some (p, _), Some (q, _)) \<Rightarrow>
                    move_pages acc pg start old_page_start as ms' (m'\<lparr>phys := (phys m')(q := phys m' p)\<rparr>)
                | _ \<Rightarrow> None)))"

definition mremap ::
  "access \<Rightarrow> 'pt paging \<Rightarrow> contiguous \<Rightarrow> nat \<Rightarrow> MappingFlags \<Rightarrow> nat \<Rightarrow> nat \<Rightarrow> nat \<Rightarrow> 'pt MemorySet \<Rightarrow> machine
     \<Rightarrow> (int \<times> 'pt MemorySet \<times> machine) option" where
  "mremap acc pg contig user_start user_rw old_start old_size new_size ms m =
     (case find_free_area user_start old_start new_size ms of
        None \<Rightarrow> Some (-1, ms, m)
      | Some start \<Rightarrow> do {
          let old_page_start = align_down_4k old_start;
          let old_page_end = align_down_4k (usub (uadd old_start old_size) 1);
          (ms1, m1) \<leftarrow> new_region pg contig start new_size False user_rw None None ms m;
          _ \<leftarrow> rassert (is_aligned_4k (uadd start new_size));
          (ok, ms2, m2) \<leftarrow> move_pages acc pg start old_page_start (page_range old_page_start old_page_end) ms1 m1;
          if \<not> ok then Some (-1, ms2, m2)
          else do {
            ms3 \<leftarrow> munmap acc pg (mfs m2) old_start old_size ms2;
            Some (swrap (int start), ms3, m2)
          }
        })"

end
