(* ===== verification/Mem_Rewrite.thy ===== *)
theory Mem_Rewrite
  imports Mem_Set
begin

section \<open>Rewriting the areas of an address space\<close>

text \<open>
  \<open>munmap\<close> and \<open>mprotect\<close> take the areas that overlap a range out of the map, cut each of them, and put
  the parts back. The locale \<open>area_rewrite\<close> states what one such step has to do for its area; the
  lemmas inside it show what the whole loop then does to the address space. It is interpreted with
  the steps of \<open>munmap\<close> and of \<open>mprotect\<close>.
\<close>

subsection \<open>What is relied on of the page table\<close>

type_synonym pte = "nat option \<times> MappingFlags"

definition page_addrs :: "nat \<Rightarrow> nat \<Rightarrow> nat set" where
  "page_addrs v n = (\<lambda>i. v + i * PAGE_SIZE_4K) ` {..<n}"

text \<open>\<open>view\<close> is what a page table says about a page: its physical page, if it is present, and flags.
  Unmapping and updating a region whose pages all have entries succeed and change exactly these
  entries; mapping a region as faulting succeeds when none of its pages has an entry.\<close>

definition paging_laws :: "'pt paging \<Rightarrow> ('pt \<Rightarrow> nat \<Rightarrow> pte option) \<Rightarrow> bool" where
  "paging_laws pg view \<longleftrightarrow> (\<forall>v n fl pt. is_aligned_4k v \<and> v + n * PAGE_SIZE_4K < usize_lim \<longrightarrow>
     ((\<forall>x \<in> page_addrs v n. view pt x \<noteq> None) \<longrightarrow>
        (\<exists>pt'. unmap_region pg v (n * PAGE_SIZE_4K) pt = Some pt' \<and>
           view pt' = (\<lambda>x. if x \<in> page_addrs v n then None else view pt x)) \<and>
        (\<exists>pt'. update_region pg v (n * PAGE_SIZE_4K) fl pt = Some pt' \<and>
           view pt' = (\<lambda>x. if x \<in> page_addrs v n then map_option (\<lambda>(p, _). (p, fl)) (view pt x) else view pt x))) \<and>
     ((\<forall>x \<in> page_addrs v n. view pt x = None) \<longrightarrow>
        (\<exists>pt'. map_fault_region pg v (n * PAGE_SIZE_4K) fl pt = Some pt' \<and>
           view pt' = (\<lambda>x. if x \<in> page_addrs v n then Some (None, fl) else view pt x))))"

text \<open>The entry of a page has the flags of the area, and its physical page once there is one.\<close>

definition coherent :: "page_info \<Rightarrow> pte \<Rightarrow> bool" where
  "coherent p e \<longleftrightarrow> snd e = fst (snd (snd p)) \<and> (fst p \<noteq> None \<longrightarrow> fst e = fst p)"

definition pt_covers :: "('pt \<Rightarrow> nat \<Rightarrow> pte option) \<Rightarrow> 'pt \<Rightarrow> (nat \<times> page_info) set \<Rightarrow> bool" where
  "pt_covers view pt S \<longleftrightarrow> (\<forall>q \<in> S. \<exists>e. view pt (fst q) = Some e \<and> coherent (snd q) e)"

lemma pt_covers_Un [simp]: "pt_covers view pt (S \<union> S') \<longleftrightarrow> pt_covers view pt S \<and> pt_covers view pt S'"
  by (auto simp: pt_covers_def)

lemma pt_covers_mono: "pt_covers view pt S \<Longrightarrow> S' \<subseteq> S \<Longrightarrow> pt_covers view pt S'"
  by (auto simp: pt_covers_def)

lemma pt_covers_cong:
  "pt_covers view pt S \<Longrightarrow> (\<And>x. x \<in> fst ` S \<Longrightarrow> view pt' x = view pt x) \<Longrightarrow> pt_covers view pt' S"
  by (auto simp: pt_covers_def)

lemma fst_area_pages: "fst ` area_pages ar = page_addrs (vaddr ar) (length (pages ar))"
  by (auto simp: area_pages_def page_addrs_def image_image)

lemma fst_sub_pages:
  "a \<le> b \<Longrightarrow> b \<le> length (pages ar) \<Longrightarrow>
     fst ` area_pages (sub_area a b ar) = page_addrs (vaddr ar + a * PAGE_SIZE_4K) (b - a)"
  by (simp add: fst_area_pages)

lemma sub_pages_subset: "a \<le> b \<Longrightarrow> b \<le> length (pages ar) \<Longrightarrow> area_pages (sub_area a b ar) \<subseteq> area_pages ar"
  by (auto simp: area_pages_sub)

lemma covers_mapped: "pt_covers view pt S \<Longrightarrow> x \<in> fst ` S \<Longrightarrow> view pt x \<noteq> None"
  by (auto simp: pt_covers_def)

lemma paging_sub:
  assumes "paging_laws pg view" "area_ok fs ar" "a \<le> b" "b \<le> length (pages ar)" "pt_covers view pt (area_pages ar)"
  defines "X \<equiv> fst ` area_pages (sub_area a b ar)"
  shows "\<exists>pt'. unmap_region pg (vaddr ar + a * PAGE_SIZE_4K) ((b - a) * PAGE_SIZE_4K) pt = Some pt' \<and>
      view pt' = (\<lambda>x. if x \<in> X then None else view pt x)"
    and "\<exists>pt'. update_region pg (vaddr ar + a * PAGE_SIZE_4K) ((b - a) * PAGE_SIZE_4K) fl pt = Some pt' \<and>
      view pt' = (\<lambda>x. if x \<in> X then map_option (\<lambda>(p, _). (p, fl)) (view pt x) else view pt x)"
proof -
  have X: "X = page_addrs (vaddr ar + a * PAGE_SIZE_4K) (b - a)"
    unfolding X_def by (rule fst_sub_pages [OF assms(3,4)])
  have "vaddr ar + a * PAGE_SIZE_4K + (b - a) * PAGE_SIZE_4K = vaddr ar + b * PAGE_SIZE_4K"
    using assms(3) by (simp add: diff_mult_distrib)
  then have lim: "is_aligned_4k (vaddr ar + a * PAGE_SIZE_4K) \<and> vaddr ar + a * PAGE_SIZE_4K + (b - a) * PAGE_SIZE_4K < usize_lim"
    using area_step_facts(1) [OF assms(2), of a] area_addr_lt(1) [OF assms(2,4)] assms(3,4) by simp
  have m: "\<forall>x \<in> page_addrs (vaddr ar + a * PAGE_SIZE_4K) (b - a). view pt x \<noteq> None"
    using covers_mapped [OF pt_covers_mono [OF assms(5) sub_pages_subset [OF assms(3,4)]]] unfolding X [symmetric] X_def
    by blast
  note law = assms(1) [unfolded paging_laws_def, rule_format, OF lim]
  from law m show "\<exists>pt'. unmap_region pg (vaddr ar + a * PAGE_SIZE_4K) ((b - a) * PAGE_SIZE_4K) pt = Some pt' \<and>
      view pt' = (\<lambda>x. if x \<in> X then None else view pt x)"
    and "\<exists>pt'. update_region pg (vaddr ar + a * PAGE_SIZE_4K) ((b - a) * PAGE_SIZE_4K) fl pt = Some pt' \<and>
      view pt' = (\<lambda>x. if x \<in> X then map_option (\<lambda>(p, _). (p, fl)) (view pt x) else view pt x)"
    unfolding X by blast+
qed

subsection \<open>Disjoint areas\<close>

definition area_range :: "MapArea \<Rightarrow> nat set" where
  "area_range ar = {vaddr ar..<vaddr ar + length (pages ar) * PAGE_SIZE_4K}"

definition apart :: "MapArea \<Rightarrow> MapArea \<Rightarrow> bool" where
  "apart a b \<longleftrightarrow> area_range a \<inter> area_range b = {}"

lemma apart_sym: "apart a b \<Longrightarrow> apart b a"
  by (auto simp: apart_def)

lemma pages_in_range: "x \<in> fst ` area_pages ar \<Longrightarrow> x \<in> area_range ar"
  using area_pages_range by (auto simp: area_range_def)

lemma apart_pages: "apart a b \<Longrightarrow> x \<in> fst ` area_pages a \<Longrightarrow> x \<notin> fst ` area_pages b"
  using pages_in_range [of x a] pages_in_range [of x b] by (auto simp: apart_def)

lemma vaddr_in_range: "area_ok fs ar \<Longrightarrow> vaddr ar \<in> area_range ar"
  by (simp add: area_ok_def area_range_def)

lemma range_sub:
  assumes "a \<le> b" "b \<le> length (pages ar)"
  shows "area_range (sub_area a b ar) = {vaddr ar + a * PAGE_SIZE_4K..<vaddr ar + b * PAGE_SIZE_4K}"
  using assms by (simp add: area_range_def diff_mult_distrib)

definition keys_ok :: "vfs \<Rightarrow> (nat \<times> MapArea) list \<Rightarrow> bool" where
  "keys_ok fs om \<longleftrightarrow> (\<forall>(k, ar) \<in> set om. k = vaddr ar \<and> area_ok fs ar)"

definition pages_of :: "(nat \<times> MapArea) list \<Rightarrow> (nat \<times> page_info) set" where
  "pages_of om = (\<Union>ar \<in> snd ` set om. area_pages ar)"

lemma pages_of_simps [simp]:
  "pages_of [] = {}" "pages_of ((k, ar) # om) = area_pages ar \<union> pages_of om"
  by (auto simp: pages_of_def)

lemma pages_ofE:
  assumes "q \<in> pages_of om"
  obtains k b where "(k, b) \<in> set om" "q \<in> area_pages b"
  using assms by (auto simp: pages_of_def)

lemma insert_all_ok:
  assumes "\<forall>ar \<in> set ars. area_ok fs ar" "bt_inv om" "keys_ok fs om" "sorted_wrt apart (ars @ map snd om)"
  shows "\<exists>om'. insert_all ars om = Some om' \<and> bt_inv om' \<and> keys_ok fs om' \<and>
    mset (map snd om') = mset ars + mset (map snd om)"
  using assms
proof (induction ars arbitrary: om)
  case (Cons ar ars)
  have fresh: "vaddr ar \<notin> fst ` set om"
  proof
    assume "vaddr ar \<in> fst ` set om"
    then obtain b where b: "(vaddr ar, b) \<in> set om" by auto
    with Cons.prems(3) have "vaddr b = vaddr ar" "area_ok fs b" by (auto simp: keys_ok_def)
    moreover have "apart ar b"
      using b Cons.prems(4) by (force simp: image_iff)
    ultimately show False
      using vaddr_in_range [of fs b] vaddr_in_range [of fs ar] Cons.prems(1) by (auto simp: apart_def)
  qed
  let ?om = "bt_insert (vaddr ar) ar om"
  have m: "mset (map snd ?om) = add_mset ar (mset (map snd om))"
    using mset_bt_insert_fresh [OF fresh, of ar] by simp
  have "keys_ok fs ?om"
    using Cons.prems by (auto simp: keys_ok_def set_bt_insert_fresh [OF Cons.prems(2) fresh])
  moreover have "sorted_wrt apart (ars @ map snd ?om)"
  proof (rule sorted_wrt_mset [of _ "ar # ars @ map snd om"])
    show "sorted_wrt apart (ar # ars @ map snd om)"
      using Cons.prems(4) by simp
  qed (use m apart_sym in auto)
  ultimately obtain om' where "insert_all ars ?om = Some om'" "bt_inv om'" "keys_ok fs om'"
    "mset (map snd om') = mset ars + mset (map snd ?om)"
    using Cons.IH [of ?om] Cons.prems bt_inv_insert [OF Cons.prems(2)] by auto
  with fresh m show ?case
    by (auto simp: map_of_eq_None_iff [THEN iffD2])
qed simp

subsection \<open>The loop\<close>

text \<open>\<open>T\<close> is what happens to a page: it is dropped (\<open>None\<close>) or kept at its address with new
  information. A step gives back areas that lie in the old one, are apart, and consist of exactly
  the pages \<open>T\<close> leaves; the page table follows, and no other entry changes.\<close>

definition tr_set :: "(nat \<times> page_info \<Rightarrow> (nat \<times> page_info) option) \<Rightarrow> (nat \<times> page_info) set \<Rightarrow> (nat \<times> page_info) set" where
  "tr_set T S = {q. \<exists>p \<in> S. T p = Some q}"

lemma tr_set_Un [simp]: "tr_set T (S \<union> S') = tr_set T S \<union> tr_set T S'" and tr_set_empty [simp]: "tr_set T {} = {}"
  by (auto simp: tr_set_def)

lemma tr_set_id: "(\<And>p. p \<in> S \<Longrightarrow> T p = Some p) \<Longrightarrow> tr_set T S = S"
  by (force simp: tr_set_def)

definition pt_follows ::
  "('pt \<Rightarrow> nat \<Rightarrow> pte option) \<Rightarrow> (nat \<times> page_info \<Rightarrow> (nat \<times> page_info) option) \<Rightarrow> (nat \<times> page_info) set \<Rightarrow> 'pt \<Rightarrow> 'pt \<Rightarrow> bool" where
  "pt_follows view T S pt pt' \<longleftrightarrow> pt_covers view pt' (tr_set T S) \<and>
     (\<forall>x. x \<notin> fst ` S \<longrightarrow> view pt' x = view pt x) \<and>
     (\<forall>x \<in> fst ` S. x \<notin> fst ` tr_set T S \<longrightarrow> view pt' x = None)"

definition step_result ::
  "vfs \<Rightarrow> ('pt \<Rightarrow> nat \<Rightarrow> pte option) \<Rightarrow> (nat \<times> page_info \<Rightarrow> (nat \<times> page_info) option) \<Rightarrow> MapArea \<Rightarrow> 'pt \<Rightarrow> MapArea list \<Rightarrow> 'pt \<Rightarrow> bool" where
  "step_result fs view T ar pt ars pt' \<longleftrightarrow>
     (\<forall>a \<in> set ars. area_ok fs a \<and> area_range a \<subseteq> area_range ar) \<and> sorted_wrt apart ars \<and>
     (\<Union>a \<in> set ars. area_pages a) = tr_set T (area_pages ar) \<and> pt_follows view T (area_pages ar) pt pt'"

definition mset_ok :: "vfs \<Rightarrow> ('pt \<Rightarrow> nat \<Rightarrow> pte option) \<Rightarrow> 'pt MemorySet \<Rightarrow> bool" where
  "mset_ok fs view ms \<longleftrightarrow> bt_inv (owned_mem ms) \<and> keys_ok fs (owned_mem ms) \<and>
     sorted_wrt apart (map snd (owned_mem ms)) \<and> pt_covers view (page_table ms) (pages_of (owned_mem ms))"

locale area_rewrite =
  fixes step :: "MapArea \<Rightarrow> 'pt \<Rightarrow> (MapArea list \<times> 'pt) option"
    and T :: "nat \<times> page_info \<Rightarrow> (nat \<times> page_info) option"
    and view :: "'pt \<Rightarrow> nat \<Rightarrow> pte option"
    and fs :: vfs
    and start end1 :: nat
    and env :: bool
  assumes step_ok: "env \<Longrightarrow> area_ok fs ar \<Longrightarrow> overlap_with ar start end1 \<Longrightarrow> pt_covers view pt (area_pages ar) \<Longrightarrow>
      \<exists>ars pt'. step ar pt = Some (ars, pt') \<and> step_result fs view T ar pt ars pt'"
    and skip: "env \<Longrightarrow> area_ok fs ar \<Longrightarrow> \<not> overlap_with ar start end1 \<Longrightarrow> p \<in> area_pages ar \<Longrightarrow> T p = Some p"
    and keeps_addr: "T p = Some q \<Longrightarrow> fst q = fst p"
begin

lemma tr_addrs: "x \<in> fst ` tr_set T S \<Longrightarrow> x \<in> fst ` S"
  using keeps_addr by (auto simp: tr_set_def image_iff) force

lemma rewrite_areas_ok:
  assumes env "bt_inv om" "keys_ok fs om" "keys_ok fs rest" "\<forall>(k, ar) \<in> set rest. overlap_with ar start end1"
    "sorted_wrt apart (map snd om @ map snd rest)" "pt_covers view pt (pages_of om)" "pt_covers view pt (pages_of rest)"
  shows "\<exists>om' pt'. rewrite_areas step rest (om, pt) = Some (om', pt') \<and> bt_inv om' \<and> keys_ok fs om' \<and>
    sorted_wrt apart (map snd om') \<and> pages_of om' = pages_of om \<union> tr_set T (pages_of rest) \<and>
    pt_covers view pt' (pages_of om) \<and> pt_follows view T (pages_of rest) pt pt'"
  using assms(2-)
proof (induction rest arbitrary: om pt)
  case Nil
  then show ?case by (simp add: pt_follows_def pt_covers_def)
next
  case (Cons r rest)
  obtain k ar where r: "r = (k, ar)" by (cases r)
  have ar: "area_ok fs ar" "overlap_with ar start end1" "pt_covers view pt (area_pages ar)"
    using Cons.prems by (auto simp: r keys_ok_def)
  from step_ok [OF assms(1) this] obtain ars pt1 where st: "step ar pt = Some (ars, pt1)"
    and res: "step_result fs view T ar pt ars pt1" by blast
  then have ars: "\<forall>a \<in> set ars. area_ok fs a \<and> area_range a \<subseteq> area_range ar" "sorted_wrt apart ars"
    "(\<Union>a \<in> set ars. area_pages a) = tr_set T (area_pages ar)" and fol: "pt_follows view T (area_pages ar) pt pt1"
    by (auto simp: step_result_def)
  have away: "apart ar b" if "b \<in> snd ` set om \<union> snd ` set rest" for b
    using that Cons.prems(5) by (auto simp: r sorted_wrt_append intro: apart_sym)
  then have "apart a b" if "a \<in> set ars" "b \<in> snd ` set om \<union> snd ` set rest" for a b
    using that ars(1) unfolding apart_def by blast
  then have sw: "sorted_wrt apart (ars @ map snd om @ map snd rest)"
    using ars(2) Cons.prems(5) by (auto simp: r sorted_wrt_append)
  then have "sorted_wrt apart (ars @ map snd om)"
    by (simp add: sorted_wrt_append)
  from insert_all_ok [OF _ Cons.prems(1,2) this] ars(1) obtain om1 where ins: "insert_all ars om = Some om1"
    and om1: "bt_inv om1" "keys_ok fs om1" "mset (map snd om1) = mset ars + mset (map snd om)" by blast
  have set1: "snd ` set om1 = set ars \<union> snd ` set om"
    using arg_cong [OF om1(3), of set_mset] by simp
  then have p1: "pages_of om1 = pages_of om \<union> tr_set T (area_pages ar)"
    using ars(3) by (auto simp: pages_of_def)
  have same: "view pt1 x = view pt x" if "x \<in> fst ` pages_of om \<union> fst ` pages_of rest" for x
  proof -
    from that obtain b where "b \<in> snd ` set om \<union> snd ` set rest" "x \<in> fst ` area_pages b"
      by (auto simp: pages_of_def)
    with away [of b] apart_pages [of b ar x] apart_sym have "x \<notin> fst ` area_pages ar" by blast
    with fol show ?thesis by (simp add: pt_follows_def)
  qed
  have cov: "pt_covers view pt1 (pages_of om)" "pt_covers view pt1 (pages_of rest)"
    using Cons.prems(6,7) same by (auto simp: r intro: pt_covers_cong [of view pt])
  have "pt_covers view pt1 (pages_of om1)"
    using cov fol by (simp add: p1 pt_follows_def)
  moreover have "sorted_wrt apart (map snd om1 @ map snd rest)"
    by (rule sorted_wrt_mset [OF sw]) (use om1(3) apart_sym in auto)
  ultimately obtain om' pt' where IH: "rewrite_areas step rest (om1, pt1) = Some (om', pt')" "bt_inv om'" "keys_ok fs om'"
    "sorted_wrt apart (map snd om')" "pages_of om' = pages_of om1 \<union> tr_set T (pages_of rest)"
    "pt_covers view pt' (pages_of om1)" "pt_follows view T (pages_of rest) pt1 pt'"
    using Cons.IH [of om1 pt1] om1(1,2) Cons.prems(3,4) cov(2) by (auto simp: r keys_ok_def)
  have "pt_follows view T (area_pages ar \<union> pages_of rest) pt pt'"
    unfolding pt_follows_def
  proof (intro conjI allI impI ballI)
    show "pt_covers view pt' (tr_set T (area_pages ar \<union> pages_of rest))"
      using IH(6,7) by (simp add: p1 pt_follows_def)
    show "view pt' x = view pt x" if "x \<notin> fst ` (area_pages ar \<union> pages_of rest)" for x
      using that fol IH(7) by (simp add: pt_follows_def image_Un)
    show "view pt' x = None"
      if x: "x \<in> fst ` (area_pages ar \<union> pages_of rest)" "x \<notin> fst ` tr_set T (area_pages ar \<union> pages_of rest)" for x
    proof (cases "x \<in> fst ` pages_of rest")
      case True
      with x IH(7) show ?thesis by (auto simp: pt_follows_def image_Un)
    next
      case False
      with x fol IH(7) show ?thesis by (auto simp: pt_follows_def image_Un)
    qed
  qed
  with IH st ins p1 show ?case
    by (auto simp: r Un_assoc)
qed

lemma rewrite_overlapped_ok:
  assumes env "mset_ok fs view ms"
  shows "\<exists>ms'. rewrite_overlapped step start end1 ms = Some ms' \<and> mset_ok fs view ms' \<and>
    pages_of (owned_mem ms') = tr_set T (pages_of (owned_mem ms)) \<and>
    private_mem ms' = private_mem ms \<and> attached_mem ms' = attached_mem ms \<and>
    pt_follows view T (pages_of (owned_mem ms)) (page_table ms) (page_table ms')"
proof -
  let ?om = "owned_mem ms" and ?P = "\<lambda>(k :: nat, ar). overlap_with ar start end1"
  let ?ov = "filter ?P ?om" and ?prev = "filter (\<lambda>(k :: nat, ar). \<not> overlap_with ar start end1) ?om"
  have inv: "bt_inv ?om" "keys_ok fs ?om" "sorted_wrt apart (map snd ?om)" "pt_covers view (page_table ms) (pages_of ?om)"
    using assms(2) by (auto simp: mset_ok_def)
  have prev: "?prev = filter (\<lambda>x. \<not> ?P x) ?om"
    by (intro filter_cong) auto
  have m: "mset (map snd ?om) = mset (map snd ?prev @ map snd ?ov)"
    unfolding prev by (simp flip: image_mset_union add: union_filter_mset_complement)
  have split: "pages_of ?om = pages_of ?prev \<union> pages_of ?ov"
    by (auto simp: pages_of_def)
  have keep: "T p = Some p" if "p \<in> pages_of ?prev" for p
  proof -
    from that obtain k ar where "(k, ar) \<in> set ?om" "\<not> overlap_with ar start end1" "p \<in> area_pages ar"
      by (auto simp: pages_of_def)
    moreover from this inv(2) have "area_ok fs ar"
      by (auto simp: keys_ok_def)
    ultimately show ?thesis
      using skip [OF assms(1)] by blast
  qed
  then have trp: "tr_set T (pages_of ?prev) = pages_of ?prev"
    by (rule tr_set_id)
  have ko: "keys_ok fs ?prev" "keys_ok fs ?ov" and ovs: "\<forall>(k, ar) \<in> set ?ov. overlap_with ar start end1"
    using inv(2) by (auto simp: keys_ok_def)
  have co: "pt_covers view (page_table ms) (pages_of ?prev)" "pt_covers view (page_table ms) (pages_of ?ov)"
    using inv(4) by (simp_all add: split)
  have so: "sorted_wrt apart (map snd ?prev @ map snd ?ov)"
    using sorted_wrt_mset [OF inv(3) m] apart_sym by blast
  from rewrite_areas_ok [OF assms(1) bt_inv_filter [OF inv(1)] ko ovs so co]
  obtain om' pt' where res: "rewrite_areas step ?ov (?prev, page_table ms) = Some (om', pt')" "bt_inv om'" "keys_ok fs om'"
    "sorted_wrt apart (map snd om')" "pages_of om' = pages_of ?prev \<union> tr_set T (pages_of ?ov)"
    "pt_covers view pt' (pages_of ?prev)" and fol: "pt_follows view T (pages_of ?ov) (page_table ms) pt'"
    by blast
  have "pt_follows view T (pages_of ?om) (page_table ms) pt'"
    unfolding pt_follows_def split tr_set_Un trp image_Un
    using fol res(6) by (auto simp: pt_follows_def)
  moreover have "mset_ok fs view (ms\<lparr>owned_mem := om', page_table := pt'\<rparr>)"
    using res fol by (simp add: mset_ok_def pt_follows_def)
  ultimately show ?thesis
    using res(1,5) by (simp add: rewrite_overlapped_def split trp)
qed

end

end
