(* ===== verification/Mem_Props.thy ===== *)
theory Mem_Props
  imports Mem_Rewrite
begin

section \<open>What the operations do to an address space\<close>

text \<open>
  The steps of \<open>munmap\<close> and \<open>mprotect\<close> satisfy the contract of \<open>area_rewrite\<close>, so the operations do to
  the pages of an address space exactly what their names say, for every arrangement of areas.
\<close>

subsection \<open>Cutting at page boundaries\<close>

lemma aligned_index:
  assumes "area_ok fs ar" "is_aligned_4k x" "vaddr ar \<le> x" "x \<le> vaddr ar + n * PAGE_SIZE_4K"
  obtains k where "k \<le> n" "x = vaddr ar + k * PAGE_SIZE_4K"
proof -
  have "(x - vaddr ar) mod PAGE_SIZE_4K = 0"
    using assms by (simp add: area_ok_def is_aligned_4k_def mod_eq_0_iff_dvd dvd_diff_nat)
  then have "x = vaddr ar + (x - vaddr ar) div PAGE_SIZE_4K * PAGE_SIZE_4K"
    using assms(3) by (simp add: mod_eq_0_iff_dvd)
  moreover have "(x - vaddr ar) div PAGE_SIZE_4K \<le> n"
    using assms(4) by (simp add: div_le_mono [of _ "n * PAGE_SIZE_4K" PAGE_SIZE_4K, simplified])
  ultimately show ?thesis
    using that by blast
qed

text \<open>A list of index intervals that do not meet and cover the pages \<open>I\<close> of an area of \<open>n\<close> pages.\<close>

definition cuts :: "nat \<Rightarrow> nat set \<Rightarrow> (nat \<times> nat) list \<Rightarrow> bool" where
  "cuts n I ivs \<longleftrightarrow> (\<forall>(a, b) \<in> set ivs. a < b \<and> b \<le> n) \<and>
     sorted_wrt (\<lambda>(a, b) (c, d). b \<le> c \<or> d \<le> a) ivs \<and> (\<Union>(a, b) \<in> set ivs. {a..<b}) = I"

lemma cuts_areas:
  assumes "area_ok fs ar" "cuts (length (pages ar)) I ivs"
  defines "ars \<equiv> map (\<lambda>(a, b). sub_area a b ar) ivs"
  shows "\<forall>s \<in> set ars. area_ok fs s \<and> area_range s \<subseteq> area_range ar" "sorted_wrt apart ars"
    "(\<Union>s \<in> set ars. area_pages s) = (\<lambda>i. (vaddr ar + i * PAGE_SIZE_4K, page_info ar i)) ` I"
proof -
  have iv: "\<forall>(a, b) \<in> set ivs. a < b \<and> b \<le> length (pages ar)" and I: "(\<Union>(a, b) \<in> set ivs. {a..<b}) = I"
    using assms(2) by (auto simp: cuts_def)
  have rng: "area_range (sub_area a b ar) = {vaddr ar + a * PAGE_SIZE_4K..<vaddr ar + b * PAGE_SIZE_4K}"
    if "(a, b) \<in> set ivs" for a b
    using that iv by (intro range_sub) auto
  have "area_ok fs (sub_area a b ar) \<and> area_range (sub_area a b ar) \<subseteq> area_range ar" if ab: "(a, b) \<in> set ivs" for a b
  proof
    show "area_ok fs (sub_area a b ar)"
      using ab iv by (intro area_ok_sub assms(1)) auto
    have "b * PAGE_SIZE_4K \<le> length (pages ar) * PAGE_SIZE_4K"
      using ab iv by auto
    then show "area_range (sub_area a b ar) \<subseteq> area_range ar"
      unfolding rng [OF ab] by (auto simp: area_range_def)
  qed
  then show "\<forall>s \<in> set ars. area_ok fs s \<and> area_range s \<subseteq> area_range ar"
    by (auto simp: ars_def)
  have "apart (sub_area a b ar) (sub_area c d ar)"
    if "(a, b) \<in> set ivs" "(c, d) \<in> set ivs" "b \<le> c \<or> d \<le> a" for a b c d
  proof -
    have "b * PAGE_SIZE_4K \<le> c * PAGE_SIZE_4K \<or> d * PAGE_SIZE_4K \<le> a * PAGE_SIZE_4K"
      using that(3) by auto
    then show ?thesis
      unfolding apart_def rng [OF that(1)] rng [OF that(2)] by auto
  qed
  then have "sorted_wrt (\<lambda>x y. apart (case x of (a, b) \<Rightarrow> sub_area a b ar) (case y of (a, b) \<Rightarrow> sub_area a b ar)) ivs"
    using assms(2) unfolding cuts_def by (auto elim!: sorted_wrt_mono_rel [rotated])
  then show "sorted_wrt apart ars"
    by (simp add: ars_def sorted_wrt_map)
  have "(\<Union>s \<in> set ars. area_pages s) = (\<Union>(a, b) \<in> set ivs. (\<lambda>i. (vaddr ar + i * PAGE_SIZE_4K, page_info ar i)) ` {a..<b})"
  proof -
    have "(\<Union>x \<in> set ivs. area_pages (case x of (a, b) \<Rightarrow> sub_area a b ar))
        = (\<Union>(a, b) \<in> set ivs. (\<lambda>i. (vaddr ar + i * PAGE_SIZE_4K, page_info ar i)) ` {a..<b})"
      using iv by (intro SUP_cong refl) (force simp: area_pages_sub_index)
    then show ?thesis by (simp add: ars_def)
  qed
  also have "\<dots> = (\<lambda>i. (vaddr ar + i * PAGE_SIZE_4K, page_info ar i)) ` I"
    unfolding I [symmetric] by (simp add: image_UN case_prod_unfold)
  finally show "(\<Union>s \<in> set ars. area_pages s) = (\<lambda>i. (vaddr ar + i * PAGE_SIZE_4K, page_info ar i)) ` I" .
qed

subsection \<open>Unmapping\<close>

definition unmap_page :: "nat \<Rightarrow> nat \<Rightarrow> nat \<times> page_info \<Rightarrow> (nat \<times> page_info) option" where
  "unmap_page start end1 q = (if start \<le> fst q \<and> fst q < end1 then None else Some q)"

lemma tr_index:
  "tr_set T (area_pages ar) =
    {q. \<exists>k < length (pages ar). T (vaddr ar + k * PAGE_SIZE_4K, page_info ar k) = Some q}"
  by (auto simp: tr_set_def area_pages_def)

lemma index_addr_less [simp]:
  "vaddr ar + i * PAGE_SIZE_4K \<le> vaddr ar + k * PAGE_SIZE_4K \<longleftrightarrow> i \<le> k"
  "vaddr ar + i * PAGE_SIZE_4K < vaddr ar + k * PAGE_SIZE_4K \<longleftrightarrow> i < k"
  by simp_all

lemma unmap_result:
  assumes "paging_laws pg view" "area_ok fs ar" "i \<le> j" "j \<le> length (pages ar)" "pt_covers view pt (area_pages ar)"
    and T: "\<And>k. k < length (pages ar) \<Longrightarrow> T (vaddr ar + k * PAGE_SIZE_4K, page_info ar k)
      = (if i \<le> k \<and> k < j then None else Some (vaddr ar + k * PAGE_SIZE_4K, page_info ar k))"
    and cut: "cuts (length (pages ar)) ({..<length (pages ar)} - {i..<j}) ivs"
  shows "\<exists>pt'. unmap_region pg (vaddr ar + i * PAGE_SIZE_4K) ((j - i) * PAGE_SIZE_4K) pt = Some pt' \<and>
    step_result fs view T ar pt (map (\<lambda>(a, b). sub_area a b ar) ivs) pt'"
proof -
  let ?idx = "\<lambda>k. (vaddr ar + k * PAGE_SIZE_4K, page_info ar k)"
  let ?X = "fst ` area_pages (sub_area i j ar)"
  from paging_sub(1) [OF assms(1-5)] obtain pt' where un: "unmap_region pg (vaddr ar + i * PAGE_SIZE_4K) ((j - i) * PAGE_SIZE_4K) pt = Some pt'"
    and v: "view pt' = (\<lambda>x. if x \<in> ?X then None else view pt x)" by blast
  have X: "?X = (\<lambda>k. vaddr ar + k * PAGE_SIZE_4K) ` {i..<j}"
    using assms(3,4) by (simp add: area_pages_sub_index image_image)
  have tr: "tr_set T (area_pages ar) = ?idx ` ({..<length (pages ar)} - {i..<j})"
    unfolding tr_index using T by (auto split: if_splits)
  have sub: "?idx ` ({..<length (pages ar)} - {i..<j}) \<subseteq> area_pages ar"
    by (auto simp: area_pages_def)
  have away: "x \<notin> ?X" if "x \<in> fst ` ?idx ` ({..<length (pages ar)} - {i..<j})" for x
    using that unfolding X by auto
  have "pt_follows view T (area_pages ar) pt pt'"
    unfolding pt_follows_def tr
  proof (intro conjI allI impI ballI)
    show "pt_covers view pt' (?idx ` ({..<length (pages ar)} - {i..<j}))"
      by (rule pt_covers_cong [OF pt_covers_mono [OF assms(5) sub]]) (use away in \<open>simp add: v\<close>)
    show "view pt' x = view pt x" if "x \<notin> fst ` area_pages ar" for x
      using that sub_pages_subset [OF assms(3,4)] unfolding v by auto
    show "view pt' x = None" if x: "x \<in> fst ` area_pages ar" "x \<notin> fst ` ?idx ` ({..<length (pages ar)} - {i..<j})" for x
    proof -
      from x(1) obtain k where k: "k < length (pages ar)" "x = fst (?idx k)"
        by (auto simp: area_pages_def)
      with x(2) have "k \<in> {i..<j}" by blast
      with k show ?thesis unfolding v X by simp
    qed
  qed
  then show ?thesis
    using un cuts_areas [OF assms(2) cut] by (simp add: step_result_def tr)
qed

definition unmap_env :: "access \<Rightarrow> 'pt paging \<Rightarrow> ('pt \<Rightarrow> nat \<Rightarrow> pte option) \<Rightarrow> nat \<Rightarrow> nat \<Rightarrow> bool" where
  "unmap_env acc pg view start end1 \<longleftrightarrow>
     cap_access acc \<and> paging_laws pg view \<and> is_aligned_4k start \<and> is_aligned_4k end1 \<and> start < end1"

text \<open>The four ways in which a range can overlap an area, by page index.\<close>

lemma overlap_cases:
  assumes "area_ok fs ar" "overlap_with ar start end1" "is_aligned_4k start" "is_aligned_4k end1" "start < end1"
  obtains (contained) "contained_in ar start end1" "start \<le> vaddr ar" "vaddr ar + length (pages ar) * PAGE_SIZE_4K \<le> end1"
  | (strict) i j where "\<not> contained_in ar start end1" "strict_contain ar start end1"
      "start = vaddr ar + i * PAGE_SIZE_4K" "end1 = vaddr ar + j * PAGE_SIZE_4K" "0 < i" "i < j" "j < length (pages ar)"
  | (left) k where "\<not> contained_in ar start end1" "\<not> strict_contain ar start end1" "start \<le> vaddr ar \<and> vaddr ar < end1"
      "end1 = vaddr ar + k * PAGE_SIZE_4K" "0 < k" "k < length (pages ar)"
  | (right) k where "\<not> contained_in ar start end1" "\<not> strict_contain ar start end1" "\<not> (start \<le> vaddr ar \<and> vaddr ar < end1)"
      "start = vaddr ar + k * PAGE_SIZE_4K" "vaddr ar + length (pages ar) * PAGE_SIZE_4K \<le> end1" "0 < k" "k < length (pages ar)"
proof -
  let ?n = "length (pages ar)"
  note e = end_va_eq [OF assms(1)]
  consider (1) "start \<le> vaddr ar" "vaddr ar + ?n * PAGE_SIZE_4K \<le> end1"
    | (2) "vaddr ar < start" "end1 < vaddr ar + ?n * PAGE_SIZE_4K"
    | (3) "start \<le> vaddr ar" "end1 < vaddr ar + ?n * PAGE_SIZE_4K"
    | (4) "vaddr ar < start" "vaddr ar + ?n * PAGE_SIZE_4K \<le> end1"
    by linarith
  then show ?thesis
  proof cases
    case 1
    then show ?thesis by (intro contained) (simp_all add: contained_in_def e)
  next
    case 2
    then have "start \<le> vaddr ar + ?n * PAGE_SIZE_4K" "vaddr ar \<le> end1"
      using assms(5) by linarith+
    with 2 obtain i j where "start = vaddr ar + i * PAGE_SIZE_4K" "end1 = vaddr ar + j * PAGE_SIZE_4K"
      using aligned_index [OF assms(1,3), of ?n] aligned_index [OF assms(1,4), of ?n] by (metis less_imp_le)
    with 2 assms(5) show ?thesis
      by (intro strict [of i j]) (auto simp: contained_in_def strict_contain_def e)
  next
    case 3
    then have "vaddr ar < end1"
      using assms(2,5) by (auto simp: overlap_with_def e)
    with 3 obtain k where "end1 = vaddr ar + k * PAGE_SIZE_4K"
      using aligned_index [OF assms(1,4), of ?n] by (metis less_imp_le)
    with 3 \<open>vaddr ar < end1\<close> show ?thesis
      by (intro left [of k]) (auto simp: contained_in_def strict_contain_def e)
  next
    case 4
    then have "start < vaddr ar + ?n * PAGE_SIZE_4K"
      using assms(2) by (auto simp: overlap_with_def e)
    with 4 obtain k where "start = vaddr ar + k * PAGE_SIZE_4K"
      using aligned_index [OF assms(1,3), of ?n] by (metis less_imp_le)
    with 4 \<open>start < vaddr ar + ?n * PAGE_SIZE_4K\<close> show ?thesis
      by (intro right [of k]) (auto simp: contained_in_def strict_contain_def e)
  qed
qed

lemma not_overlap_pages:
  assumes "area_ok fs ar" "\<not> overlap_with ar start end1" "(x, p) \<in> area_pages ar"
  shows "\<not> (start \<le> x \<and> x < end1)"
  using assms(2) area_pages_range [OF assms(3)] by (auto simp: overlap_with_def end_va_eq [OF assms(1)])

lemma split_one_ok:
  assumes env: "unmap_env acc pg view start end1" and ar: "area_ok fs ar" and ov: "overlap_with ar start end1"
    and cov: "pt_covers view pt (area_pages ar)"
  shows "\<exists>ars pt'. split_one acc pg fs start end1 ar pt = Some (ars, pt') \<and>
    step_result fs view (unmap_page start end1) ar pt ars pt'"
proof -
  let ?n = "length (pages ar)"
  have acc: "cap_access acc" and pg: "paging_laws pg view" and al: "is_aligned_4k start" "is_aligned_4k end1" "start < end1"
    using env by (auto simp: unmap_env_def)
  show ?thesis
    using ar ov al
  proof (cases rule: overlap_cases)
    case contained
    have "vaddr ar + k * PAGE_SIZE_4K < end1" if "k < ?n" for k
      using that contained(3) index_addr_less(2) [of ar k ?n] by linarith
    with contained have "\<exists>pt'. unmap_region pg (vaddr ar + 0 * PAGE_SIZE_4K) ((?n - 0) * PAGE_SIZE_4K) pt = Some pt' \<and>
        step_result fs view (unmap_page start end1) ar pt (map (\<lambda>(a, b). sub_area a b ar) []) pt'"
      by (intro unmap_result [OF pg ar _ _ cov]) (auto simp: unmap_page_def cuts_def)
    with contained show ?thesis
      by (auto simp: split_one_def dealloc_def area_size_eq [OF ar])
  next
    case (strict i j)
    have "\<exists>pt'. unmap_region pg (vaddr ar + i * PAGE_SIZE_4K) ((j - i) * PAGE_SIZE_4K) pt = Some pt' \<and>
        step_result fs view (unmap_page start end1) ar pt (map (\<lambda>(a, b). sub_area a b ar) [(j, ?n), (0, i)]) pt'"
      using strict by (intro unmap_result [OF pg ar _ _ cov]) (auto simp: unmap_page_def cuts_def)
    moreover have "split_one acc pg fs start end1 ar pt = map_option (\<lambda>pt'. ([sub_area j ?n ar, sub_area 0 i ar], pt'))
        (unmap_region pg (vaddr ar + i * PAGE_SIZE_4K) ((j - i) * PAGE_SIZE_4K) pt)"
      using strict(1,2,6,7) unfolding strict(3,4) by (simp add: split_one_def remove_mid_eq [OF acc ar] option.map_comp comp_def)
    ultimately show ?thesis by auto
  next
    case (left k)
    have "vaddr ar + k' * PAGE_SIZE_4K \<ge> start" for k'
      using left(3) by linarith
    with left have "\<exists>pt'. unmap_region pg (vaddr ar + 0 * PAGE_SIZE_4K) ((k - 0) * PAGE_SIZE_4K) pt = Some pt' \<and>
        step_result fs view (unmap_page start end1) ar pt (map (\<lambda>(a, b). sub_area a b ar) [(k, ?n)]) pt'"
      by (intro unmap_result [OF pg ar _ _ cov]) (auto simp: unmap_page_def cuts_def)
    moreover have "split_one acc pg fs start end1 ar pt = map_option (\<lambda>pt'. ([sub_area k ?n ar], pt'))
        (unmap_region pg (vaddr ar) (k * PAGE_SIZE_4K) pt)"
      using left(1-3,6) unfolding left(4) by (simp add: split_one_def shrink_left_eq [OF acc ar] option.map_comp comp_def)
    ultimately show ?thesis by auto
  next
    case (right k)
    have "vaddr ar + k' * PAGE_SIZE_4K < end1" if "k' < ?n" for k'
      using that right(5) index_addr_less(2) [of ar k' ?n] by linarith
    with right have "\<exists>pt'. unmap_region pg (vaddr ar + k * PAGE_SIZE_4K) ((?n - k) * PAGE_SIZE_4K) pt = Some pt' \<and>
        step_result fs view (unmap_page start end1) ar pt (map (\<lambda>(a, b). sub_area a b ar) [(0, k)]) pt'"
      by (intro unmap_result [OF pg ar _ _ cov]) (auto simp: unmap_page_def cuts_def)
    moreover have "split_one acc pg fs start end1 ar pt = map_option (\<lambda>pt'. ([sub_area 0 k ar], pt'))
        (unmap_region pg (vaddr ar + k * PAGE_SIZE_4K) ((?n - k) * PAGE_SIZE_4K) pt)"
      using right(1-3,7) unfolding right(4) by (auto simp: split_one_def shrink_right_eq [OF ar] option.map_comp comp_def)
    ultimately show ?thesis by auto
  qed
qed

interpretation unmap: area_rewrite "split_one acc pg fs start end1" "unmap_page start end1" view fs start end1
  "unmap_env acc pg view start end1" for acc pg fs start end1 view
proof
  show "\<exists>ars pt'. split_one acc pg fs start end1 ar pt = Some (ars, pt') \<and> step_result fs view (unmap_page start end1) ar pt ars pt'"
    if "unmap_env acc pg view start end1" "area_ok fs ar" "overlap_with ar start end1" "pt_covers view pt (area_pages ar)" for ar pt
    using split_one_ok that .
  show "unmap_page start end1 p = Some p"
    if "unmap_env acc pg view start end1" "area_ok fs ar" "\<not> overlap_with ar start end1" "p \<in> area_pages ar" for ar p
    using not_overlap_pages [OF that(2,3), of "fst p" "snd p"] that(4) by (simp add: unmap_page_def)
  show "fst q = fst p" if "unmap_page start end1 p = Some q" for p q
    using that by (simp add: unmap_page_def split: if_splits)
qed

subsection \<open>Changing flags\<close>

definition set_flags :: "MappingFlags \<Rightarrow> page_info \<Rightarrow> page_info" where
  "set_flags fl p = (fst p, fst (snd p), fl, snd (snd (snd p)))"

definition protect_page :: "nat \<Rightarrow> nat \<Rightarrow> MappingFlags \<Rightarrow> nat \<times> page_info \<Rightarrow> (nat \<times> page_info) option" where
  "protect_page start end1 fl q = Some (if start \<le> fst q \<and> fst q < end1 then (fst q, set_flags fl (snd q)) else q)"

lemma aflags_upd [simp]:
  "area_ok fs (s\<lparr>aflags := fl\<rparr>) = area_ok fs s" "area_range (s\<lparr>aflags := fl\<rparr>) = area_range s"
  by (simp_all add: area_ok_def area_range_def)

lemma area_pages_flags: "area_pages (s\<lparr>aflags := fl\<rparr>) = (\<lambda>q. (fst q, set_flags fl (snd q))) ` area_pages s"
  by (simp add: area_pages_def image_image page_info_def set_flags_def)

text \<open>The parts of an area after the flags of the interval \<open>(i, j)\<close> have been changed.\<close>

definition flagged :: "nat \<Rightarrow> nat \<Rightarrow> MappingFlags \<Rightarrow> MapArea \<Rightarrow> nat \<times> nat \<Rightarrow> MapArea" where
  "flagged i j fl ar iv = (let s = sub_area (fst iv) (snd iv) ar in if iv = (i, j) then s\<lparr>aflags := fl\<rparr> else s)"

lemma flagged_areas:
  fixes fl :: MappingFlags
  assumes ar: "area_ok fs ar" and cut: "cuts (length (pages ar)) I ivs" and ij: "(i, j) \<in> set ivs"
  defines "F \<equiv> \<lambda>k. (vaddr ar + k * PAGE_SIZE_4K, if i \<le> k \<and> k < j then set_flags fl (page_info ar k) else page_info ar k)"
  shows "\<forall>s \<in> set (map (flagged i j fl ar) ivs). area_ok fs s \<and> area_range s \<subseteq> area_range ar"
    "sorted_wrt apart (map (flagged i j fl ar) ivs)"
    "(\<Union>s \<in> set (map (flagged i j fl ar) ivs). area_pages s) = F ` I"
proof -
  have same: "area_ok fs (flagged i j fl ar iv) = area_ok fs (sub_area (fst iv) (snd iv) ar)"
    "area_range (flagged i j fl ar iv) = area_range (sub_area (fst iv) (snd iv) ar)" for iv
    by (simp_all add: flagged_def Let_def)
  note sub = cuts_areas [OF ar cut]
  show "\<forall>s \<in> set (map (flagged i j fl ar) ivs). area_ok fs s \<and> area_range s \<subseteq> area_range ar"
    using sub(1) by (simp add: same case_prod_unfold)
  show "sorted_wrt apart (map (flagged i j fl ar) ivs)"
    using sub(2) by (simp add: sorted_wrt_map apart_def same case_prod_unfold)
  have iv: "\<forall>(a, b) \<in> set ivs. a < b \<and> b \<le> length (pages ar)" and I: "(\<Union>(a, b) \<in> set ivs. {a..<b}) = I"
    and srt: "sorted_wrt (\<lambda>(a, b) (c, d). b \<le> c \<or> d \<le> a) ivs"
    using cut by (auto simp: cuts_def)
  have off: "b \<le> i \<or> j \<le> a" if "(a, b) \<in> set ivs" "(a, b) \<noteq> (i, j)" for a b
  proof -
    from that ij obtain m n where mn: "m < length ivs" "n < length ivs" "ivs ! m = (a, b)" "ivs ! n = (i, j)" "m \<noteq> n"
      by (metis in_set_conv_nth)
    then show ?thesis
      using sorted_wrt_nth_less [OF srt, of m n] sorted_wrt_nth_less [OF srt, of n m] by (cases "m < n") auto
  qed
  have one: "area_pages (flagged i j fl ar (a, b)) = F ` {a..<b}" if ab: "(a, b) \<in> set ivs" for a b
  proof -
    have idx: "area_pages (sub_area a b ar) = (\<lambda>k. (vaddr ar + k * PAGE_SIZE_4K, page_info ar k)) ` {a..<b}"
      using ab iv by (intro area_pages_sub_index) auto
    show ?thesis
    proof (cases "(a, b) = (i, j)")
      case True
      then have [simp]: "a = i" "b = j" by auto
      show ?thesis
        using idx by (simp add: flagged_def area_pages_flags image_image F_def)
    next
      case False
      then have "flagged i j fl ar (a, b) = sub_area a b ar"
        by (auto simp: flagged_def)
      moreover have "F ` {a..<b} = (\<lambda>k. (vaddr ar + k * PAGE_SIZE_4K, page_info ar k)) ` {a..<b}"
        using off [OF ab False] unfolding F_def by (intro image_cong refl) auto
      ultimately show ?thesis
        using idx by simp
    qed
  qed
  have "(\<Union>x \<in> set ivs. area_pages (flagged i j fl ar x)) = (\<Union>x \<in> set ivs. F ` (case x of (a, b) \<Rightarrow> {a..<b}))"
    using one by (intro SUP_cong refl) auto
  then show "(\<Union>s \<in> set (map (flagged i j fl ar) ivs). area_pages s) = F ` I"
    by (simp add: image_UN flip: I)
qed

lemma protect_result:
  assumes "paging_laws pg view" "area_ok fs ar" "i < j" "j \<le> length (pages ar)" "pt_covers view pt (area_pages ar)"
    and T: "\<And>k. k < length (pages ar) \<Longrightarrow> T (vaddr ar + k * PAGE_SIZE_4K, page_info ar k)
      = Some (vaddr ar + k * PAGE_SIZE_4K, if i \<le> k \<and> k < j then set_flags fl (page_info ar k) else page_info ar k)"
    and cut: "cuts (length (pages ar)) {..<length (pages ar)} ivs" and ij: "(i, j) \<in> set ivs"
  shows "\<exists>pt'. update_flags pg fl (sub_area i j ar) pt = Some ((sub_area i j ar)\<lparr>aflags := fl\<rparr>, pt') \<and>
    step_result fs view T ar pt (map (flagged i j fl ar) ivs) pt'"
proof -
  let ?F = "\<lambda>k. (vaddr ar + k * PAGE_SIZE_4K, if i \<le> k \<and> k < j then set_flags fl (page_info ar k) else page_info ar k)"
  let ?X = "fst ` area_pages (sub_area i j ar)"
  have le: "i \<le> j" using assms(3) by simp
  from paging_sub(2) [OF assms(1,2) le assms(4,5)] obtain pt' where
    up: "update_region pg (vaddr ar + i * PAGE_SIZE_4K) ((j - i) * PAGE_SIZE_4K) fl pt = Some pt'"
    and v: "view pt' = (\<lambda>x. if x \<in> ?X then map_option (\<lambda>(p, _). (p, fl)) (view pt x) else view pt x)" by blast
  have size: "area_size (sub_area i j ar) = (j - i) * PAGE_SIZE_4K"
    using area_size_eq [OF area_ok_sub [OF assms(2-4)]] assms(4) by simp
  have X: "?X = (\<lambda>k. vaddr ar + k * PAGE_SIZE_4K) ` {i..<j}"
    using le assms(4) by (simp add: area_pages_sub_index image_image)
  have tr: "tr_set T (area_pages ar) = ?F ` {..<length (pages ar)}"
    unfolding tr_index using T by auto
  have fsts: "fst ` ?F ` {..<length (pages ar)} = fst ` area_pages ar"
    by (simp add: area_pages_def image_image)
  have "pt_covers view pt' (?F ` {..<length (pages ar)})"
    unfolding pt_covers_def
  proof
    fix q assume "q \<in> ?F ` {..<length (pages ar)}"
    then obtain k where k: "k < length (pages ar)" "q = ?F k" by blast
    then have "(vaddr ar + k * PAGE_SIZE_4K, page_info ar k) \<in> area_pages ar"
      by (auto simp: area_pages_def)
    with assms(5) obtain e where e: "view pt (vaddr ar + k * PAGE_SIZE_4K) = Some e" "coherent (page_info ar k) e"
      by (auto simp: pt_covers_def)
    moreover have "vaddr ar + k * PAGE_SIZE_4K \<in> ?X \<longleftrightarrow> i \<le> k \<and> k < j"
      unfolding X by auto
    ultimately show "\<exists>e. view pt' (fst q) = Some e \<and> coherent (snd q) e"
      by (cases e) (auto simp: k v coherent_def set_flags_def)
  qed
  moreover have "view pt' x = view pt x" if "x \<notin> fst ` area_pages ar" for x
    using that sub_pages_subset [OF le assms(4)] unfolding v by auto
  ultimately have "pt_follows view T (area_pages ar) pt pt'"
    unfolding pt_follows_def tr fsts by blast
  then show ?thesis
    using up flagged_areas [OF assms(2) cut ij, of fl] by (simp add: step_result_def tr update_flags_def size)
qed

lemma flagged_simps [simp]:
  "flagged i j fl ar (i, j) = (sub_area i j ar)\<lparr>aflags := fl\<rparr>"
  "(a, b) \<noteq> (i, j) \<Longrightarrow> flagged i j fl ar (a, b) = sub_area a b ar"
  by (auto simp: flagged_def Let_def)

lemma protect_page_index:
  "protect_page start end1 fl (x, p) = Some (x, if start \<le> x \<and> x < end1 then set_flags fl p else p)"
  by (simp add: protect_page_def)

lemma protect_one_ok:
  assumes env: "unmap_env acc pg view start end1" and ar: "area_ok fs ar" and ov: "overlap_with ar start end1"
    and cov: "pt_covers view pt (area_pages ar)"
  shows "\<exists>ars pt'. protect_one acc pg fs start end1 fl ar pt = Some (ars, pt') \<and>
    step_result fs view (protect_page start end1 fl) ar pt ars pt'"
proof -
  let ?n = "length (pages ar)"
  have acc: "cap_access acc" and pg: "paging_laws pg view" and al: "is_aligned_4k start" "is_aligned_4k end1" "start < end1"
    using env by (auto simp: unmap_env_def)
  have n: "0 < ?n"
    using ar by (simp add: area_ok_def)
  show ?thesis
    using ar ov al
  proof (cases rule: overlap_cases)
    case contained
    have "vaddr ar + k * PAGE_SIZE_4K < end1" if "k < ?n" for k
      using that contained(3) index_addr_less(2) [of ar k ?n] by linarith
    with contained n have "\<exists>pt'. update_flags pg fl (sub_area 0 ?n ar) pt = Some ((sub_area 0 ?n ar)\<lparr>aflags := fl\<rparr>, pt') \<and>
        step_result fs view (protect_page start end1 fl) ar pt (map (flagged 0 ?n fl ar) [(0, ?n)]) pt'"
      by (intro protect_result [OF pg ar _ _ cov]) (auto simp: protect_page_index cuts_def)
    with contained show ?thesis
      by (auto simp: protect_one_def sub_area_all)
  next
    case (strict i j)
    then have "\<exists>pt'. update_flags pg fl (sub_area i j ar) pt = Some ((sub_area i j ar)\<lparr>aflags := fl\<rparr>, pt') \<and>
        step_result fs view (protect_page start end1 fl) ar pt (map (flagged i j fl ar) [(i, j), (j, ?n), (0, i)]) pt'"
      by (intro protect_result [OF pg ar _ _ cov]) (auto simp: protect_page_index cuts_def)
    moreover have "protect_one acc pg fs start end1 fl ar pt =
        Option.bind (update_flags pg fl (sub_area i j ar) pt) (\<lambda>(mid', pt'). Some ([mid', sub_area j ?n ar, sub_area 0 i ar], pt'))"
      using strict(1,2) split3_eq [OF acc ar strict(5-7)] unfolding strict(3,4) by (simp add: protect_one_def)
    ultimately show ?thesis
      using strict(5-7) by auto
  next
    case (left k)
    have "vaddr ar + k' * PAGE_SIZE_4K \<ge> start" for k'
      using left(3) by linarith
    with left have "\<exists>pt'. update_flags pg fl (sub_area 0 k ar) pt = Some ((sub_area 0 k ar)\<lparr>aflags := fl\<rparr>, pt') \<and>
        step_result fs view (protect_page start end1 fl) ar pt (map (flagged 0 k fl ar) [(k, ?n), (0, k)]) pt'"
      by (intro protect_result [OF pg ar _ _ cov]) (auto simp: protect_page_index cuts_def)
    moreover have "protect_one acc pg fs start end1 fl ar pt =
        Option.bind (update_flags pg fl (sub_area 0 k ar) pt) (\<lambda>(l', pt'). Some ([sub_area k ?n ar, l'], pt'))"
      using left(1-3,6) split_area_eq [OF acc ar, of k] unfolding left(4) by (simp add: protect_one_def)
    ultimately show ?thesis
      using left(5,6) by auto
  next
    case (right k)
    have "vaddr ar + k' * PAGE_SIZE_4K < end1" if "k' < ?n" for k'
      using that right(5) index_addr_less(2) [of ar k' ?n] by linarith
    with right have "\<exists>pt'. update_flags pg fl (sub_area k ?n ar) pt = Some ((sub_area k ?n ar)\<lparr>aflags := fl\<rparr>, pt') \<and>
        step_result fs view (protect_page start end1 fl) ar pt (map (flagged k ?n fl ar) [(k, ?n), (0, k)]) pt'"
      by (intro protect_result [OF pg ar _ _ cov]) (auto simp: protect_page_index cuts_def)
    moreover have "protect_one acc pg fs start end1 fl ar pt =
        Option.bind (update_flags pg fl (sub_area k ?n ar) pt) (\<lambda>(r', pt'). Some ([r', sub_area 0 k ar], pt'))"
      using right(1-3,7) split_area_eq [OF acc ar, of k] unfolding right(4) by (auto simp: protect_one_def)
    ultimately show ?thesis
      using right(6,7) by auto
  qed
qed

interpretation protect: area_rewrite "protect_one acc pg fs start end1 fl" "protect_page start end1 fl" view fs start end1
  "unmap_env acc pg view start end1" for acc pg fs start end1 fl view
proof
  show "\<exists>ars pt'. protect_one acc pg fs start end1 fl ar pt = Some (ars, pt') \<and> step_result fs view (protect_page start end1 fl) ar pt ars pt'"
    if "unmap_env acc pg view start end1" "area_ok fs ar" "overlap_with ar start end1" "pt_covers view pt (area_pages ar)" for ar pt
    using protect_one_ok that .
  show "protect_page start end1 fl p = Some p"
    if "unmap_env acc pg view start end1" "area_ok fs ar" "\<not> overlap_with ar start end1" "p \<in> area_pages ar" for ar p
    using not_overlap_pages [OF that(2,3), of "fst p" "snd p"] that(4) by (auto simp: protect_page_def)
  show "fst q = fst p" if "protect_page start end1 fl p = Some q" for p q
    using that by (auto simp: protect_page_def split: if_splits)
qed

subsection \<open>Searching for room\<close>

lemma first_gap_cases: "first_gap last_end sz segs = Some a \<Longrightarrow> a = last_end \<or> a \<in> snd ` set segs"
  by (induction last_end sz segs rule: first_gap.induct) (auto split: if_splits)

lemma first_gap_free:
  assumes "first_gap last_end sz segs = Some a" "sorted_wrt (\<lambda>x y. snd x \<le> fst y) segs" "\<forall>x \<in> set segs. fst x < snd x"
    "\<forall>x \<in> set segs. snd x + sz < usize_lim" "last_end + sz < usize_lim"
  shows "\<forall>x \<in> set segs. a + sz \<le> fst x \<or> snd x \<le> a"
  using assms
proof (induction last_end sz segs rule: first_gap.induct)
  case (2 last_end sz s e segs)
  show ?case
  proof (cases "uadd last_end sz \<le> s")
    case True
    with "2.prems" have a: "a = last_end" "last_end + sz \<le> s"
      by (auto simp: uadd_eq)
    moreover have "s \<le> fst x" if "x \<in> set segs" for x
      using that "2.prems"(2,3) by fastforce
    ultimately show ?thesis by fastforce
  next
    case False
    with "2.prems" have "\<forall>x \<in> set segs. a + sz \<le> fst x \<or> snd x \<le> a"
      by (intro "2.IH") auto
    moreover have "e \<le> a"
      using False "2.prems" first_gap_cases [of e sz segs a] by fastforce
    ultimately show ?thesis by simp
  qed
qed simp

text \<open>Segments that are pairwise disjoint, in sorted order.\<close>

definition seg_disjoint :: "nat \<times> nat \<Rightarrow> nat \<times> nat \<Rightarrow> bool" where
  "seg_disjoint x y \<longleftrightarrow> snd x \<le> fst y \<or> snd y \<le> fst x"

lemma sort_disjoint:
  assumes "sorted_wrt seg_disjoint segs" "\<forall>x \<in> set segs. fst x < snd x"
  shows "sorted_wrt (\<lambda>x y. snd x \<le> fst y) (sort segs)"
proof -
  have "sorted_wrt seg_disjoint (sort segs)"
    using assms(1) by (rule sorted_wrt_mset) (auto simp: seg_disjoint_def)
  moreover have "sorted_wrt (\<le>) (sort segs)"
    by simp
  ultimately have "sorted_wrt (\<lambda>x y. seg_disjoint x y \<and> x \<le> y) (sort segs)"
    by (simp add: sorted_wrt_iff_nth_less)
  then show ?thesis
  proof (rule sorted_wrt_mono_rel [rotated])
    show "snd x \<le> fst y" if "x \<in> set (sort segs)" "y \<in> set (sort segs)" "seg_disjoint x y \<and> x \<le> y" for x y
    proof -
      have "fst x < snd x" "fst y < snd y"
        using that assms(2) by auto
      moreover have "fst x \<le> fst y"
        using that(3) by (auto simp: less_eq_prod_def)
      ultimately show ?thesis
        using that(3) by (auto simp: seg_disjoint_def)
    qed
  qed
qed

definition segments :: "'pt MemorySet \<Rightarrow> (nat \<times> nat) list" where
  "segments ms = map (\<lambda>(s, ar). (s, uadd s (area_size ar))) (owned_mem ms)
     @ map (\<lambda>(s, _, mem). (s, uadd s (sm_size mem))) (attached_mem ms)"

lemma find_free_area_free:
  assumes "find_free_area user_start hint sz ms = Some a" "sorted_wrt seg_disjoint (segments ms)"
    "\<forall>x \<in> set (segments ms). fst x < snd x \<and> snd x + sz < usize_lim" "max hint user_start + sz < usize_lim"
  shows "\<forall>x \<in> set (segments ms). a + sz \<le> fst x \<or> snd x \<le> a"
proof -
  have "first_gap (max hint user_start) sz (sort (segments ms)) = Some a"
    using assms(1) by (simp add: find_free_area_def segments_def)
  from first_gap_free [OF this sort_disjoint [OF assms(2)]] assms show ?thesis
    by auto
qed

lemma find_free_area_empty: "find_free_area user_start hint sz (new_empty pt) = None"
  by (simp add: find_free_area_def new_empty_def)

subsection \<open>Rounding\<close>

lemma page_round_eq:
  assumes "sz + PAGE_SIZE_4K < usize_lim"
  shows "num_pages_of sz = (sz + PAGE_SIZE_4K - 1) div PAGE_SIZE_4K"
    and "page_round sz = (sz + PAGE_SIZE_4K - 1) div PAGE_SIZE_4K * PAGE_SIZE_4K"
proof -
  have s: "usub (uadd sz PAGE_SIZE_4K) 1 = sz + PAGE_SIZE_4K - 1"
    using assms by (simp add: uadd_eq usub_eq PAGE_SIZE_4K_def)
  then show n: "num_pages_of sz = (sz + PAGE_SIZE_4K - 1) div PAGE_SIZE_4K"
    by (simp add: num_pages_of_def)
  have "(sz + PAGE_SIZE_4K - 1) div PAGE_SIZE_4K * PAGE_SIZE_4K \<le> sz + PAGE_SIZE_4K - 1"
    by (rule div_times_less_eq_dividend)
  with assms show "page_round sz = (sz + PAGE_SIZE_4K - 1) div PAGE_SIZE_4K * PAGE_SIZE_4K"
    unfolding page_round_def n by (intro umul_eq) linarith
qed

lemma page_round_bounds:
  assumes "sz + PAGE_SIZE_4K < usize_lim"
  shows "sz \<le> page_round sz" "page_round sz < sz + PAGE_SIZE_4K" "page_round sz mod PAGE_SIZE_4K = 0"
  unfolding page_round_eq [OF assms] by (simp_all add: PAGE_SIZE_4K_def)

end
