(* ===== verification/Mem_Claims.thy ===== *)
theory Mem_Claims
  imports Mem_Props
begin

section \<open>Properties of address spaces\<close>

text \<open>
  The properties of \<open>mmap\<close>, \<open>munmap\<close>, \<open>mprotect\<close> and \<open>msync\<close> on whole address spaces, for every page
  table that satisfies the laws of its crate.
\<close>

text \<open>A page table as a function, for the witnesses.\<close>

definition map_paging :: "(nat \<Rightarrow> pte option) paging" where
  "map_paging = \<lparr>
     map_fault_region = (\<lambda>v sz fl pt. let X = page_addrs v (sz div PAGE_SIZE_4K) in
       if \<forall>x \<in> X. pt x = None then Some (\<lambda>x. if x \<in> X then Some (None, fl) else pt x) else None),
     map_region = (\<lambda>v p sz fl huge pt. Some (\<lambda>x. if x \<in> page_addrs v (sz div PAGE_SIZE_4K) then Some (Some (p + (x - v)), fl) else pt x)),
     unmap_region = (\<lambda>v sz pt. let X = page_addrs v (sz div PAGE_SIZE_4K) in
       if \<forall>x \<in> X. pt x \<noteq> None then Some (\<lambda>x. if x \<in> X then None else pt x) else None),
     update_region = (\<lambda>v sz fl pt. let X = page_addrs v (sz div PAGE_SIZE_4K) in
       if \<forall>x \<in> X. pt x \<noteq> None then Some (\<lambda>x. if x \<in> X then map_option (\<lambda>(p, _). (p, fl)) (pt x) else pt x) else None),
     map_overwrite = (\<lambda>v p fl pt. Some (pt(v \<mapsto> (Some p, fl)))),
     map_page = (\<lambda>v p fl pt. Some (pt(v \<mapsto> (Some p, fl)))),
     map_fault = (\<lambda>v fl pt. Some (pt(v \<mapsto> (None, fl)))),
     pt_entry = (\<lambda>v pt. map_option (\<lambda>(p, fl). (p \<noteq> None, fl)) (pt (align_down_4k v))),
     pt_query = (\<lambda>v pt. Option.bind (pt (align_down_4k v)) (\<lambda>(p, fl). map_option (\<lambda>q. (q, fl)) p))\<rparr>"

lemma map_paging_laws: "paging_laws map_paging (\<lambda>pt. pt)"
  unfolding paging_laws_def by (simp add: map_paging_def)

text \<open>Two areas: three pages at page 16, the middle one touched, and one page at page 32.\<close>

definition two_areas :: "(nat \<Rightarrow> pte option) MemorySet" where
  "two_areas = (let a1 = \<lparr>pages = [None, Some 7, None], vaddr = 65536, shared = False, aflags = 1, backend = None\<rparr>;
       a2 = \<lparr>pages = [None], vaddr = 131072, shared = False, aflags = 1, backend = None\<rparr>
     in \<lparr>page_table = (\<lambda>x. if x \<in> {65536, 73728, 131072} then Some (None, 1) else if x = 69632 then Some (Some 7, 1) else None),
         owned_mem = [(65536, a1), (131072, a2)], private_mem = [], attached_mem = []\<rparr>)"

lemma two_areas_ok: "mset_ok fs (\<lambda>pt. pt) two_areas"
proof -
  have "pt_covers (\<lambda>pt. pt) (page_table two_areas) (pages_of (owned_mem two_areas))"
    unfolding pt_covers_def two_areas_def
    by (simp add: Let_def area_pages_def page_info_def coherent_def PAGE_SIZE_4K_def lessThan_nat_numeral lessThan_Suc)
  then show ?thesis
    by (simp add: mset_ok_def two_areas_def Let_def keys_ok_def area_ok_def is_aligned_4k_def PAGE_SIZE_4K_def apart_def area_range_def)
qed

lemma munmap_pages:
  assumes "cap_access acc" "paging_laws pg view" "mset_ok fs view ms"
    and "is_aligned_4k start" "0 < size0" "start + size0 + PAGE_SIZE_4K < usize_lim"
  shows "\<exists>ms'. munmap acc pg fs start size0 ms = Some ms' \<and> mset_ok fs view ms' \<and>
    pages_of (owned_mem ms') = {q \<in> pages_of (owned_mem ms). \<not> (start \<le> fst q \<and> fst q < start + page_round size0)} \<and>
    (\<forall>x. x \<notin> fst ` pages_of (owned_mem ms) \<longrightarrow> view (page_table ms') x = view (page_table ms) x) \<and>
    (\<forall>x \<in> fst ` pages_of (owned_mem ms). start \<le> x \<and> x < start + page_round size0 \<longrightarrow> view (page_table ms') x = None)"
proof -
  have r: "size0 \<le> page_round size0" "page_round size0 < size0 + PAGE_SIZE_4K" "page_round size0 mod PAGE_SIZE_4K = 0"
    using page_round_bounds [of size0] assms(6) by auto
  let ?stop = "start + page_round size0"
  have e: "uadd start (page_round size0) = ?stop"
    using r assms(6) by (intro uadd_eq) linarith
  have al: "is_aligned_4k ?stop"
    using assms(4) r(3) by (simp add: is_aligned_4k_def mod_add_eq [symmetric])
  have env: "unmap_env acc pg view start ?stop"
    using assms r al by (auto simp: unmap_env_def)
  have tr: "tr_set (unmap_page start ?stop) S = {q \<in> S. \<not> (start \<le> fst q \<and> fst q < ?stop)}" for S
    by (auto simp: tr_set_def unmap_page_def split: if_splits)
  from unmap.rewrite_overlapped_ok [OF env assms(3)] obtain ms' where
    ms': "rewrite_overlapped (split_one acc pg fs start ?stop) start ?stop ms = Some ms'" "mset_ok fs view ms'"
    "pages_of (owned_mem ms') = tr_set (unmap_page start ?stop) (pages_of (owned_mem ms))"
    "pt_follows view (unmap_page start ?stop) (pages_of (owned_mem ms)) (page_table ms) (page_table ms')" by blast
  have "munmap acc pg fs start size0 ms = Some ms'"
    using ms'(1) al by (simp add: munmap_def split_for_area_def e)
  then show ?thesis
    using ms'(2-4) unfolding tr pt_follows_def by auto
qed

text \<open>C4: \<open>munmap\<close> removes exactly the pages of the range. For any arrangement of areas it returns
  without panicking; the pages outside the range keep their physical page, flags, sharing and
  position in the backing file; the entries of the removed pages are gone from the page table and
  no entry of another page is touched; and the address space stays well formed.\<close>

theorem munmap_exact:
  assumes "cap_access acc" "paging_laws pg view" "mset_ok fs view ms"
    and "is_aligned_4k start" "0 < size0" "start + size0 + PAGE_SIZE_4K < usize_lim"
  shows "\<exists>ms'. munmap acc pg fs start size0 ms = Some ms' \<and> mset_ok fs view ms' \<and>
    pages_of (owned_mem ms') = {q \<in> pages_of (owned_mem ms). \<not> (start \<le> fst q \<and> fst q < start + page_round size0)} \<and>
    (\<forall>x. x \<notin> fst ` pages_of (owned_mem ms) \<longrightarrow> view (page_table ms') x = view (page_table ms) x) \<and>
    (\<forall>x \<in> fst ` pages_of (owned_mem ms). start \<le> x \<and> x < start + page_round size0 \<longrightarrow> view (page_table ms') x = None)"
  by (rule munmap_pages [OF assms])

theorem munmap_exact_witness:
  "\<exists>ms'. munmap subset_access map_paging ramfs_new 69632 1 two_areas = Some ms' \<and>
     69632 \<notin> fst ` pages_of (owned_mem ms') \<and> page_table ms' 69632 = None"
proof -
  have "is_aligned_4k 69632" "(0 :: nat) < 1" "69632 + 1 + PAGE_SIZE_4K < usize_lim" and r: "page_round 1 = 4096"
    by (simp_all add: is_aligned_4k_def PAGE_SIZE_4K_def usize_lim_def page_round_def num_pages_of_def uadd_def usub_def umul_def)
  from munmap_exact [OF subset_access_ok map_paging_laws two_areas_ok this(1-3)] obtain ms' where
    ms': "munmap subset_access map_paging ramfs_new 69632 1 two_areas = Some ms'"
    "pages_of (owned_mem ms') = {q \<in> pages_of (owned_mem two_areas). \<not> (69632 \<le> fst q \<and> fst q < 69632 + page_round 1)}"
    "\<forall>x \<in> fst ` pages_of (owned_mem two_areas). 69632 \<le> x \<and> x < 69632 + page_round 1 \<longrightarrow> page_table ms' x = None" by blast
  have "(69632, (Some 7, False, 1, None)) \<in> pages_of (owned_mem two_areas)"
    by (simp add: two_areas_def Let_def area_pages_def page_info_def PAGE_SIZE_4K_def image_iff)
  then have "69632 \<in> fst ` pages_of (owned_mem two_areas)"
    by force
  with ms' r show ?thesis by (intro exI [of _ ms']) auto
qed

text \<open>C22: \<open>mprotect\<close> changes the flags of exactly the pages of the range. It returns without
  panicking, splitting areas where needed; every page keeps its physical page, its sharing and its
  position in the backing file, the pages of the range get the new flags, and the page table agrees
  with the areas afterwards.\<close>

theorem mprotect_exact:
  assumes "cap_access acc" "paging_laws pg view" "mset_ok fs view ms"
    and "is_aligned_4k start" "is_aligned_4k (start + sz)" "0 < sz" "start + sz < usize_lim"
  shows "\<exists>ms'. mprotect acc pg fs start sz fl ms = Some ms' \<and> mset_ok fs view ms' \<and>
    pages_of (owned_mem ms') =
      (\<lambda>q. if start \<le> fst q \<and> fst q < start + sz then (fst q, set_flags fl (snd q)) else q) ` pages_of (owned_mem ms) \<and>
    (\<forall>x. x \<notin> fst ` pages_of (owned_mem ms) \<longrightarrow> view (page_table ms') x = view (page_table ms) x)"
proof -
  have e: "uadd start sz = start + sz"
    using assms(7) by (rule uadd_eq)
  have env: "unmap_env acc pg view start (start + sz)"
    using assms by (auto simp: unmap_env_def)
  have tr: "tr_set (protect_page start (start + sz) fl) S =
      (\<lambda>q. if start \<le> fst q \<and> fst q < start + sz then (fst q, set_flags fl (snd q)) else q) ` S" for S
    by (auto simp: tr_set_def protect_page_def)
  from protect.rewrite_overlapped_ok [OF env assms(3), of fl] obtain ms' where
    ms': "rewrite_overlapped (protect_one acc pg fs start (start + sz) fl) start (start + sz) ms = Some ms'" "mset_ok fs view ms'"
    "pages_of (owned_mem ms') = tr_set (protect_page start (start + sz) fl) (pages_of (owned_mem ms))"
    "pt_follows view (protect_page start (start + sz) fl) (pages_of (owned_mem ms)) (page_table ms) (page_table ms')" by blast
  have "mprotect acc pg fs start sz fl ms = Some ms'"
    using ms'(1) assms(5) by (simp add: mprotect_def e)
  then show ?thesis
    using ms'(2-4) unfolding tr pt_follows_def by auto
qed

theorem mprotect_exact_witness:
  "\<exists>ms'. mprotect subset_access map_paging ramfs_new 69632 65536 5 two_areas = Some ms' \<and>
     (69632, (Some 7, False, 5, None)) \<in> pages_of (owned_mem ms') \<and> (65536, (None, False, 1, None)) \<in> pages_of (owned_mem ms')"
proof -
  have "is_aligned_4k 69632" "is_aligned_4k (69632 + 65536)" "(0 :: nat) < 65536" "69632 + 65536 < usize_lim"
    by (simp_all add: is_aligned_4k_def PAGE_SIZE_4K_def usize_lim_def)
  from mprotect_exact [OF subset_access_ok map_paging_laws two_areas_ok this, of ramfs_new 5] obtain ms' where
    ms': "mprotect subset_access map_paging ramfs_new 69632 65536 5 two_areas = Some ms'"
    "pages_of (owned_mem ms') = (\<lambda>q. if 69632 \<le> fst q \<and> fst q < 69632 + 65536 then (fst q, set_flags 5 (snd q)) else q)
       ` pages_of (owned_mem two_areas)" by blast
  have p: "(69632, (Some 7, False, 1, None)) \<in> pages_of (owned_mem two_areas)" "(65536, (None, False, 1, None)) \<in> pages_of (owned_mem two_areas)"
    by (simp_all add: two_areas_def Let_def area_pages_def page_info_def PAGE_SIZE_4K_def image_iff)
  from imageI [OF p(1), of "\<lambda>q. if 69632 \<le> fst q \<and> fst q < 69632 + 65536 then (fst q, set_flags 5 (snd q)) else q"]
    imageI [OF p(2), of "\<lambda>q. if 69632 \<le> fst q \<and> fst q < 69632 + 65536 then (fst q, set_flags 5 (snd q)) else q"] ms'
  show ?thesis by (auto simp: set_flags_def)
qed

text \<open>One area of an address space beside all the others.\<close>

lemma area_beside:
  assumes "mset_ok fs view ms" "(k, ar) \<in> set (owned_mem ms)"
  obtains xs ys where "owned_mem ms = xs @ (k, ar) # ys" "k = vaddr ar" "area_ok fs ar" "bt_inv (xs @ ys)"
    "pt_covers view (page_table ms) (area_pages ar)"
    "\<forall>q \<in> set xs \<union> set ys. apart ar (snd q) \<and> area_ok fs (snd q) \<and> fst q = vaddr (snd q)"
proof -
  have inv: "bt_inv (owned_mem ms)" "keys_ok fs (owned_mem ms)" "sorted_wrt apart (map snd (owned_mem ms))"
    "pt_covers view (page_table ms) (pages_of (owned_mem ms))"
    using assms(1) by (auto simp: mset_ok_def)
  obtain xs ys where om: "owned_mem ms = xs @ (k, ar) # ys"
    using assms(2) by (auto simp: in_set_conv_decomp)
  show thesis
  proof (rule that [OF om])
    show "k = vaddr ar" "area_ok fs ar"
      using inv(2) assms(2) by (auto simp: keys_ok_def)
    show "bt_inv (xs @ ys)"
      using inv(1) unfolding om by (auto simp: bt_inv_append)
    show "pt_covers view (page_table ms) (area_pages ar)"
      using inv(4) by (auto simp: om pages_of_def pt_covers_def)
    show "\<forall>q \<in> set xs \<union> set ys. apart ar (snd q) \<and> area_ok fs (snd q) \<and> fst q = vaddr (snd q)"
      using inv(2,3) by (auto simp: om sorted_wrt_append keys_ok_def case_prod_unfold intro: apart_sym)
  qed
qed

lemma overlap_point:
  assumes "area_ok fs ar"
  shows "overlap_with ar x x \<longleftrightarrow> x \<in> area_range ar"
  using assms by (auto simp: overlap_with_def end_va_eq area_range_def)

text \<open>An empty range at the start of an area selects that area and no other.\<close>

lemma empty_range_selects:
  assumes "area_ok fs ar" "\<forall>q \<in> set xs \<union> set ys. apart ar (snd q) \<and> area_ok fs (snd q) \<and> fst q = vaddr (snd q)"
  defines "om \<equiv> xs @ (vaddr ar, ar) # ys"
  shows "filter (\<lambda>(k' :: nat, b). overlap_with b (vaddr ar) (vaddr ar)) om = [(vaddr ar, ar)]"
    and "filter (\<lambda>(k' :: nat, b). \<not> overlap_with b (vaddr ar) (vaddr ar)) om = xs @ ys"
    and "vaddr ar \<notin> fst ` set (xs @ ys)"
proof -
  have away: "\<not> overlap_with (snd q) (vaddr ar) (vaddr ar) \<and> fst q \<noteq> vaddr ar" if "q \<in> set xs \<union> set ys" for q
  proof -
    note q = bspec [OF assms(2) that]
    then have "vaddr ar \<notin> area_range (snd q)" "vaddr (snd q) \<in> area_range (snd q)"
      using vaddr_in_range [OF assms(1)] vaddr_in_range [of fs "snd q"] unfolding apart_def by blast+
    then show ?thesis
      using q overlap_point [of fs "snd q" "vaddr ar"] by auto
  qed
  have self: "overlap_with ar (vaddr ar) (vaddr ar)"
    using overlap_point [OF assms(1)] vaddr_in_range [OF assms(1)] by blast
  have none: "filter (\<lambda>(k' :: nat, b). overlap_with b (vaddr ar) (vaddr ar)) zs = []"
    "filter (\<lambda>(k' :: nat, b). \<not> overlap_with b (vaddr ar) (vaddr ar)) zs = zs" if "set zs \<subseteq> set xs \<union> set ys" for zs
    using that away by (fastforce simp: filter_empty_conv filter_id_conv)+
  show "filter (\<lambda>(k' :: nat, b). overlap_with b (vaddr ar) (vaddr ar)) om = [(vaddr ar, ar)]"
    "filter (\<lambda>(k' :: nat, b). \<not> overlap_with b (vaddr ar) (vaddr ar)) om = xs @ ys"
    using self none [of xs] none [of ys] unfolding om_def by simp_all
  show "vaddr ar \<notin> fst ` set (xs @ ys)"
    using away by (force simp: image_iff)
qed

text \<open>For an empty range the last branch of the split drops every page of the area.\<close>

lemma split_one_empty:
  assumes "paging_laws pg view" "area_ok fs ar" "pt_covers view pt (area_pages ar)"
  obtains pt' where "split_one acc pg fs (vaddr ar) (vaddr ar) ar pt = Some ([ar\<lparr>pages := []\<rparr>], pt')"
    "view pt' = (\<lambda>x. if x \<in> fst ` area_pages ar then None else view pt x)"
proof -
  from paging_sub(1) [OF assms(1,2) le0 order_refl assms(3)] obtain pt' where
    un: "unmap_region pg (vaddr ar) (length (pages ar) * PAGE_SIZE_4K) pt = Some pt'"
    and v: "view pt' = (\<lambda>x. if x \<in> fst ` area_pages ar then None else view pt x)"
    by (auto simp: sub_area_all)
  have nc: "\<not> contained_in ar (vaddr ar) (vaddr ar)" "\<not> strict_contain ar (vaddr ar) (vaddr ar)"
    using assms(2) by (auto simp: contained_in_def strict_contain_def end_va_eq [OF assms(2)] area_ok_def)
  show thesis
    by (rule that [OF _ v]) (use nc shrink_right_eq [OF assms(2), of 0 pg pt] un in \<open>simp add: split_one_def sub_area_0\<close>)
qed

text \<open>\<open>munmap\<close> with length zero at the start of an area unmaps the whole area. The range is empty,
  but the area counts as overlapping and is shrunk to nothing; an area without pages stays behind.\<close>

lemma munmap_zero_unmaps_area:
  assumes "paging_laws pg view" "mset_ok fs view ms" "(k, ar) \<in> set (owned_mem ms)"
  shows "\<exists>ms'. munmap acc pg fs k 0 ms = Some ms' \<and>
    pages_of (owned_mem ms') = pages_of (owned_mem ms) - area_pages ar \<and>
    (k, ar\<lparr>pages := []\<rparr>) \<in> set (owned_mem ms') \<and> (\<forall>x \<in> fst ` area_pages ar. view (page_table ms') x = None)"
proof -
  obtain xs ys where om: "owned_mem ms = xs @ (k, ar) # ys" "k = vaddr ar"
    and ar: "area_ok fs ar" and bt: "bt_inv (xs @ ys)" and cov: "pt_covers view (page_table ms) (area_pages ar)"
    and others: "\<forall>q \<in> set xs \<union> set ys. apart ar (snd q) \<and> area_ok fs (snd q) \<and> fst q = vaddr (snd q)"
    by (rule area_beside [OF assms(2,3)])
  note sel = empty_range_selects [OF ar others, folded om(2), folded om(1)]
  obtain pt' where one: "split_one acc pg fs k k ar (page_table ms) = Some ([ar\<lparr>pages := []\<rparr>], pt')"
    and v: "view pt' = (\<lambda>x. if x \<in> fst ` area_pages ar then None else view (page_table ms) x)"
    by (rule split_one_empty [OF assms(1) ar cov, folded om(2)])
  have z: "uadd k 0 = k" "page_round 0 = 0"
    using area_addr_lt(1) [OF ar, of 0]
    by (simp_all add: om uadd_def page_round_def num_pages_of_def usub_def umul_def PAGE_SIZE_4K_def usize_lim_def)
  have "map_of (xs @ ys) k = None"
    using sel(3) unfolding map_of_eq_None_iff .
  then have "insert_all [ar\<lparr>pages := []\<rparr>] (xs @ ys) = Some (bt_insert k (ar\<lparr>pages := []\<rparr>) (xs @ ys))"
    by (simp add: om)
  with one have rw: "rewrite_areas (split_one acc pg fs k k) [(k, ar)] (xs @ ys, page_table ms)
      = Some (bt_insert k (ar\<lparr>pages := []\<rparr>) (xs @ ys), pt')"
    by (simp del: insert_all.simps)
  let ?ms' = "ms\<lparr>owned_mem := bt_insert k (ar\<lparr>pages := []\<rparr>) (xs @ ys), page_table := pt'\<rparr>"
  have "is_aligned_4k k"
    using area_step_facts(1) [OF ar, of 0] by (simp add: om)
  with rw have "munmap acc pg fs k 0 ms = Some ?ms'"
    unfolding munmap_def z(2) split_for_area_def Let_def z(1) rewrite_overlapped_def sel by simp
  moreover have set': "set (owned_mem ?ms') = insert (k, ar\<lparr>pages := []\<rparr>) (set xs \<union> set ys)"
    using set_bt_insert_fresh [OF bt sel(3)] by simp
  moreover have "area_pages b \<inter> area_pages ar = {}" if "b \<in> snd ` (set xs \<union> set ys)" for b
    using that others apart_pages [of ar b] by (auto simp: image_iff)
  then have "pages_of (owned_mem ?ms') = pages_of (owned_mem ms) - area_pages ar"
    unfolding pages_of_def set' om(1) by (auto simp: area_pages_def [of "ar\<lparr>pages := []\<rparr>"])
  ultimately show ?thesis
    using v by (intro exI [of _ ?ms']) auto
qed

lemma munmap_zero_unmaps_area_witness:
  "\<exists>ms'. munmap subset_access map_paging ramfs_new 65536 0 two_areas = Some ms' \<and> page_table ms' 69632 = None"
proof -
  let ?ar = "\<lparr>pages = [None, Some 7, None], vaddr = 65536, shared = False, aflags = 1, backend = None\<rparr>"
  have m: "(65536, ?ar) \<in> set (owned_mem two_areas)"
    by (simp add: two_areas_def Let_def)
  have "69632 \<in> fst ` area_pages ?ar"
    by (simp add: fst_area_pages page_addrs_def PAGE_SIZE_4K_def image_iff)
  with munmap_zero_unmaps_area [OF map_paging_laws two_areas_ok m, of subset_access ramfs_new] show ?thesis by blast
qed

text \<open>A new area beside the mapped ones keeps the address space well formed, when the page table only
  gains entries that agree with the area.\<close>

lemma add_area_ok:
  assumes "mset_ok fs view ms" "area_ok fs ar" "\<And>k b. (k, b) \<in> set (owned_mem ms) \<Longrightarrow> apart ar b"
    and pt': "\<And>x. x \<notin> fst ` area_pages ar \<Longrightarrow> view pt' x = view (page_table ms) x" "pt_covers view pt' (area_pages ar)"
  obtains om' where "insert_all [ar] (owned_mem ms) = Some om'"
    "mset_ok fs view (ms\<lparr>page_table := pt', owned_mem := om'\<rparr>)"
    "pages_of om' = pages_of (owned_mem ms) \<union> area_pages ar"
proof -
  let ?om = "owned_mem ms"
  have inv: "bt_inv ?om" "keys_ok fs ?om" "sorted_wrt apart (map snd ?om)" "pt_covers view (page_table ms) (pages_of ?om)"
    using assms(1) by (auto simp: mset_ok_def)
  have srt: "sorted_wrt apart ([ar] @ map snd ?om)"
    using inv(3) assms(3) by auto
  have "\<forall>x \<in> set [ar]. area_ok fs x"
    using assms(2) by simp
  from insert_all_ok [OF this inv(1,2) srt] obtain om' where ins: "insert_all [ar] ?om = Some om'"
    and om': "bt_inv om'" "keys_ok fs om'" "mset (map snd om') = mset [ar] + mset (map snd ?om)" by blast
  have pgs: "pages_of om' = pages_of ?om \<union> area_pages ar"
    using arg_cong [OF om'(3), of set_mset] by (auto simp: pages_of_def)
  have not_new: "x \<notin> fst ` area_pages ar" if "x \<in> fst ` pages_of ?om" for x
  proof -
    from that obtain q where q: "q \<in> pages_of ?om" "x = fst q" by auto
    from q(1) obtain k b where b: "(k, b) \<in> set ?om" "q \<in> area_pages b"
      by (rule pages_ofE)
    then show ?thesis
      using q(2) apart_pages [OF apart_sym [OF assms(3) [OF b(1)]]] by blast
  qed
  have "pt_covers view pt' (pages_of ?om)"
    by (rule pt_covers_cong [OF inv(4)]) (use not_new pt'(1) in simp)
  moreover have "sorted_wrt apart (map snd om')"
    by (rule sorted_wrt_mset [OF srt]) (use om'(3) apart_sym in auto)
  ultimately have "mset_ok fs view (ms\<lparr>page_table := pt', owned_mem := om'\<rparr>)"
    using om' pt'(2) by (simp add: mset_ok_def pgs)
  from that [OF ins this pgs] show thesis .
qed

text \<open>The room found for a mapping lies beside every area.\<close>

lemma found_apart:
  assumes "keys_ok fs (owned_mem ms)" "sorted_wrt seg_disjoint (segments ms)"
    and segs: "\<forall>x \<in> set (segments ms). fst x < snd x \<and> snd x + sz < usize_lim"
    and find: "find_free_area user_start start sz ms = Some a" and lim: "max start user_start + sz < usize_lim"
    and b: "(k, b) \<in> set (owned_mem ms)" and ar: "vaddr ar = a" "length (pages ar) * PAGE_SIZE_4K = sz"
  shows "apart ar b"
proof -
  have kb: "k = vaddr b" "area_ok fs b" using assms(1) b by (auto simp: keys_ok_def)
  have "(k, uadd k (area_size b)) \<in> set (segments ms)"
    using b by (force simp: segments_def)
  moreover have "uadd k (area_size b) = vaddr b + length (pages b) * PAGE_SIZE_4K"
    using end_va_eq [OF kb(2)] by (simp add: end_va_def kb(1))
  ultimately have "a + sz \<le> vaddr b \<or> vaddr b + length (pages b) * PAGE_SIZE_4K \<le> a"
    using find_free_area_free [OF find assms(2) segs lim] kb(1) by auto
  then show ?thesis
    by (auto simp: apart_def area_range_def ar)
qed

lemma apart_range_pages:
  assumes "\<And>k b. (k, b) \<in> set om \<Longrightarrow> apart ar b" "q \<in> pages_of om"
  shows "\<not> (vaddr ar \<le> fst q \<and> fst q < vaddr ar + length (pages ar) * PAGE_SIZE_4K)"
proof -
  from assms(2) obtain k b where "(k, b) \<in> set om" "q \<in> area_pages b"
    by (rule pages_ofE)
  with assms(1) [of k b] pages_in_range [of "fst q" b] show ?thesis
    by (auto simp: apart_def area_range_def)
qed

text \<open>A lazily mapped region is one fresh area whose pages fault.\<close>

lemma new_region_lazy:
  fixes flags :: MappingFlags and shr :: bool and be :: "MemBackend option"
  assumes "map_fault_region pg a (n * PAGE_SIZE_4K) flags (page_table ms) = Some pt'" "num_pages_of (n * PAGE_SIZE_4K) = n"
    and "n * PAGE_SIZE_4K < usize_lim"
  defines "ar \<equiv> \<lparr>pages = replicate n None, vaddr = a, shared = shr, aflags = flags, backend = be\<rparr>"
  assumes "insert_all [ar] (owned_mem ms) = Some om'"
  shows "new_region pg contig a (n * PAGE_SIZE_4K) shr flags None be ms m = Some (ms\<lparr>page_table := pt', owned_mem := om'\<rparr>, m)"
proof -
  have lz: "new_lazy pg a n flags be (page_table ms) = Some (ar\<lparr>shared := False\<rparr>, pt')"
    using assms(1,3) by (simp add: new_lazy_def umul_eq ar_def)
  have sh: "(if shr then set_shared shr (ar\<lparr>shared := False\<rparr>) else ar\<lparr>shared := False\<rparr>) = ar"
    by (simp add: set_shared_def ar_def)
  show ?thesis
    using assms(5) by (simp add: new_region_def assms(2) lz sh del: insert_all.simps)
qed

lemma mmap_anywhere_pages:
  fixes flags :: MappingFlags and shr :: bool
  assumes "paging_laws pg view" "mset_ok (mfs m) view ms" "sorted_wrt seg_disjoint (segments ms)"
    and segs: "\<forall>x \<in> set (segments ms). fst x < snd x \<and> snd x + page_round size0 < usize_lim"
    and find: "find_free_area user_start start (page_round size0) ms = Some a"
    and lim: "max start user_start + page_round size0 < usize_lim" "size0 + 2 * PAGE_SIZE_4K < usize_lim" "a + page_round size0 < 2 ^ 63"
    and "0 < size0" "is_aligned_4k a" "pred_option (backend_ok (mfs m) (page_round size0)) be"
    and free: "\<forall>x \<in> page_addrs a (num_pages_of size0). view (page_table ms) x = None"
  defines "ar \<equiv> \<lparr>pages = replicate (num_pages_of size0) None, vaddr = a, shared = shr, aflags = flags, backend = be\<rparr>"
  shows "\<exists>ms'. mmap acc pg contig user_start start size0 flags shr False be ms m = Some (Inr a, ms', m) \<and>
    mset_ok (mfs m) view ms' \<and> pages_of (owned_mem ms') = pages_of (owned_mem ms) \<union> area_pages ar \<and>
    (\<forall>q \<in> pages_of (owned_mem ms). \<not> (a \<le> fst q \<and> fst q < a + page_round size0))"
proof -
  let ?n = "num_pages_of size0"
  have s0: "size0 + PAGE_SIZE_4K < usize_lim"
    using lim(2) by simp
  have sz: "page_round size0 = ?n * PAGE_SIZE_4K"
    using page_round_eq [OF s0] by simp
  have n: "0 < ?n"
    using page_round_bounds(1) [OF s0] \<open>0 < size0\<close> unfolding sz by (cases ?n) auto
  have again: "num_pages_of (?n * PAGE_SIZE_4K) = ?n"
    using page_round_bounds(2) [OF s0] lim(2) by (subst page_round_eq(1)) (simp_all add: sz PAGE_SIZE_4K_def)
  have ok: "area_ok (mfs m) ar"
    using assms n by (simp add: area_ok_def ar_def sz)
  have "keys_ok (mfs m) (owned_mem ms)"
    using assms(2) by (simp add: mset_ok_def)
  note away = found_apart [OF this assms(3) segs find lim(1), where ar = ar, simplified ar_def sz, simplified, folded ar_def]
  have top: "is_aligned_4k a \<and> a + ?n * PAGE_SIZE_4K < usize_lim" "?n * PAGE_SIZE_4K < usize_lim"
    using assms(10) lim(3) by (simp_all add: sz usize_lim_def)
  with assms(1) free obtain pt' where fault: "map_fault_region pg a (?n * PAGE_SIZE_4K) flags (page_table ms) = Some pt'"
    and v: "view pt' = (\<lambda>x. if x \<in> page_addrs a ?n then Some (None, flags) else view (page_table ms) x)"
    unfolding paging_laws_def by blast
  have old: "x \<notin> fst ` area_pages ar \<Longrightarrow> view pt' x = view (page_table ms) x" for x
    by (simp add: v fst_area_pages ar_def)
  have new: "pt_covers view pt' (area_pages ar)"
    unfolding pt_covers_def v by (auto simp: area_pages_def page_info_def coherent_def ar_def page_addrs_def)
  obtain om' where ins: "insert_all [ar] (owned_mem ms) = Some om'"
    and ok': "mset_ok (mfs m) view (ms\<lparr>page_table := pt', owned_mem := om'\<rparr>)"
    and pgs: "pages_of om' = pages_of (owned_mem ms) \<union> area_pages ar"
    by (rule add_area_ok [OF assms(2) ok away old new])
  have "mmap acc pg contig user_start start size0 flags shr False be ms m = Some (Inr a, ms\<lparr>page_table := pt', owned_mem := om'\<rparr>, m)"
    using find new_region_lazy [OF fault again top(2) ins [unfolded ar_def]] by (simp add: mmap_def Let_def sz)
  moreover have "\<forall>q \<in> pages_of (owned_mem ms). \<not> (a \<le> fst q \<and> fst q < a + page_round size0)"
    using apart_range_pages [OF away] by (simp add: ar_def sz)
  ultimately show ?thesis
    using ok' pgs by (intro exI [of _ "ms\<lparr>page_table := pt', owned_mem := om'\<rparr>"]) simp
qed



end
