(* ===== verification/Wait_Queue.thy ===== *)
theory Wait_Queue
  imports Task_State Linked_List
begin

section \<open>Wait lists, wait queues and alarms\<close>

text \<open>
  How tasks wait for events: the list of waiting wakers (\<open>task_api/src/wait_list.rs\<close>), the
  futures of a wait queue (\<open>sync/src/wait_queue.rs\<close>, coroutine build) and the alarms
  (\<open>task_api/src/timers.rs\<close>). A waker is the task it wakes; a node of a wait list has an identity
  (its allocation) and a waker, so two nodes of one task differ. The list belongs to an external
  crate and is the parameter of \<open>Linked_List\<close>; the timer list is a parameter in the same way. A
  panic of \<open>wakeup_task\<close> is \<open>None\<close>.
\<close>

subsection \<open>The list of waiting wakers\<close>

type_synonym WaitWakerNode = "nat \<times> tid"

abbreviation node_waker :: "WaitWakerNode \<Rightarrow> tid" where
  "node_waker \<equiv> snd"

type_synonym 'l wait_ops = "('l, WaitWakerNode) linked_list_ops"

definition wait_list_new :: "'l wait_ops \<Rightarrow> 'l" where
  "wait_list_new L = ll_new L"

definition prepare_to_wait :: "'l wait_ops \<Rightarrow> WaitWakerNode \<Rightarrow> kernel \<Rightarrow> 'l \<Rightarrow> kernel \<times> 'l" where
  "prepare_to_wait L w k l = (set_state Blocking (node_waker w) k, ll_push_back L w l)"

definition wait_list_remove :: "'l wait_ops \<Rightarrow> WaitWakerNode \<Rightarrow> 'l \<Rightarrow> WaitWakerNode option \<times> 'l" where
  "wait_list_remove L w l = ll_remove L w l"

text \<open>\<open>notify_task\<close> walks the list with a cursor; \<open>entries\<close> is the order of the walk. Whatever it
  finds, it returns \<open>false\<close>.\<close>

definition notify_task :: "'l wait_ops \<Rightarrow> ('l \<Rightarrow> WaitWakerNode list) \<Rightarrow> tid \<Rightarrow> kernel \<Rightarrow> 'l \<Rightarrow> (bool \<times> kernel \<times> 'l) option" where
  "notify_task L entries t k l =
     (case find (\<lambda>w. node_waker w = t) (entries l) of
        None \<Rightarrow> Some (False, k, l)
      | Some w \<Rightarrow> do {
          k' \<leftarrow> wakeup_task (node_waker w) k;
          Some (False, k', snd (ll_remove L w l))
        })"

definition notify_one :: "'l wait_ops \<Rightarrow> kernel \<Rightarrow> 'l \<Rightarrow> (bool \<times> kernel \<times> 'l) option" where
  "notify_one L k l =
     (case ll_pop_front L l of
        (Some w, l') \<Rightarrow> do { k' \<leftarrow> wakeup_task (node_waker w) k; Some (True, k', l') }
      | (None, l') \<Rightarrow> Some (False, k, l'))"

text \<open>The loop of \<open>notify_all\<close> ends when the list is empty; \<open>None\<close> stands for a panic and for a
  loop that does not end.\<close>

partial_function (option) notify_all :: "'l wait_ops \<Rightarrow> kernel \<Rightarrow> 'l \<Rightarrow> (kernel \<times> 'l) option" where
  "notify_all L k l = do {
     (woken, k', l') \<leftarrow> notify_one L k l;
     if woken then notify_all L k' l' else Some (k', l')
   }"

subsection \<open>Alarms\<close>

text \<open>The timer list of the external crate \<open>timer_list\<close> holds deadlines with the task to wake.
  \<open>set\<close> adds one, \<open>cancel\<close> drops those that satisfy a condition, and \<open>expire_one\<close> takes out one
  with the least deadline if that deadline has passed.\<close>

record 'm timer_ops =
  tm_set :: "nat \<Rightarrow> tid \<Rightarrow> 'm \<Rightarrow> 'm"
  tm_cancel :: "(tid \<Rightarrow> bool) \<Rightarrow> 'm \<Rightarrow> 'm"
  tm_expire_one :: "nat \<Rightarrow> 'm \<Rightarrow> (nat \<times> tid) option \<times> 'm"

definition timer_laws :: "'m timer_ops \<Rightarrow> ('m \<Rightarrow> (nat \<times> tid) multiset) \<Rightarrow> bool" where
  "timer_laws T events \<longleftrightarrow>
     (\<forall>d t m. events (tm_set T d t m) = add_mset (d, t) (events m)) \<and>
     (\<forall>P m. events (tm_cancel T P m) = filter_mset (\<lambda>(_, t). \<not> P t) (events m)) \<and>
     (\<forall>now m. case tm_expire_one T now m of
        (None, m') \<Rightarrow> m' = m \<and> (\<forall>(d, _) \<in># events m. now < d)
      | (Some (d, t), m') \<Rightarrow> d \<le> now \<and> events m = add_mset (d, t) (events m') \<and> (\<forall>(d', _) \<in># events m. d \<le> d'))"

definition set_alarm_wakeup :: "'m timer_ops \<Rightarrow> nat \<Rightarrow> tid \<Rightarrow> kernel \<Rightarrow> 'm \<Rightarrow> kernel \<times> 'm" where
  "set_alarm_wakeup T deadline t k m = (set_state Blocking t k, tm_set T deadline t m)"

definition cancel_alarm :: "'m timer_ops \<Rightarrow> tid \<Rightarrow> 'm \<Rightarrow> 'm" where
  "cancel_alarm T t m = tm_cancel T (\<lambda>u. u = t) m"

text \<open>\<open>clock i\<close> is the \<open>i\<close>th reading of the time.\<close>

partial_function (option) check_events :: "'m timer_ops \<Rightarrow> (nat \<Rightarrow> nat) \<Rightarrow> nat \<Rightarrow> kernel \<Rightarrow> 'm \<Rightarrow> (kernel \<times> 'm) option" where
  "check_events T clock i k m =
     (case tm_expire_one T (clock i) m of
        (Some (_, t), m') \<Rightarrow> do { k' \<leftarrow> wakeup_task t k; check_events T clock (Suc i) k' m' }
      | (None, m') \<Rightarrow> Some (k, m'))"

subsection \<open>The futures of a wait queue\<close>

text \<open>Each poll allocates a node for the waker it is given; \<open>w\<close> is that new node. \<open>WaitFuture\<close>
  and \<open>WaitTimeoutFuture\<close> keep a flag that no code ever sets.\<close>

record WaitFuture =
  wf_flag :: bool

definition wq_wait :: WaitFuture where
  "wq_wait = \<lparr>wf_flag = False\<rparr>"

definition wait_poll ::
  "'l wait_ops \<Rightarrow> WaitWakerNode \<Rightarrow> WaitFuture \<Rightarrow> kernel \<Rightarrow> 'l \<Rightarrow> unit poll \<times> WaitFuture \<times> kernel \<times> 'l" where
  "wait_poll L w f k l =
     (if \<not> wf_flag f then (case prepare_to_wait L w k l of (k', l') \<Rightarrow> (Pending, f, k', l'))
      else (Ready (), f, k, snd (wait_list_remove L w l)))"

text \<open>\<open>cond\<close> is what the condition evaluates to in this poll.\<close>

definition wait_until_poll :: "'l wait_ops \<Rightarrow> WaitWakerNode \<Rightarrow> bool \<Rightarrow> kernel \<Rightarrow> 'l \<Rightarrow> unit poll \<times> kernel \<times> 'l" where
  "wait_until_poll L w cond k l =
     (if cond then (Ready (), k, snd (wait_list_remove L w l))
      else (case prepare_to_wait L w k l of (k', l') \<Rightarrow> (Pending, k', l')))"

record WaitTimeoutFuture =
  wtf_res :: "bool option"
  wtf_deadline :: nat
  wtf_flag :: bool

definition wq_wait_timeout :: "nat \<Rightarrow> WaitTimeoutFuture" where
  "wq_wait_timeout deadline = \<lparr>wtf_res = None, wtf_deadline = deadline, wtf_flag = False\<rparr>"

definition wait_timeout_poll ::
  "'l wait_ops \<Rightarrow> 'm timer_ops \<Rightarrow> WaitWakerNode \<Rightarrow> nat \<Rightarrow> WaitTimeoutFuture \<Rightarrow> kernel \<Rightarrow> 'l \<Rightarrow> 'm
     \<Rightarrow> bool poll \<times> WaitTimeoutFuture \<times> kernel \<times> 'l \<times> 'm" where
  "wait_timeout_poll L T w now f k l m =
     (case wtf_res f of
        Some r \<Rightarrow> (Ready r, f, k, l, m)
      | None \<Rightarrow>
          if \<not> wtf_flag f then
            (case prepare_to_wait L w k l of (k1, l') \<Rightarrow>
             case set_alarm_wakeup T (wtf_deadline f) (node_waker w) k1 m of (k2, m') \<Rightarrow> (Pending, f, k2, l', m'))
          else (Ready (wtf_deadline f \<le> now), f, k, snd (wait_list_remove L w l), cancel_alarm T (node_waker w) m))"

record WaitTimeoutUntilFuture =
  wtu_res :: "bool option"
  wtu_deadline :: nat

definition wq_wait_timeout_until :: "nat \<Rightarrow> WaitTimeoutUntilFuture" where
  "wq_wait_timeout_until deadline = \<lparr>wtu_res = None, wtu_deadline = deadline\<rparr>"

definition wait_timeout_until_poll ::
  "'l wait_ops \<Rightarrow> 'm timer_ops \<Rightarrow> WaitWakerNode \<Rightarrow> nat \<Rightarrow> bool \<Rightarrow> WaitTimeoutUntilFuture \<Rightarrow> kernel \<Rightarrow> 'l \<Rightarrow> 'm
     \<Rightarrow> bool poll \<times> kernel \<times> 'l \<times> 'm" where
  "wait_timeout_until_poll L T w now cond f k l m =
     (case wtu_res f of
        Some r \<Rightarrow> (Ready r, k, l, m)
      | None \<Rightarrow>
          if cond then (Ready (wtu_deadline f \<le> now), k, snd (wait_list_remove L w l), m)
          else if wtu_deadline f \<le> now then
            (Ready True, k, snd (wait_list_remove L w l), cancel_alarm T (node_waker w) m)
          else
            (case prepare_to_wait L w k l of (k1, l') \<Rightarrow>
             case set_alarm_wakeup T (wtu_deadline f) (node_waker w) k1 m of (k2, m') \<Rightarrow> (Pending, k2, l', m')))"

subsection \<open>Notifying\<close>

definition state_of :: "kernel \<Rightarrow> tid \<Rightarrow> TaskState option" where
  "state_of k t = map_option task_state (tasks k t)"

lemma state_of_set_state [simp]:
  "state_of (set_state st t k) u = (if u = t then map_option (\<lambda>_. st) (state_of k t) else state_of k u)"
  by (simp add: state_of_def set_state_def upd_task_def option.map_comp comp_def)

lemma state_of_queue [simp]: "state_of (k\<lparr>ready_queue := q\<rparr>) t = state_of k t"
  by (simp add: state_of_def)

text \<open>What a wake-up does to the state of a task: a task that gives up its CPU or has given it
  up is awake afterwards, other tasks keep their state.\<close>

definition asleep :: "TaskState \<Rightarrow> bool" where
  "asleep s \<longleftrightarrow> s = Blocking \<or> s = Blocked"

definition awake :: "TaskState \<Rightarrow> bool" where
  "awake s \<longleftrightarrow> s = Running \<or> s = Runable \<or> s = Waked"

lemma asleep_simps [simp]:
  "asleep Blocking" "asleep Blocked" "\<not> asleep Running" "\<not> asleep Runable" "\<not> asleep Waked" "\<not> asleep Exited"
  "awake Running" "awake Runable" "awake Waked" "\<not> awake Blocking" "\<not> awake Blocked" "\<not> awake Exited"
  by (simp_all add: asleep_def awake_def)

lemma wakeup_state:
  assumes "state_of k t = Some s" "s \<noteq> Waked" "s \<noteq> Exited"
  obtains k' s' where "wakeup_task t k = Some k'" "state_of k' t = Some s'" "awake s'"
    "\<And>u. u \<noteq> t \<Longrightarrow> state_of k' u = state_of k u"
proof -
  from assms(1) obtain ti where ti: "tasks k t = Some ti" "task_state ti = s"
    by (auto simp: state_of_def)
  show thesis
  proof (cases s)
    case Running
    with ti assms show ?thesis by (intro that [of k s]) (simp_all add: wakeup_task_def)
  next
    case Runable
    with ti assms show ?thesis by (intro that [of k s]) (simp_all add: wakeup_task_def)
  next
    case Blocking
    with ti assms show ?thesis by (intro that [of "set_state Waked t k" Waked]) (simp_all add: wakeup_task_def)
  next
    case Blocked
    let ?k = "set_state Runable t k"
    from Blocked ti assms show ?thesis
      by (intro that [of "?k\<lparr>ready_queue := ready_queue ?k @ [t]\<rparr>" Runable]) (simp_all add: wakeup_task_def Let_def)
  qed (use assms in simp_all)
qed

lemma notify_one_Cons:
  assumes "linked_list_laws L e" "e l = w # ws"
  shows "\<exists>l'. notify_one L k l = map_option (\<lambda>k'. (True, k', l')) (wakeup_task (node_waker w) k) \<and> e l' = ws"
proof -
  obtain r l' where p: "ll_pop_front L l = (r, l')" by (cases "ll_pop_front L l")
  with ll_pop_front_entries [OF assms(1) p] assms(2) show ?thesis
    by (cases "wakeup_task (node_waker w) k") (auto simp: notify_one_def intro!: exI [of _ l'])
qed

lemma notify_one_Nil:
  assumes "linked_list_laws L e" "e l = []"
  shows "\<exists>l'. notify_one L k l = Some (False, k, l') \<and> e l' = []"
proof -
  obtain r l' where p: "ll_pop_front L l = (r, l')" by (cases "ll_pop_front L l")
  with ll_pop_front_entries [OF assms(1) p] assms(2) show ?thesis
    by (auto simp: notify_one_def)
qed

text \<open>The alarms that are due fire and the loop over them ends: what is left lies after the last
  reading of the clock, nothing else has been dropped, and only the tasks of the fired alarms have
  been woken.\<close>

lemma expire_one_law:
  assumes "timer_laws T ev" "tm_expire_one T now m = (r, m')"
  shows "(case r of None \<Rightarrow> m' = m \<and> (\<forall>x \<in># ev m. now < fst x) | Some (d, t) \<Rightarrow> ev m = add_mset (d, t) (ev m'))"
  using assms(1) [unfolded timer_laws_def, THEN conjunct2, THEN conjunct2, THEN spec, of now, THEN spec, of m] assms(2)
  by (auto split: option.splits)

lemma check_events_returns:
  assumes "timer_laws T ev" "\<forall>u. count (image_mset snd (ev m)) u \<le> 1"
    and "\<forall>x \<in># ev m. \<exists>s. state_of k (snd x) = Some s \<and> s \<noteq> Waked \<and> s \<noteq> Exited"
  shows "\<exists>k' m' n. check_events T clock i k m = Some (k', m') \<and> ev m' \<subseteq># ev m \<and> (\<forall>x \<in># ev m'. clock n < fst x) \<and>
    (\<forall>x \<in># ev m - ev m'. \<exists>s. state_of k' (snd x) = Some s \<and> awake s) \<and>
    (\<forall>u. u \<notin># image_mset snd (ev m - ev m') \<longrightarrow> state_of k' u = state_of k u)"
  using assms(2,3)
proof (induction "size (ev m)" arbitrary: m k i rule: less_induct)
  case less
  obtain r m1 where p: "tm_expire_one T (clock i) m = (r, m1)" by (cases "tm_expire_one T (clock i) m")
  note law = expire_one_law [OF assms(1) p]
  show ?case
  proof (cases r)
    case None
    with law p show ?thesis by (subst check_events.simps) auto
  next
    case (Some x)
    obtain d t where x: "x = (d, t)" by (cases x)
    from law Some x have m1: "ev m = add_mset (d, t) (ev m1)" by simp
    with less.prems(2) obtain s where "state_of k t = Some s" "s \<noteq> Waked" "s \<noteq> Exited" by auto
    then obtain k1 s1 where k1: "wakeup_task t k = Some k1" "state_of k1 t = Some s1" "awake s1"
      and other: "\<And>u. u \<noteq> t \<Longrightarrow> state_of k1 u = state_of k u"
      by (rule wakeup_state) blast
    have fresh: "t \<notin># image_mset snd (ev m1)"
      using less.prems(1) [rule_format, of t] m1 by (simp add: not_in_iff del: set_image_mset)
    have one: "\<forall>u. count (image_mset snd (ev m1)) u \<le> 1"
    proof
      fix u show "count (image_mset snd (ev m1)) u \<le> 1"
        using less.prems(1) [rule_format, of u] m1 by (simp split: if_splits)
    qed
    have st: "\<forall>x \<in># ev m1. \<exists>s. state_of k1 (snd x) = Some s \<and> s \<noteq> Waked \<and> s \<noteq> Exited"
    proof
      fix y assume y: "y \<in># ev m1"
      then have "snd y \<noteq> t" using fresh by auto
      with y less.prems(2) m1 other [of "snd y"] show "\<exists>s. state_of k1 (snd y) = Some s \<and> s \<noteq> Waked \<and> s \<noteq> Exited"
        by simp
    qed
    have "size (ev m1) < size (ev m)" using m1 by simp
    from less.hyps [OF this one st, of "Suc i"] obtain k' m' j where
      r: "check_events T clock (Suc i) k1 m1 = Some (k', m')" "ev m' \<subseteq># ev m1" "\<forall>x \<in># ev m'. clock j < fst x"
      "\<forall>x \<in># ev m1 - ev m'. \<exists>s. state_of k' (snd x) = Some s \<and> awake s"
      "\<forall>u. u \<notin># image_mset snd (ev m1 - ev m') \<longrightarrow> state_of k' u = state_of k1 u" by blast
    have diff: "ev m - ev m' = add_mset (d, t) (ev m1 - ev m')"
      using subset_mset.add_diff_assoc [OF r(2), of "{#(d, t)#}"] m1 by simp
    have "t \<notin># image_mset snd (ev m1 - ev m')"
      using fresh by (auto dest: in_diffD)
    with r(5) k1(2) have "state_of k' t = Some s1" by simp
    moreover have "check_events T clock i k m = Some (k', m')"
      using p Some x k1(1) r(1) by (subst check_events.simps) simp
    moreover have "ev m' \<subseteq># ev m"
      using r(2) m1 by (simp add: subset_mset.add_increasing subset_mset.order_trans)
    ultimately show ?thesis
      using r(3-5) k1(3) other by (intro exI [of _ k'] exI [of _ m'] exI [of _ j]) (auto simp: diff)
  qed
qed

subsection \<open>Properties\<close>


text \<open>A machine with one blocked and one running task.\<close>

definition two_tasks :: kernel where
  "two_tasks = \<lparr>tasks = [1 \<mapsto> task_state_update (\<lambda>_. Blocked) (task_new 1 False 1 0),
     2 \<mapsto> task_state_update (\<lambda>_. Running) (task_new 1 False 1 0)], ready_queue = [], current = [0 \<mapsto> 2]\<rparr>"

lemma two_tasks_states [simp]: "state_of two_tasks 1 = Some Blocked" "state_of two_tasks (Suc 0) = Some Blocked" "state_of two_tasks 2 = Some Running"
  by (simp_all add: state_of_def two_tasks_def)


text \<open>
  Waiting without a condition never ends. The flag that would make the future ready is never
  set: every poll of \<open>wait\<close> is pending, makes the task \<open>Blocking\<close> again and adds one more node for
  it to the queue, also after the task has been notified.
\<close>

fun wait_polls :: "'l wait_ops \<Rightarrow> (WaitWakerNode \<times> kernel) list \<Rightarrow> WaitFuture \<Rightarrow> 'l \<Rightarrow> unit poll list \<times> WaitFuture \<times> 'l" where
  "wait_polls L [] f l = ([], f, l)"
| "wait_polls L ((w, k) # ws) f l =
     (case wait_poll L w f k l of (r, f', _, l') \<Rightarrow>
      case wait_polls L ws f' l' of (rs, f'', l'') \<Rightarrow> (r # rs, f'', l''))"

lemma wait_never_completes:
  assumes "linked_list_laws L e" "distinct (map fst ws)" "set (map fst ws) \<inter> set (e l) = {}"
  shows "\<exists>l'. wait_polls L ws wq_wait l = (replicate (length ws) Pending, wq_wait, l') \<and> e l' = e l @ map fst ws"
  using assms(2,3)
proof (induction ws arbitrary: l)
  case Nil
  show ?case by simp
next
  case (Cons p ws)
  obtain w k where p: "p = (w, k)" by (cases p)
  let ?l = "ll_push_back L w l"
  have e: "e ?l = e l @ [w]"
    using ll_push_back_entries [OF assms(1)] Cons.prems p by auto
  have "set (map fst ws) \<inter> set (e ?l) = {}" "distinct (map fst ws)"
    using Cons.prems p unfolding e by auto
  from Cons.IH [OF this(2,1)] obtain l' where
    "wait_polls L ws wq_wait ?l = (replicate (length ws) Pending, wq_wait, l')" "e l' = e ?l @ map fst ws" by blast
  then show ?case
    by (auto simp: p e wait_poll_def wq_wait_def prepare_to_wait_def)
qed

lemma wait_never_completes_witness:
  "wait_polls list_instance [((0, 2), two_tasks), ((1, 2), two_tasks)] wq_wait []
     = ([Pending, Pending], wq_wait, [(0, 2), (1, 2)])"
  using wait_never_completes [OF list_instance_laws, of "[((0, 2), two_tasks), ((1, 2), two_tasks)]" "[]"]
  by (auto simp: numeral_2_eq_2)

text \<open>
  A timed-out waiter swallows a notification. A task that gives up \<open>wait_timeout_until\<close> at
  its deadline asks to remove the node of its last poll, which was never in the queue; the node
  of its first poll stays there. The next notification takes that node, and the task that really
  waits behind it stays asleep.
\<close>

lemma timeout_swallows_notification:
  assumes "linked_list_laws L e" "e l = []" "distinct [w1, w2, w3]" "node_waker w2 = node_waker w1" "node_waker w3 \<noteq> node_waker w1"
    and "now < deadline" "deadline \<le> later"
    and "state_of k' (node_waker w1) = Some Running" "state_of k' (node_waker w3) = Some Running"
  shows "\<exists>k1 l1 m1 k2 l2 m2 k3 l3 k4 l4.
    wait_timeout_until_poll L T w1 now False (wq_wait_timeout_until deadline) k l m = (Pending, k1, l1, m1) \<and>
    wait_timeout_until_poll L T w2 later False (wq_wait_timeout_until deadline) k' l1 m1 = (Ready True, k2, l2, m2) \<and>
    wait_until_poll L w3 False k2 l2 = (Pending, k3, l3) \<and>
    notify_one L k3 l3 = Some (True, k4, l4) \<and> e l4 = [w3] \<and> state_of k4 (node_waker w3) = Some Blocking"
proof -
  let ?l1 = "ll_push_back L w1 l"
  have l1: "e ?l1 = [w1]"
    using ll_push_back_entries [OF assms(1), of w1 l] assms(2) by simp
  define l2 where "l2 = snd (ll_remove L w2 ?l1)"
  have l2: "e l2 = [w1]"
    using ll_remove_entries [OF assms(1), of w2 ?l1 "fst (ll_remove L w2 ?l1)" l2] l1 assms(3) by (auto simp: l2_def)
  let ?l3 = "ll_push_back L w3 l2" and ?k3 = "set_state Blocking (node_waker w3) k'"
  have l3: "e ?l3 = [w1, w3]"
    using ll_push_back_entries [OF assms(1), of w3 l2] assms(3) l2 by auto
  have run: "state_of ?k3 (node_waker w1) = Some Running"
    using assms by simp
  then have "wakeup_task (node_waker w1) ?k3 = Some ?k3"
    by (auto simp: wakeup_task_def state_of_def)
  with notify_one_Cons [OF assms(1) l3, of ?k3] obtain l4 where
    "notify_one L ?k3 ?l3 = Some (True, ?k3, l4)" "e l4 = [w3]" by auto
  then show ?thesis
    using assms(6,7,9)
    by (auto simp: wait_timeout_until_poll_def wq_wait_timeout_until_def wait_until_poll_def prepare_to_wait_def
        set_alarm_wakeup_def wait_list_remove_def l2_def)
qed

text \<open>A timer list kept as a plain list in the order of the deadlines.\<close>

definition list_timers :: "(nat \<times> tid) list timer_ops" where
  "list_timers = \<lparr>tm_set = (\<lambda>d t m. insort_key fst (d, t) m), tm_cancel = (\<lambda>P m. filter (\<lambda>(_, t). \<not> P t) m),
     tm_expire_one = (\<lambda>now m. case m of [] \<Rightarrow> (None, m) | x # m' \<Rightarrow> if fst x \<le> now then (Some x, m') else (None, m))\<rparr>"

definition running_pair :: kernel where
  "running_pair = \<lparr>tasks = [1 \<mapsto> task_state_update (\<lambda>_. Running) (task_new 1 False 1 0),
     2 \<mapsto> task_state_update (\<lambda>_. Running) (task_new 1 False 1 0)], ready_queue = [], current = [0 \<mapsto> 1, 1 \<mapsto> 2]\<rparr>"

lemma timeout_swallows_notification_witness:
  "\<exists>k1 l1 m1 k2 l2 m2 k3 l3 k4.
    wait_timeout_until_poll list_instance list_timers (0, 1) 5 False (wq_wait_timeout_until 9) running_pair [] [] = (Pending, k1, l1, m1) \<and>
    wait_timeout_until_poll list_instance list_timers (1, 1) 9 False (wq_wait_timeout_until 9) running_pair l1 m1 = (Ready True, k2, l2, m2) \<and>
    wait_until_poll list_instance (2, 2) False k2 l2 = (Pending, k3, l3) \<and>
    notify_one list_instance k3 l3 = Some (True, k4, [(2, 2)]) \<and> state_of k4 2 = Some Blocking"
proof -
  have "state_of running_pair 1 = Some Running" "state_of running_pair 2 = Some Running"
    by (simp_all add: state_of_def running_pair_def)
  with timeout_swallows_notification [OF list_instance_laws, of "[]" "(0, 1)" "(1, 1)" "(2, 2)" 5 9 9 running_pair list_timers running_pair "[]"]
  show ?thesis by force
qed

end
