(* ===== verification/Mutex.thy ===== *)
theory Mutex
  imports Wait_Queue
begin

section \<open>The asynchronous mutex\<close>

text \<open>
  \<open>sync/src/mutex.rs\<close> in the coroutine build. The owner is the address of the task that holds the
  lock, zero when it is free. \<open>lock()\<close> returns a guard without data, which is also the future
  to await; its poll takes the lock or registers the task in the wait queue. The operations are
  written for one undisturbed call; on several CPUs a poll is interleaved with the other calls
  between its memory accesses, and \<open>mstep\<close> takes it apart into these. Task identifiers stand for
  addresses of task control blocks, so zero is none of them.
\<close>

subsection \<open>Operations\<close>

record ('l, 'd) Mutex =
  wq :: 'l
  owner_task :: tid
  mdata :: 'd

text \<open>A guard has its data when it holds the lock.\<close>

record 'd MutexGuard =
  gdata :: "'d option"

definition mutex_new :: "'l wait_ops \<Rightarrow> 'd \<Rightarrow> ('l, 'd) Mutex" where
  "mutex_new L d = \<lparr>wq = wait_list_new L, owner_task = 0, mdata = d\<rparr>"

definition into_inner :: "('l, 'd) Mutex \<Rightarrow> 'd" where
  "into_inner m = mdata m"

definition is_locked :: "('l, 'd) Mutex \<Rightarrow> bool" where
  "is_locked m \<longleftrightarrow> owner_task m \<noteq> 0"

definition mutex_lock :: "'d MutexGuard" where
  "mutex_lock = \<lparr>gdata = None\<rparr>"

text \<open>\<open>compare_exchange(0, me)\<close> on the owner: the new mutex, or the owner that was seen.\<close>

definition acquire_owner :: "tid \<Rightarrow> ('l, 'd) Mutex \<Rightarrow> tid + ('l, 'd) Mutex" where
  "acquire_owner me m = (if owner_task m = 0 then Inr (m\<lparr>owner_task := me\<rparr>) else Inl (owner_task m))"

definition try_lock :: "tid \<Rightarrow> ('l, 'd) Mutex \<Rightarrow> 'd MutexGuard option \<times> ('l, 'd) Mutex" where
  "try_lock me m =
     (case acquire_owner me m of
        Inr m' \<Rightarrow> (Some \<lparr>gdata = Some (mdata m')\<rparr>, m')
      | Inl _ \<Rightarrow> (None, m))"

text \<open>\<open>owner_task.swap(0)\<close> and the assertion on the old owner.\<close>

definition release_owner :: "tid \<Rightarrow> ('l, 'd) Mutex \<Rightarrow> ('l, 'd) Mutex option" where
  "release_owner me m = (if owner_task m = me then Some (m\<lparr>owner_task := 0\<rparr>) else None)"

definition force_unlock :: "'l wait_ops \<Rightarrow> tid \<Rightarrow> kernel \<Rightarrow> ('l, 'd) Mutex \<Rightarrow> (kernel \<times> ('l, 'd) Mutex) option" where
  "force_unlock L me k m = do {
     m1 \<leftarrow> release_owner me m;
     (_, k', l') \<leftarrow> notify_one L k (wq m1);
     Some (k', m1\<lparr>wq := l'\<rparr>)
   }"

definition guard_deref :: "'d MutexGuard \<Rightarrow> 'd option" where
  "guard_deref g = gdata g"

definition guard_drop :: "'l wait_ops \<Rightarrow> tid \<Rightarrow> 'd MutexGuard \<Rightarrow> kernel \<Rightarrow> ('l, 'd) Mutex \<Rightarrow> (kernel \<times> ('l, 'd) Mutex) option" where
  "guard_drop L me g k m = (if gdata g \<noteq> None then force_unlock L me k m else Some (k, m))"

text \<open>One poll of the guard without interference: the condition of \<open>wait_until\<close> is evaluated right
  after the exchange has failed, so it is false. \<open>w\<close> is the node the poll allocates.\<close>

definition guard_poll ::
  "'l wait_ops \<Rightarrow> WaitWakerNode \<Rightarrow> 'd MutexGuard \<Rightarrow> kernel \<Rightarrow> ('l, 'd) Mutex \<Rightarrow> ('d MutexGuard poll \<times> kernel \<times> ('l, 'd) Mutex) option" where
  "guard_poll L w g k m = do {
     rassert (gdata g = None);
     case acquire_owner (node_waker w) m of
       Inr m' \<Rightarrow> Some (Ready \<lparr>gdata = Some (mdata m')\<rparr>, k, m')
     | Inl owner \<Rightarrow> do {
         rassert (owner \<noteq> node_waker w);
         case wait_until_poll L w (\<not> is_locked m) k (wq m) of
           (Pending, k', l') \<Rightarrow> Some (Pending, k', m\<lparr>wq := l'\<rparr>)
         | (Ready _, k', l') \<Rightarrow> None
       }
   }"

subsection \<open>The mutex on several CPUs\<close>

text \<open>Where a task is in its use of the mutex: not using it, about to exchange the owner, after a
  failed exchange, after it has seen the lock taken, registered in the queue, holding the lock, or
  between resetting the owner and notifying.\<close>

datatype lock_pc = Outside | Trying | Refused | Deciding | Sleeping | Holding | Releasing

record ('l, 'd) mstate =
  mutex :: "('l, 'd) Mutex"
  kern :: kernel
  pc :: "tid \<Rightarrow> lock_pc"
  fresh_node :: nat

definition set_pc :: "tid \<Rightarrow> lock_pc \<Rightarrow> ('l, 'd) mstate \<Rightarrow> ('l, 'd) mstate" where
  "set_pc t p s = s\<lparr>pc := (pc s)(t := p)\<rparr>"

text \<open>The steps of a task are those of a task on some CPU. The weak exchange may fail although the
  lock is free. A step of the kernel is any of its steps: dispatches, switches, wake-ups from
  elsewhere.\<close>

inductive mstep :: "'l wait_ops \<Rightarrow> ('l, 'd) mstate \<Rightarrow> ('l, 'd) mstate \<Rightarrow> bool" for L where
  ms_lock: "pc s t = Outside \<Longrightarrow> on_cpu (kern s) t \<Longrightarrow> t \<noteq> 0 \<Longrightarrow> mstep L s (set_pc t Trying s)"
| ms_acquire: "pc s t = Trying \<Longrightarrow> on_cpu (kern s) t \<Longrightarrow> acquire_owner t (mutex s) = Inr m' \<Longrightarrow>
    mstep L s (set_pc t Holding (s\<lparr>mutex := m'\<rparr>))"
| ms_refused: "pc s t = Trying \<Longrightarrow> on_cpu (kern s) t \<Longrightarrow> owner_task (mutex s) \<noteq> t \<Longrightarrow> mstep L s (set_pc t Refused s)"
| ms_unlocked: "pc s t = Refused \<Longrightarrow> on_cpu (kern s) t \<Longrightarrow> \<not> is_locked (mutex s) \<Longrightarrow>
    wait_until_poll L (fresh_node s, t) True (kern s) (wq (mutex s)) = (Ready (), k', l') \<Longrightarrow>
    mstep L s (set_pc t Trying (s\<lparr>mutex := (mutex s)\<lparr>wq := l'\<rparr>, kern := k', fresh_node := Suc (fresh_node s)\<rparr>))"
| ms_locked: "pc s t = Refused \<Longrightarrow> on_cpu (kern s) t \<Longrightarrow> is_locked (mutex s) \<Longrightarrow> mstep L s (set_pc t Deciding s)"
| ms_sleep: "pc s t = Deciding \<Longrightarrow> on_cpu (kern s) t \<Longrightarrow>
    wait_until_poll L (fresh_node s, t) False (kern s) (wq (mutex s)) = (Pending, k', l') \<Longrightarrow>
    mstep L s (set_pc t Sleeping (s\<lparr>mutex := (mutex s)\<lparr>wq := l'\<rparr>, kern := k', fresh_node := Suc (fresh_node s)\<rparr>))"
| ms_repoll: "pc s t = Sleeping \<Longrightarrow> on_cpu (kern s) t \<Longrightarrow> state_of (kern s) t = Some Running \<Longrightarrow> mstep L s (set_pc t Trying s)"
| ms_release: "pc s t = Holding \<Longrightarrow> on_cpu (kern s) t \<Longrightarrow> release_owner t (mutex s) = Some m' \<Longrightarrow>
    mstep L s (set_pc t Releasing (s\<lparr>mutex := m'\<rparr>))"
| ms_notify: "pc s t = Releasing \<Longrightarrow> on_cpu (kern s) t \<Longrightarrow> notify_one L (kern s) (wq (mutex s)) = Some (b, k', l') \<Longrightarrow>
    mstep L s (set_pc t Outside (s\<lparr>mutex := (mutex s)\<lparr>wq := l'\<rparr>, kern := k'\<rparr>))"
| ms_kernel: "kstep (kern s) k' \<Longrightarrow> mstep L s (s\<lparr>kern := k'\<rparr>)"

definition minit :: "'l wait_ops \<Rightarrow> 'd \<Rightarrow> ('l, 'd) mstate" where
  "minit L d = \<lparr>mutex = mutex_new L d, kern = kernel_init, pc = (\<lambda>_. Outside), fresh_node = 0\<rparr>"

inductive mreach :: "'l wait_ops \<Rightarrow> 'd \<Rightarrow> ('l, 'd) mstate \<Rightarrow> bool" for L d where
  mreach_init: "mreach L d (minit L d)"
| mreach_step: "mreach L d s \<Longrightarrow> mstep L s s' \<Longrightarrow> mreach L d s'"

lemma pc_set_pc [simp]: "pc (set_pc t p s) u = (if u = t then p else pc s u)"
  by (simp add: set_pc_def)

lemma set_pc_fields [simp]:
  "mutex (set_pc t p s) = mutex s" "kern (set_pc t p s) = kern s" "fresh_node (set_pc t p s) = fresh_node s"
  by (simp_all add: set_pc_def)

text \<open>The owner field names exactly the task that holds the lock; only a task with an address takes
  part.\<close>

definition owner_ok :: "('l, 'd) mstate \<Rightarrow> bool" where
  "owner_ok s \<longleftrightarrow> pc s 0 = Outside \<and> (\<forall>t. pc s t = Holding \<longleftrightarrow> owner_task (mutex s) = t \<and> t \<noteq> 0)"

lemma owner_okD:
  assumes "owner_ok s"
  shows "pc s 0 = Outside" "pc s t = Holding \<Longrightarrow> owner_task (mutex s) = t" "owner_task (mutex s) \<noteq> 0 \<Longrightarrow> pc s (owner_task (mutex s)) = Holding"
    "pc s t \<noteq> Outside \<Longrightarrow> t \<noteq> 0"
  using assms unfolding owner_ok_def by metis+

lemma owner_ok_set_pc:
  assumes "owner_ok s" "mutex s' = (mutex s)\<lparr>wq := l\<rparr>" "pc s' = (pc s)(t := p)" "p \<noteq> Holding" "pc s t \<noteq> Holding" "t \<noteq> 0"
  shows "owner_ok s'"
  unfolding owner_ok_def
proof (intro conjI allI)
  show "pc s' 0 = Outside"
    using assms owner_okD(1) by simp
  fix u
  show "pc s' u = Holding \<longleftrightarrow> owner_task (mutex s') = u \<and> u \<noteq> 0"
    using assms unfolding owner_ok_def by (cases "u = t") simp_all
qed

lemma owner_ok_owner:
  assumes "owner_ok s" "owner_task (mutex s') = (if p = Holding then t else 0)" "pc s' = (pc s)(t := p)" "t \<noteq> 0"
    and "\<And>u. u \<noteq> t \<Longrightarrow> pc s u \<noteq> Holding"
  shows "owner_ok s'"
  unfolding owner_ok_def
proof (intro conjI allI)
  show "pc s' 0 = Outside"
    using assms owner_okD(1) by simp
  fix u
  show "pc s' u = Holding \<longleftrightarrow> owner_task (mutex s') = u \<and> u \<noteq> 0"
    using assms by (cases "u = t") auto
qed

lemma owner_ok_step:
  assumes "mstep L s s'" "owner_ok s"
  shows "owner_ok s'"
  using assms(1)
proof cases
  case (ms_acquire t m')
  have "pc s u \<noteq> Holding" for u
    using ms_acquire(4) owner_okD(2,4) [OF assms(2), of u] by (auto simp: acquire_owner_def split: if_splits)
  with ms_acquire owner_okD(4) [OF assms(2), of t] show ?thesis
    by (intro owner_ok_owner [OF assms(2), of _ Holding t]) (auto simp: acquire_owner_def set_pc_def split: if_splits)
next
  case (ms_release t m')
  have "pc s u \<noteq> Holding" if "u \<noteq> t" for u
    using ms_release(2) that owner_okD(2) [OF assms(2), of u] owner_okD(2) [OF assms(2), of t] by auto
  with ms_release owner_okD(4) [OF assms(2), of t] show ?thesis
    by (intro owner_ok_owner [OF assms(2), of _ Releasing t]) (auto simp: release_owner_def set_pc_def split: if_splits)
next
  case (ms_kernel k')
  with assms(2) show ?thesis by (simp add: owner_ok_def)
next
  case (ms_lock t)
  then show ?thesis
    by (intro owner_ok_set_pc [OF assms(2), of _ "wq (mutex s)" t]) (auto simp: set_pc_def)
next
  case (ms_refused t)
  then show ?thesis
    using owner_okD(4) [OF assms(2), of t] by (intro owner_ok_set_pc [OF assms(2), of _ "wq (mutex s)" t]) (auto simp: set_pc_def)
next
  case (ms_unlocked t k' l')
  then show ?thesis
    using owner_okD(4) [OF assms(2), of t] by (intro owner_ok_set_pc [OF assms(2), of _ l' t]) (auto simp: set_pc_def)
next
  case (ms_locked t)
  then show ?thesis
    using owner_okD(4) [OF assms(2), of t] by (intro owner_ok_set_pc [OF assms(2), of _ "wq (mutex s)" t]) (auto simp: set_pc_def)
next
  case (ms_sleep t k' l')
  then show ?thesis
    using owner_okD(4) [OF assms(2), of t] by (intro owner_ok_set_pc [OF assms(2), of _ l' t]) (auto simp: set_pc_def)
next
  case (ms_repoll t)
  then show ?thesis
    using owner_okD(4) [OF assms(2), of t] by (intro owner_ok_set_pc [OF assms(2), of _ "wq (mutex s)" t]) (auto simp: set_pc_def)
next
  case (ms_notify t b k' l')
  then show ?thesis
    using owner_okD(4) [OF assms(2), of t] by (intro owner_ok_set_pc [OF assms(2), of _ l' t]) (auto simp: set_pc_def)
qed

lemma mreach_owner_ok: "mreach L d s \<Longrightarrow> owner_ok s"
proof (induction rule: mreach.induct)
  case mreach_init
  show ?case by (auto simp: owner_ok_def minit_def mutex_new_def)
next
  case (mreach_step s s')
  from owner_ok_step [OF mreach_step(2,3)] show ?case .
qed

subsection \<open>The mutex under cooperative scheduling\<close>

text \<open>When the polls and drops of the guard are not interleaved with each other, each is one step.
  The kernel dispatches, ends polls and switches as before; a task that does not wait for this
  mutex may block and be woken for other reasons, but nobody else wakes a task that waits here.\<close>

inductive astep :: "'l wait_ops \<Rightarrow> ('l, 'd) mstate \<Rightarrow> ('l, 'd) mstate \<Rightarrow> bool" for L where
  as_poll: "on_cpu (kern s) t \<Longrightarrow> state_of (kern s) t = Some Running \<Longrightarrow> pc s t = Outside \<or> pc s t = Sleeping \<Longrightarrow> t \<noteq> 0 \<Longrightarrow>
    guard_poll L (fresh_node s, t) mutex_lock (kern s) (mutex s) = Some (r, k', m') \<Longrightarrow>
    astep L s (set_pc t (case r of Ready _ \<Rightarrow> Holding | Pending \<Rightarrow> Sleeping)
      (s\<lparr>mutex := m', kern := k', fresh_node := Suc (fresh_node s)\<rparr>))"
| as_drop: "on_cpu (kern s) t \<Longrightarrow> state_of (kern s) t = Some Running \<Longrightarrow> pc s t = Holding \<Longrightarrow>
    guard_drop L t \<lparr>gdata = Some (mdata (mutex s))\<rparr> (kern s) (mutex s) = Some (k', m') \<Longrightarrow>
    astep L s (set_pc t Outside (s\<lparr>mutex := m', kern := k'\<rparr>))"
| as_spawn: "tasks (kern s) t = None \<Longrightarrow> astep L s (s\<lparr>kern := spawn_raw smp ini pid t (kern s)\<rparr>)"
| as_pick: "astep L s (s\<lparr>kern := trampoline_pick c (kern s)\<rparr>)"
| as_end: "run_task PollPending td sr c (kern s) = Some (Continue k') \<Longrightarrow> astep L s (s\<lparr>kern := k'\<rparr>)"
| as_switch: "set_task_tf c (kern s) = Some (b, k') \<Longrightarrow> astep L s (s\<lparr>kern := k'\<rparr>)"
| as_block: "on_cpu (kern s) t \<Longrightarrow> state_of (kern s) t = Some Running \<Longrightarrow> pc s t \<noteq> Sleeping \<Longrightarrow>
    astep L s (s\<lparr>kern := set_state Blocking t (kern s)\<rparr>)"
| as_wake: "wakeup_task t (kern s) = Some k' \<Longrightarrow> pc s t \<noteq> Sleeping \<Longrightarrow> astep L s (s\<lparr>kern := k'\<rparr>)"

inductive areach :: "'l wait_ops \<Rightarrow> 'd \<Rightarrow> ('l, 'd) mstate \<Rightarrow> bool" for L d where
  areach_init: "areach L d (minit L d)"
| areach_step: "areach L d s \<Longrightarrow> astep L s s' \<Longrightarrow> areach L d s'"

text \<open>The invariant: the queue holds one node for each task that sleeps on the mutex, and when it is
  not empty the lock is held or some waiter is awake again.\<close>

abbreviation waiters :: "('l \<Rightarrow> WaitWakerNode list) \<Rightarrow> ('l, 'd) mstate \<Rightarrow> WaitWakerNode list" where
  "waiters e s \<equiv> e (wq (mutex s))"

definition sleeps :: "('l, 'd) mstate \<Rightarrow> tid \<Rightarrow> bool" where
  "sleeps s t \<longleftrightarrow> pc s t = Sleeping \<and> map_option asleep (state_of (kern s) t) = Some True"

definition will_retry :: "('l, 'd) mstate \<Rightarrow> tid \<Rightarrow> bool" where
  "will_retry s t \<longleftrightarrow> pc s t = Sleeping \<and> map_option awake (state_of (kern s) t) = Some True"

definition queue_ok :: "('l \<Rightarrow> WaitWakerNode list) \<Rightarrow> ('l, 'd) mstate \<Rightarrow> bool" where
  "queue_ok e s \<longleftrightarrow> distinct (map node_waker (waiters e s)) \<and> (\<forall>w \<in> set (waiters e s). fst w < fresh_node s) \<and>
     (\<forall>t. t \<in> node_waker ` set (waiters e s) \<longleftrightarrow> sleeps s t) \<and> (\<forall>t. pc s t = Sleeping \<longrightarrow> state_of (kern s) t \<noteq> None)"

definition hand_ok :: "('l \<Rightarrow> WaitWakerNode list) \<Rightarrow> ('l, 'd) mstate \<Rightarrow> bool" where
  "hand_ok e s \<longleftrightarrow> owner_ok s \<and> kinv (kern s) \<and> queue_ok e s \<and>
     (waiters e s \<noteq> [] \<longrightarrow> is_locked (mutex s) \<or> (\<exists>t. will_retry s t))"

text \<open>A step of the kernel that leaves the waiting tasks asleep or awake as they are keeps the
  invariant.\<close>

definition same_sleep :: "kernel \<Rightarrow> kernel \<Rightarrow> tid \<Rightarrow> bool" where
  "same_sleep k k' t \<longleftrightarrow> map_option asleep (state_of k' t) = map_option asleep (state_of k t) \<and>
     map_option awake (state_of k' t) = map_option awake (state_of k t)"

lemma same_sleep_refl [simp]: "same_sleep k k t"
  by (simp add: same_sleep_def)

lemma same_sleep_upd:
  assumes "state_of k t = Some st" "asleep st' = asleep st" "awake st' = awake st"
    and "\<And>u. state_of k' u = (if u = t then Some st' else state_of k u)"
  shows "same_sleep k k' u"
  using assms by (simp add: same_sleep_def)

lemma hand_ok_kernel:
  assumes "hand_ok e s" "kinv k'" "\<And>t. pc s t = Sleeping \<Longrightarrow> same_sleep (kern s) k' t"
  shows "hand_ok e (s\<lparr>kern := k'\<rparr>)"
proof -
  let ?s = "s\<lparr>kern := k'\<rparr>"
  have sl: "sleeps ?s t = sleeps s t" and re: "will_retry ?s t = will_retry s t" for t
    using assms(3) [of t] by (cases "pc s t = Sleeping"; simp add: sleeps_def will_retry_def same_sleep_def del: map_option_eq_Some)+
  have "state_of k' t \<noteq> None" if "pc s t = Sleeping" "state_of (kern s) t \<noteq> None" for t
    using assms(3) [OF that(1)] that(2) by (auto simp: same_sleep_def)
  then have "queue_ok e ?s"
    using assms(1) unfolding hand_ok_def queue_ok_def sl by auto
  moreover have "owner_ok ?s"
    using assms(1) by (simp add: hand_ok_def owner_ok_def)
  ultimately show ?thesis
    using assms(1,2) unfolding hand_ok_def re by simp
qed

lemma state_of_upd_strong [simp]: "state_of (upd_task t (strong_update f) k) u = state_of k u"
  by (simp add: state_of_def upd_task_def option.map_comp comp_def)

lemma state_of_current [simp]: "state_of (k\<lparr>current := c\<rparr>) t = state_of k t"
  by (simp add: state_of_def)

lemma same_sleep_pick:
  assumes "kinv k"
  shows "same_sleep k (trampoline_pick c k) t"
proof (cases "current k c = None \<and> ready_queue k \<noteq> []")
  case True
  then obtain u q where q: "ready_queue k = u # q" and c: "current k c = None" by (cases "ready_queue k") auto
  from assms q obtain ti where ti: "tasks k u = Some ti" unfolding kinv_def by auto
  with kinv_task [OF assms ti] q have "state_of k u = Some Runable"
    by (simp add: task_ok_def state_of_def)
  then show ?thesis
    by (rule same_sleep_upd [of _ _ _ Running])
      (simp_all add: trampoline_pick_def init_current_def q c Let_def \<open>state_of k u = Some Runable\<close>)
qed (auto simp: trampoline_pick_def split: option.splits list.splits)

lemma same_sleep_end:
  assumes "run_task PollPending td sr c k = Some (Continue k')"
  shows "same_sleep k k' t"
proof -
  from assms obtain u ti where u: "current k c = Some u" "tasks k u = Some ti"
    by (auto simp: run_task_def bind_eq_Some_conv)
  then have st: "state_of k u = Some (task_state ti)"
    by (simp add: state_of_def)
  show ?thesis
  proof (cases "task_state ti")
    case Running
    with assms u st show ?thesis
      by (intro same_sleep_upd [of _ _ _ Runable])
        (auto simp: run_task_def clean_current_def put_prev_clone_def Let_def bind_eq_Some_conv split: if_splits)
  next
    case Blocking
    with assms u st show ?thesis
      by (intro same_sleep_upd [of _ _ _ Blocked]) (auto simp: run_task_def clean_current_without_drop_def)
  next
    case Waked
    with assms u st show ?thesis
      by (intro same_sleep_upd [of _ _ _ Running]) (auto simp: run_task_def)
  qed (use assms u in \<open>auto simp: run_task_def\<close>)
qed

lemma same_sleep_switch:
  assumes "set_task_tf c k = Some (b, k')"
  shows "same_sleep k k' t"
proof -
  from assms obtain u ti where u: "current k c = Some u" "tasks k u = Some ti"
    by (auto simp: set_task_tf_def bind_eq_Some_conv)
  then have st: "state_of k u = Some (task_state ti)"
    by (simp add: state_of_def)
  show ?thesis
  proof (cases "task_state ti")
    case Running
    with assms u st show ?thesis
      by (intro same_sleep_upd [of _ _ _ Runable])
        (auto simp: set_task_tf_def clean_current_def put_prev_clone_def Let_def bind_eq_Some_conv)
  next
    case Blocking
    with assms u st show ?thesis
      by (intro same_sleep_upd [of _ _ _ Blocked]) (auto simp: set_task_tf_def clean_current_without_drop_def)
  next
    case Waked
    with assms u st show ?thesis
      by (intro same_sleep_upd [of _ _ _ Running]) (auto simp: set_task_tf_def)
  qed (use assms u in \<open>auto simp: set_task_tf_def\<close>)
qed

lemma wakeup_other:
  assumes "wakeup_task t k = Some k'" "u \<noteq> t"
  shows "same_sleep k k' u"
proof -
  from assms(1) obtain ti where "tasks k t = Some ti" by (auto simp: wakeup_task_def bind_eq_Some_conv)
  with assms show ?thesis
    by (cases "task_state ti") (auto simp: wakeup_task_def same_sleep_def Let_def)
qed

text \<open>Taking the lock, going to sleep and passing the lock on.\<close>

lemma hand_okD:
  assumes "hand_ok e s"
  shows "owner_ok s" "kinv (kern s)" "distinct (map node_waker (waiters e s))" "w \<in> set (waiters e s) \<Longrightarrow> fst w < fresh_node s"
    "t \<in> node_waker ` set (waiters e s) \<longleftrightarrow> sleeps s t" "pc s t = Sleeping \<Longrightarrow> state_of (kern s) t \<noteq> None"
    "waiters e s \<noteq> [] \<Longrightarrow> is_locked (mutex s) \<or> (\<exists>t. will_retry s t)"
  using assms unfolding hand_ok_def queue_ok_def by blast+

lemma hand_okI:
  assumes "owner_ok s" "kinv (kern s)" "distinct (map node_waker (waiters e s))" "\<And>w. w \<in> set (waiters e s) \<Longrightarrow> fst w < fresh_node s"
    "\<And>t. t \<in> node_waker ` set (waiters e s) \<longleftrightarrow> sleeps s t" "\<And>t. pc s t = Sleeping \<Longrightarrow> state_of (kern s) t \<noteq> None"
    "waiters e s \<noteq> [] \<Longrightarrow> is_locked (mutex s) \<or> (\<exists>t. will_retry s t)"
  shows "hand_ok e s"
  using assms unfolding hand_ok_def queue_ok_def by blast

lemma hand_ok_acquire:
  assumes "hand_ok e s" "state_of (kern s) t = Some Running" "t \<noteq> 0" "owner_task (mutex s) = 0"
  shows "hand_ok e (set_pc t Holding (s\<lparr>mutex := (mutex s)\<lparr>owner_task := t\<rparr>, fresh_node := Suc (fresh_node s)\<rparr>))" (is "hand_ok e ?s")
proof (rule hand_okI)
  note h = hand_okD [OF assms(1)]
  have free: "pc s u \<noteq> Holding" for u
    using owner_okD(2,4) [OF h(1), of u] assms(4) by auto
  show "owner_ok ?s"
    by (rule owner_ok_owner [OF h(1), of _ Holding t]) (use assms(3) free in \<open>simp_all add: set_pc_def\<close>)
  show "u \<in> node_waker ` set (waiters e ?s) \<longleftrightarrow> sleeps ?s u" for u
    using h(5) [of u] assms(2) by (cases "u = t") (simp_all add: sleeps_def)
  show "is_locked (mutex ?s) \<or> (\<exists>t. will_retry ?s t)"
    using assms(3) by (simp add: is_locked_def)
  show "fst w < fresh_node ?s" if "w \<in> set (waiters e ?s)" for w
    using h(4) [of w] that by simp
  show "state_of (kern ?s) u \<noteq> None" if "pc ?s u = Sleeping" for u
    using h(6) [of u] that by (simp split: if_splits)
qed (use hand_okD(2,3) [OF assms(1)] in simp_all)

lemma hand_ok_sleep:
  assumes "linked_list_laws L e" "hand_ok e s" "on_cpu (kern s) t" "state_of (kern s) t = Some Running" "t \<noteq> 0"
    and "owner_task (mutex s) \<noteq> 0" "owner_task (mutex s) \<noteq> t"
  shows "hand_ok e (set_pc t Sleeping (s\<lparr>mutex := (mutex s)\<lparr>wq := ll_push_back L (fresh_node s, t) (wq (mutex s))\<rparr>,
    kern := set_state Blocking t (kern s), fresh_node := Suc (fresh_node s)\<rparr>))" (is "hand_ok e ?s")
proof (rule hand_okI)
  note h = hand_okD [OF assms(2)]
  have "(fresh_node s, t) \<notin> set (waiters e s)"
    using h(4) [of "(fresh_node s, t)"] by auto
  then have ws: "waiters e ?s = waiters e s @ [(fresh_node s, t)]"
    using ll_push_back_entries [OF assms(1)] by simp
  have new: "t \<notin> node_waker ` set (waiters e s)"
    using h(5) [of t] assms(4) by (simp add: sleeps_def)
  show "owner_ok ?s"
    by (rule owner_ok_set_pc [OF h(1), of _ "ll_push_back L (fresh_node s, t) (wq (mutex s))" t Sleeping])
      (use owner_okD(2) [OF h(1), of t] assms(5,7) in \<open>auto simp: set_pc_def\<close>)
  from assms(3) obtain c where "current (kern s) c = Some t" by (auto simp: on_cpu_def)
  with kinv_set_on_cpu [OF h(2)] show "kinv (kern ?s)" by simp
  show "distinct (map node_waker (waiters e ?s))"
    using h(3) new unfolding ws by simp
  show "fst w < fresh_node ?s" if "w \<in> set (waiters e ?s)" for w
    using h(4) [of w] that unfolding ws by auto
  show "u \<in> node_waker ` set (waiters e ?s) \<longleftrightarrow> sleeps ?s u" for u
    using h(5) [of u] assms(4) unfolding ws by (cases "u = t") (simp_all add: sleeps_def)
  show "is_locked (mutex ?s) \<or> (\<exists>t. will_retry ?s t)"
    using assms(6) by (simp add: is_locked_def)
  show "state_of (kern ?s) u \<noteq> None" if "pc ?s u = Sleeping" for u
    using h(6) [of u] assms(4) that by (simp split: if_splits)
qed

text \<open>Whoever waits longest is woken when the lock is released.\<close>

abbreviation released :: "tid \<Rightarrow> kernel \<Rightarrow> 'l \<Rightarrow> ('l, 'd) mstate \<Rightarrow> ('l, 'd) mstate" where
  "released t k' l' s \<equiv> set_pc t Outside (s\<lparr>mutex := (mutex s)\<lparr>owner_task := 0, wq := l'\<rparr>, kern := k'\<rparr>)"

lemma released_owner_ok:
  assumes "owner_ok s" "pc s t = Holding"
  shows "owner_ok (released t k' l' s)"
proof (rule owner_ok_owner [OF assms(1), of _ Outside t])
  show "t \<noteq> 0"
    using owner_okD(4) [OF assms(1), of t] assms(2) by simp
  show "pc s u \<noteq> Holding" if "u \<noteq> t" for u
    using owner_okD(2) [OF assms(1)] assms(2) that by metis
qed (simp_all add: set_pc_def)

lemma hand_ok_notify_none:
  assumes "hand_ok e s" "pc s t = Holding" "waiters e s = []" "e l' = []"
  shows "hand_ok e (released t (kern s) l' s)" (is "hand_ok e ?s")
proof (rule hand_okI)
  note h = hand_okD [OF assms(1)]
  show "u \<in> node_waker ` set (waiters e ?s) \<longleftrightarrow> sleeps ?s u" for u
    using h(5) [of u] assms(3,4) by (simp add: sleeps_def)
  show "state_of (kern ?s) u \<noteq> None" if "pc ?s u = Sleeping" for u
    using h(6) [of u] that by (simp split: if_splits)
  show "owner_ok ?s"
    by (rule released_owner_ok [OF h(1) assms(2)])
qed (use assms(4) hand_okD(2) [OF assms(1)] in simp_all)

lemma hand_ok_notify_some:
  assumes "hand_ok e s" "pc s t = Holding" "waiters e s = w # ws" "e l' = ws"
    and wake: "wakeup_task (node_waker w) (kern s) = Some k'" "state_of k' (node_waker w) = Some s'" "awake s'"
    and other: "\<And>u. u \<noteq> node_waker w \<Longrightarrow> state_of k' u = state_of (kern s) u"
  shows "hand_ok e (released t k' l' s)" (is "hand_ok e ?s")
proof -
  let ?u = "node_waker w"
  note h = hand_okD [OF assms(1)]
  have pcu: "pc s ?u = Sleeping"
    using h(5) [of ?u] assms(3) by (simp add: sleeps_def)
  then have ut: "?u \<noteq> t"
    using assms(2) by auto
  have d: "?u \<notin> node_waker ` set ws" "distinct (map node_waker ws)"
    using h(3) assms(3) by auto
  have na: "\<not> asleep s'"
    using wake(3) by (auto simp: awake_def)
  have nt: "t \<notin> node_waker ` set ws"
    using h(5) [of t] assms(2,3) by (auto simp: sleeps_def)
  show ?thesis
  proof (rule hand_okI)
    show "u \<in> node_waker ` set (waiters e ?s) \<longleftrightarrow> sleeps ?s u" for u
      using h(5) [of u] d(1) nt wake(2) na ut other [of u] assms(3,4)
      by (cases "u = ?u"; cases "u = t") (simp_all add: sleeps_def)
    show "fst v < fresh_node ?s" if "v \<in> set (waiters e ?s)" for v
      using h(4) [of v] that assms(3,4) by simp
    show "state_of (kern ?s) u \<noteq> None" if "pc ?s u = Sleeping" for u
      using h(6) [of u] that other [of u] wake(2) by (cases "u = ?u") (auto split: if_splits)
    have "will_retry ?s ?u"
      using pcu wake(2,3) ut by (simp add: will_retry_def)
    then show "is_locked (mutex ?s) \<or> (\<exists>t. will_retry ?s t)" by blast
    show "owner_ok ?s"
      by (rule released_owner_ok [OF h(1) assms(2)])
  qed (use assms(4) d(2) kinv_wakeup [OF h(2) wake(1)] in simp_all)
qed

lemma hand_ok_notify:
  assumes "linked_list_laws L e" "hand_ok e s" "pc s t = Holding"
  obtains b k' l' where "notify_one L (kern s) (wq (mutex s)) = Some (b, k', l')" "hand_ok e (released t k' l' s)"
proof (cases "waiters e s")
  case Nil
  from notify_one_Nil [OF assms(1) this, of "kern s"] obtain l' where
    "notify_one L (kern s) (wq (mutex s)) = Some (False, kern s, l')" "e l' = []" by blast
  with that hand_ok_notify_none [OF assms(2,3) Nil] show ?thesis by blast
next
  case (Cons w ws)
  then have "sleeps s (node_waker w)"
    using hand_okD(5) [OF assms(2), of "node_waker w"] by simp
  then obtain st where st: "state_of (kern s) (node_waker w) = Some st" "st \<noteq> Waked" "st \<noteq> Exited"
    by (auto simp: sleeps_def asleep_def)
  then obtain k' s' where k': "wakeup_task (node_waker w) (kern s) = Some k'" "state_of k' (node_waker w) = Some s'" "awake s'"
    and other: "\<And>u. u \<noteq> node_waker w \<Longrightarrow> state_of k' u = state_of (kern s) u"
    by (rule wakeup_state) blast
  from notify_one_Cons [OF assms(1) Cons, of "kern s"] k'(1) obtain l' where
    "notify_one L (kern s) (wq (mutex s)) = Some (True, k', l')" "e l' = ws" by auto
  with that hand_ok_notify_some [OF assms(2,3) Cons _ k' other] show ?thesis by blast
qed

lemma hand_ok_step:
  assumes "linked_list_laws L e" "hand_ok e s" "astep L s s'"
  shows "hand_ok e s'"
  using assms(3)
proof cases
  case (as_poll t r k' m')
  show ?thesis
  proof (cases "owner_task (mutex s) = 0")
    case True
    with as_poll hand_ok_acquire [OF assms(2) as_poll(3,5) True] show ?thesis
      by (auto simp: guard_poll_def acquire_owner_def mutex_lock_def)
  next
    case False
    then have "owner_task (mutex s) \<noteq> t"
      using owner_okD(3) [OF hand_okD(1) [OF assms(2)]] as_poll(4) by auto
    with False as_poll hand_ok_sleep [OF assms(1,2) as_poll(2,3,5) False] show ?thesis
      by (auto simp: guard_poll_def acquire_owner_def mutex_lock_def is_locked_def wait_until_poll_def prepare_to_wait_def)
  qed
next
  case (as_drop t k' m')
  from hand_ok_notify [OF assms(1,2) as_drop(4)] obtain b k1 l1 where
    n: "notify_one L (kern s) (wq (mutex s)) = Some (b, k1, l1)" "hand_ok e (released t k1 l1 s)" by blast
  have "owner_task (mutex s) = t"
    using owner_okD(2) [OF hand_okD(1) [OF assms(2)]] as_drop(4) by simp
  with as_drop n show ?thesis
    by (auto simp: guard_drop_def force_unlock_def release_owner_def)
next
  case (as_spawn t smp ini pid)
  have "same_sleep (kern s) (spawn_raw smp ini pid t (kern s)) u" if "pc s u = Sleeping" for u
    using hand_okD(6) [OF assms(2) that] as_spawn(2) by (auto simp: same_sleep_def spawn_raw_def state_of_def)
  with as_spawn kinv_spawn [OF hand_okD(2) [OF assms(2)]] show ?thesis
    by (auto intro: hand_ok_kernel [OF assms(2)])
next
  case (as_pick c)
  with same_sleep_pick kinv_pick hand_okD(2) [OF assms(2)] show ?thesis
    by (auto intro: hand_ok_kernel [OF assms(2)])
next
  case (as_end td sr c k')
  have "kinv k'"
    using kinv_run_pending [OF hand_okD(2) [OF assms(2)] as_end(2)] by blast
  with same_sleep_end [OF as_end(2)] as_end(1) show ?thesis
    by (auto intro: hand_ok_kernel [OF assms(2)])
next
  case (as_switch c b k')
  with same_sleep_switch [OF as_switch(2)] kinv_switch [OF hand_okD(2) [OF assms(2)] as_switch(2)] show ?thesis
    by (auto intro: hand_ok_kernel [OF assms(2)])
next
  case (as_block t)
  from as_block(2) obtain c where "current (kern s) c = Some t" by (auto simp: on_cpu_def)
  from kinv_set_on_cpu [OF hand_okD(2) [OF assms(2)] this] have "kinv (set_state Blocking t (kern s))" by simp
  moreover have "same_sleep (kern s) (set_state Blocking t (kern s)) u" if "pc s u = Sleeping" for u
    using that as_block(4) by (auto simp: same_sleep_def)
  ultimately show ?thesis
    using as_block(1) by (auto intro: hand_ok_kernel [OF assms(2)])
next
  case (as_wake t k')
  have "same_sleep (kern s) k' u" if "pc s u = Sleeping" for u
    using that as_wake(3) wakeup_other [OF as_wake(2)] by (cases "u = t") simp_all
  with as_wake(1) kinv_wakeup [OF hand_okD(2) [OF assms(2)] as_wake(2)] show ?thesis
    by (auto intro: hand_ok_kernel [OF assms(2)])
qed

lemma areach_hand_ok: "areach L d s \<Longrightarrow> linked_list_laws L e \<Longrightarrow> hand_ok e s"
proof (induction rule: areach.induct)
  case areach_init
  then show ?case
    by (auto simp: hand_ok_def queue_ok_def owner_ok_def minit_def mutex_new_def wait_list_new_def kinv_init
        ll_new_entries sleeps_def)
next
  case (areach_step s s')
  from hand_ok_step [OF areach_step(4) areach_step(3) [OF areach_step(4)] areach_step(2)] show ?case .
qed

subsection \<open>Properties\<close>

text \<open>Two tasks on two CPUs.\<close>

definition two_cpus :: kernel where
  "two_cpus = trampoline_pick 1 (trampoline_pick 0 (spawn_raw 1 False 1 2 (spawn_raw 1 False 1 1 kernel_init)))"

lemma two_cpus_facts [simp]:
  "current two_cpus 0 = Some 1" "current two_cpus 1 = Some 2" "current two_cpus (Suc 0) = Some 2" "ready_queue two_cpus = []"
  "tasks two_cpus 2 = Some (task_state_update (\<lambda>_. Running) (task_new 1 False 1 0))"
  "state_of two_cpus 1 = Some Running" "state_of two_cpus (Suc 0) = Some Running" "state_of two_cpus 2 = Some Running"
  by (simp_all add: two_cpus_def trampoline_pick_def spawn_raw_def kernel_init_def init_current_def set_state_def
      upd_task_def Let_def state_of_def)

lemma two_cpus_on [simp]: "on_cpu two_cpus 1" "on_cpu two_cpus (Suc 0)" "on_cpu two_cpus 2"
  unfolding on_cpu_def using two_cpus_facts(1,2) by (metis One_nat_def)+

lemma two_cpus_steps:
  assumes "\<And>s k. R s \<Longrightarrow> kern s = k \<Longrightarrow> tasks k 1 = None \<Longrightarrow> R (s\<lparr>kern := spawn_raw 1 False 1 1 k\<rparr>)"
    "\<And>s k. R s \<Longrightarrow> kern s = k \<Longrightarrow> tasks k 2 = None \<Longrightarrow> R (s\<lparr>kern := spawn_raw 1 False 1 2 k\<rparr>)"
    "\<And>s c. R s \<Longrightarrow> R (s\<lparr>kern := trampoline_pick c (kern s)\<rparr>)" "R (minit L d)"
  shows "R ((minit L d)\<lparr>kern := two_cpus\<rparr>)"
proof -
  let ?s = "minit L d"
  have "R (?s\<lparr>kern := spawn_raw 1 False 1 1 kernel_init\<rparr>)"
    using assms(1) [OF assms(4)] by (simp add: minit_def kernel_init_def)
  from assms(2) [OF this refl] have "R (?s\<lparr>kern := spawn_raw 1 False 1 2 (spawn_raw 1 False 1 1 kernel_init)\<rparr>)"
    by (simp add: spawn_raw_def kernel_init_def)
  from assms(3) [OF assms(3) [OF this, of 0], of 1] show ?thesis
    by (simp add: two_cpus_def)
qed

lemma mreach_two_cpus: "mreach L d ((minit L d)\<lparr>kern := two_cpus\<rparr>)"
  by (rule two_cpus_steps) (auto intro: mreach_init mreach_step ms_kernel ks_spawn ks_pick)

lemma areach_two_cpus: "areach L d ((minit L d)\<lparr>kern := two_cpus\<rparr>)"
  by (rule two_cpus_steps) (auto intro: areach_init areach_step as_spawn as_pick)

lemma mreach_held:
  "mreach L d (set_pc 1 Holding ((set_pc 1 Trying ((minit L d)\<lparr>kern := two_cpus\<rparr>))\<lparr>mutex := (mutex_new L d)\<lparr>owner_task := 1\<rparr>\<rparr>))"
proof -
  have a: "mreach L d (set_pc 1 Trying ((minit L d)\<lparr>kern := two_cpus\<rparr>))"
    by (rule mreach_step [OF mreach_two_cpus ms_lock]) (simp_all add: minit_def)
  show ?thesis
    by (rule mreach_step [OF a ms_acquire]) (simp_all add: minit_def acquire_owner_def mutex_new_def)
qed

text \<open>
  C5: mutual exclusion on any number of CPUs. However the memory accesses of the polls and
  releases interleave with each other, with spurious failures of the weak exchange and with any
  step of the kernel, at most one task holds the lock, the owner field is set exactly while a task
  holds it, a release by the holder passes its assertion, and no task that tries to take the lock
  finds itself as its owner.
\<close>

theorem mutex_mutual_exclusion:
  assumes "mreach L d s"
  shows "(\<forall>t u. pc s t = Holding \<longrightarrow> pc s u = Holding \<longrightarrow> t = u) \<and>
    (is_locked (mutex s) \<longleftrightarrow> (\<exists>t. pc s t = Holding)) \<and>
    (\<forall>t. pc s t = Holding \<longrightarrow> release_owner t (mutex s) \<noteq> None) \<and>
    (\<forall>t. pc s t = Trying \<longrightarrow> owner_task (mutex s) \<noteq> t)"
proof -
  note o = mreach_owner_ok [OF assms]
  have "owner_task (mutex s) \<noteq> t" if "pc s t = Trying" for t
    using owner_okD(3) [OF o] owner_okD(4) [OF o, of t] that by auto
  moreover have "is_locked (mutex s) \<longleftrightarrow> (\<exists>t. pc s t = Holding)"
  proof
    assume "is_locked (mutex s)"
    then show "\<exists>t. pc s t = Holding"
      using owner_okD(3) [OF o] by (auto simp: is_locked_def)
  next
    assume "\<exists>t. pc s t = Holding"
    then obtain t where t: "pc s t = Holding" ..
    then show "is_locked (mutex s)"
      using owner_okD(2) [OF o t] owner_okD(4) [OF o, of t] by (simp add: is_locked_def)
  qed
  moreover have "t = u \<and> release_owner t (mutex s) \<noteq> None" if "pc s t = Holding" "pc s u = Holding" for t u
    using owner_okD(2) [OF o that(1)] owner_okD(2) [OF o that(2)] by (simp add: release_owner_def)
  ultimately show ?thesis by blast
qed

theorem mutex_mutual_exclusion_witness:
  "\<exists>s. mreach list_instance () s \<and> pc s 1 = Holding \<and> pc s 2 \<noteq> Holding \<and> is_locked (mutex s)"
proof -
  obtain s :: "(WaitWakerNode list, unit) mstate" where s: "mreach list_instance () s" "pc s 1 = Holding"
    using mreach_held [of list_instance "()"] by (metis pc_set_pc)
  note x = mutex_mutual_exclusion [OF s(1)]
  have "u = 1" if "pc s u = Holding" for u
    using x s(2) that by blast
  then have "pc s 2 \<noteq> Holding" by fastforce
  moreover have "is_locked (mutex s)"
    using x s(2) by blast
  ultimately show ?thesis
    using s by blast
qed



text \<open>
  C39: on two CPUs a wake-up can be lost and a task sleeps forever beside a free lock. The poll of
  the guard checks the owner and enters the queue in two steps; when the holder resets the owner
  and notifies the empty queue in between, the task then goes to sleep, the lock is free, no task
  uses it and the ready queue is empty.
\<close>

theorem mutex_wakeup_lost:
  "\<exists>s. mreach list_instance d s \<and> \<not> is_locked (mutex s) \<and> pc s 2 = Sleeping \<and>
     state_of (kern s) 2 = Some Blocked \<and> (\<forall>t. t = 2 \<or> pc s t = Outside) \<and> ready_queue (kern s) = []"
proof -
  let ?L = "list_instance :: WaitWakerNode list wait_ops"
  let ?h = "set_pc 1 Holding ((set_pc 1 Trying ((minit ?L d)\<lparr>kern := two_cpus\<rparr>))\<lparr>mutex := (mutex_new ?L d)\<lparr>owner_task := 1\<rparr>\<rparr>)"
  have 1: "mreach ?L d (set_pc 2 Trying ?h)"
    by (rule mreach_step [OF mreach_held ms_lock]) (simp_all add: minit_def)
  have 2: "mreach ?L d (set_pc 2 Refused (set_pc 2 Trying ?h))"
    by (rule mreach_step [OF 1 ms_refused]) (simp_all add: minit_def mutex_new_def)
  have 3: "mreach ?L d (set_pc 2 Deciding (set_pc 2 Refused (set_pc 2 Trying ?h)))" (is "mreach ?L d ?d")
    by (rule mreach_step [OF 2 ms_locked]) (simp_all add: minit_def mutex_new_def is_locked_def)
  let ?r = "set_pc 1 Releasing (?d\<lparr>mutex := mutex_new ?L d\<rparr>)"
  have 4: "mreach ?L d ?r"
    by (rule mreach_step [OF 3 ms_release]) (simp_all add: minit_def mutex_new_def release_owner_def)
  let ?o = "set_pc 1 Outside (?r\<lparr>mutex := (mutex ?r)\<lparr>wq := []\<rparr>, kern := two_cpus\<rparr>)"
  have 5: "mreach ?L d ?o"
    by (rule mreach_step [OF 4 ms_notify [of _ _ _ False]])
      (simp_all add: minit_def mutex_new_def notify_one_def wait_list_new_def list_instance_def)
  let ?k = "set_state Blocking 2 two_cpus"
  let ?q = "set_pc 2 Sleeping (?o\<lparr>mutex := (mutex ?o)\<lparr>wq := [(0, 2)]\<rparr>, kern := ?k, fresh_node := Suc (fresh_node ?o)\<rparr>)"
  have 6: "mreach ?L d ?q"
    by (rule mreach_step [OF 5 ms_sleep])
      (simp_all add: minit_def wait_until_poll_def prepare_to_wait_def list_instance_def)
  let ?b = "clean_current_without_drop 1 (set_state Blocked 2 ?k)"
  have "run_task PollPending False False 1 ?k = Some (Continue ?b)"
    by (simp add: run_task_def set_state_def upd_task_def)
  then have 7: "mreach ?L d (?q\<lparr>kern := ?b\<rparr>)"
    by (intro mreach_step [OF 6 ms_kernel ] ks_run) simp
  then show ?thesis
    by (intro exI [of _ "?q\<lparr>kern := ?b\<rparr>"])
      (simp add: minit_def mutex_new_def is_locked_def clean_current_without_drop_def set_state_def upd_task_def state_of_def)
qed

end
