(* ===== verification/Futex.thy ===== *)
theory Futex
  imports Task_State
begin

section \<open>Futexes\<close>

text \<open>
  Fast user-space locks: the keys, the hash and the table of waiting tasks (\<open>axfutex/src\<close>) and the
  wait, wake and requeue operations (\<open>executor/src/futex.rs\<close>) behind the system call
  (\<open>syscall/src/syscall_task/imp/futex.rs\<close>). The table is a list of buckets, each the queue of the
  waiters whose keys hash to it; an operation holds the mutex of its bucket from its first access to
  its last, so it is one step. A wait is cut at its yield: \<open>futex_wait_enqueue\<close> checks the value and
  enters the queue, \<open>futex_wait_resume\<close> is what happens when the task runs again. The value in user
  memory, the process identifier, the time and pending signals are arguments.
\<close>

unbundle bit_operations_syntax

subsection \<open>Options and keys\<close>

type_synonym i32 = "32 word"

abbreviation FUTEX_PRIVATE_FLAG :: i32 where "FUTEX_PRIVATE_FLAG \<equiv> 128"
abbreviation FUTEX_CLOCK_REALTIME :: i32 where "FUTEX_CLOCK_REALTIME \<equiv> 256"
abbreviation FUTEX_CMD_MASK :: i32 where "FUTEX_CMD_MASK \<equiv> NOT (FUTEX_PRIVATE_FLAG OR FUTEX_CLOCK_REALTIME)"
abbreviation FUTEX_WAIT :: i32 where "FUTEX_WAIT \<equiv> 0"
abbreviation FUTEX_WAKE :: i32 where "FUTEX_WAKE \<equiv> 1"
abbreviation FUTEX_REQUEUE :: i32 where "FUTEX_REQUEUE \<equiv> 3"
abbreviation FUTEX_WAIT_BITSET :: i32 where "FUTEX_WAIT_BITSET \<equiv> 9"
abbreviation FUTEX_WAKE_BITSET :: i32 where "FUTEX_WAKE_BITSET \<equiv> 10"
abbreviation FLAGS_SHARED :: i32 where "FLAGS_SHARED \<equiv> 0x10"
abbreviation FLAGS_CLOCKRT :: i32 where "FLAGS_CLOCKRT \<equiv> 0x20"
abbreviation FUTEX_BITSET_MATCH_ANY :: u32 where "FUTEX_BITSET_MATCH_ANY \<equiv> 0xffffffff"

definition futex_op_to_flag :: "i32 \<Rightarrow> i32" where
  "futex_op_to_flag op =
     (let flags = (if op AND FUTEX_PRIVATE_FLAG = 0 then FLAGS_SHARED else 0)
      in if op AND FUTEX_CLOCK_REALTIME \<noteq> 0 then flags OR FLAGS_CLOCKRT else flags)"

datatype FutexKey = FutexKey (key_pid: u32) (key_aligned: u32) (key_offset: u32)

text \<open>The derived order of the key type compares the fields in turn.\<close>

instantiation FutexKey :: linorder
begin

definition less_eq_FutexKey :: "FutexKey \<Rightarrow> FutexKey \<Rightarrow> bool" where
  "less_eq_FutexKey a b \<longleftrightarrow> (key_pid a, key_aligned a, key_offset a) \<le> (key_pid b, key_aligned b, key_offset b)"

definition less_FutexKey :: "FutexKey \<Rightarrow> FutexKey \<Rightarrow> bool" where
  "less_FutexKey a b \<longleftrightarrow> (key_pid a, key_aligned a, key_offset a) < (key_pid b, key_aligned b, key_offset b)"

instance
proof
  fix x y z :: FutexKey
  show "x < y \<longleftrightarrow> x \<le> y \<and> \<not> y \<le> x"
    unfolding less_eq_FutexKey_def less_FutexKey_def by (rule less_le_not_le)
  show "x \<le> x"
    by (simp add: less_eq_FutexKey_def)
  show "x \<le> y \<Longrightarrow> y \<le> z \<Longrightarrow> x \<le> z"
    unfolding less_eq_FutexKey_def by (rule order_trans)
  show "x \<le> y \<Longrightarrow> y \<le> x \<Longrightarrow> x = y"
    unfolding less_eq_FutexKey_def by (cases x; cases y) (auto dest: order_antisym)
  show "x \<le> y \<or> y \<le> x"
    unfolding less_eq_FutexKey_def by (rule linear)
qed

end

definition futex_key_new :: "u64 \<Rightarrow> nat \<Rightarrow> u32 \<Rightarrow> FutexKey" where
  "futex_key_new pid aligned offset = FutexKey (ucast pid) (of_nat aligned) offset"

record FutexQ =
  q_key :: FutexKey
  q_task :: tid
  q_bitset :: u32

definition futexq_new :: "FutexKey \<Rightarrow> tid \<Rightarrow> u32 \<Rightarrow> FutexQ" where
  "futexq_new key t bitset = \<lparr>q_key = key, q_task = t, q_bitset = bitset\<rparr>"

definition match_key :: "FutexKey \<Rightarrow> FutexQ \<Rightarrow> bool" where
  "match_key key q \<longleftrightarrow> q_key q = key"

subsection \<open>The hash\<close>

definition JHASH_INITVAL :: u32 where "JHASH_INITVAL = 0xdeadbeef"

definition jhash_mix :: "u32 \<times> u32 \<times> u32 \<Rightarrow> u32 \<times> u32 \<times> u32" where
  "jhash_mix abc =
     (let (a, b, c) = abc;
          a = (a - c) XOR word_rotl 4 c; c = c + b;
          b = (b - a) XOR word_rotl 6 a; a = a + c;
          c = (c - b) XOR word_rotl 8 b; b = b + a;
          a = (a - c) XOR word_rotl 16 c; c = c + b;
          b = (b - a) XOR word_rotl 19 a; a = a + c;
          c = (c - b) XOR word_rotl 4 b; b = b + a
      in (a, b, c))"

text \<open>One line pair of the final mix: \<open>x ^= y; x = x.wrapping_sub(y.rotate_left(n))\<close>.\<close>

definition jhash_step :: "nat \<Rightarrow> u32 \<Rightarrow> u32 \<Rightarrow> u32" where
  "jhash_step n x y = (x XOR y) - word_rotl n y"

definition jhash_final :: "u32 \<Rightarrow> u32 \<Rightarrow> u32 \<Rightarrow> u32" where
  "jhash_final a b c =
     (let c = jhash_step 14 c b;
          a = jhash_step 11 a c;
          b = jhash_step 25 b a;
          c = jhash_step 16 c b;
          a = jhash_step 4 a c;
          b = jhash_step 14 b a;
          c = jhash_step 24 c b
      in c)"

fun jhash_loop :: "u32 list \<Rightarrow> u32 \<times> u32 \<times> u32 \<Rightarrow> u32" where
  "jhash_loop (x # y # z # w # ks) (a, b, c) = jhash_loop (w # ks) (jhash_mix (a + x, b + y, c + z))"
| "jhash_loop [x, y, z] (a, b, c) = jhash_final (a + x) (b + y) (c + z)"
| "jhash_loop [x, y] (a, b, c) = jhash_final (a + x) (b + y) c"
| "jhash_loop [x] (a, b, c) = jhash_final (a + x) b c"
| "jhash_loop [] (a, b, c) = c"

definition jhash2 :: "u32 list \<Rightarrow> u32 \<Rightarrow> u32" where
  "jhash2 key initval = (let a = JHASH_INITVAL + of_nat (length key) + initval in jhash_loop key (a, a, a))"

definition FUTEX_HASH_SIZE :: nat where "FUTEX_HASH_SIZE = 256"

definition futex_hash :: "FutexKey \<Rightarrow> nat" where
  "futex_hash k = unat (jhash2 [key_pid k, key_aligned k, key_offset k] (key_offset k)) AND (FUTEX_HASH_SIZE - 1)"

lemma futex_hash_less: "futex_hash k < FUTEX_HASH_SIZE"
proof -
  have "(mask 8 :: nat) = 255"
    by (simp add: mask_eq_exp_minus_1)
  then have "n AND 255 = n mod 2 ^ 8" for n :: nat
    using take_bit_eq_mask [of 8 n] by (simp add: take_bit_eq_mod)
  then show ?thesis
    by (simp add: futex_hash_def FUTEX_HASH_SIZE_def)
qed

text \<open>Two keys in one page and the buckets they hash to.\<close>

lemma word_rotl_shifts:
  assumes "0 < n" "n < 32"
  shows "word_rotl n (w :: u32) = push_bit n w OR drop_bit (32 - n) w"
proof (rule bit_word_eqI)
  fix i assume "i < LENGTH(32)"
  then have i: "i < 32" by simp
  have r: "bit (word_rotl n w) i = bit w ((i + (32 - n)) mod 32)"
    using i assms by (simp add: bit_word_rotl_iff)
  have p: "bit (push_bit n w OR drop_bit (32 - n) w) i \<longleftrightarrow> n \<le> i \<and> bit w (i - n) \<or> bit w (32 - n + i)"
    using i by (simp add: bit_simps)
  show "bit (word_rotl n w) i = bit (push_bit n w OR drop_bit (32 - n) w) i"
  proof (cases "n \<le> i")
    case True
    then have "i + (32 - n) = (i - n) + 32" using assms by simp
    then have "(i + (32 - n)) mod 32 = i - n" using i by (metis mod_add_self2 mod_less less_imp_diff_less)
    moreover have "\<not> bit w (32 - n + i)" using True assms i bit_imp_le_length [of w "32 - n + i"] by auto
    ultimately show ?thesis using True unfolding r p by simp
  next
    case False
    then have "(i + (32 - n)) mod 32 = 32 - n + i" using assms i by (simp add: add.commute)
    with False show ?thesis unfolding r p by simp
  qed
qed

lemma jhash_steps:
  "jhash_step 14 3735928578 3735932666 = 2353117773"
  "jhash_step 11 3735928571 2353117773 = 1159305300"
  "jhash_step 25 3735932666 1159305300 = 4079625086"
  "jhash_step 16 2353117773 4079625086 = 1542235657"
  "jhash_step 4 1159305300 1542235657 = 1613422024"
  "jhash_step 14 4079625086 1613422024 = 3683575468"
  "jhash_step 24 1542235657 3683575468 = 3548819903"
  "jhash_step 14 3735928586 3735932670 = 2353052233"
  "jhash_step 11 3735928575 2353052233 = 1293596756"
  "jhash_step 25 3735932670 1293596756 = 3944563002"
  "jhash_step 16 2353052233 3944563002 = 639832150"
  "jhash_step 4 1293596756 639832150 = 151560864"
  "jhash_step 14 3944563002 151560864 = 3110986072"
  "jhash_step 24 639832150 3110986072 = 1184203565"
  by (simp_all add: jhash_step_def word_rotl_shifts)

lemma futex_hash_values: "futex_hash (FutexKey 1 4096 8) = 191" "futex_hash (FutexKey 1 4096 12) = 45"
  by (simp_all add: futex_hash_def jhash2_def JHASH_INITVAL_def jhash_final_def jhash_steps FUTEX_HASH_SIZE_def)

subsection \<open>The table of waiters\<close>

type_synonym FutexQueues = "FutexQ list list"

definition futex_queues_new :: "nat \<Rightarrow> FutexQueues" where
  "futex_queues_new n = replicate n []"

definition get_futex_key :: "u64 \<Rightarrow> nat \<Rightarrow> i32 \<Rightarrow> FutexKey" where
  "get_futex_key pid uaddr flags =
     futex_key_new (if flags AND FLAGS_SHARED \<noteq> 0 then 0 else pid) (uaddr - uaddr mod 4096) (of_nat (uaddr mod 4096))"

text \<open>\<open>VecDeque::retain\<close> with the counter its closure updates. \<open>sel\<close> selects the waiters to wake.\<close>

fun retain_wake :: "(FutexQ \<Rightarrow> bool) \<Rightarrow> u32 \<Rightarrow> u32 \<Rightarrow> FutexQ list \<Rightarrow> u32 \<times> FutexQ list" where
  "retain_wake sel nr ret [] = (ret, [])"
| "retain_wake sel nr ret (q # qs) =
     (if ret < nr \<and> sel q then retain_wake sel nr (ret + 1) qs
      else (case retain_wake sel nr ret qs of (r, ks) \<Rightarrow> (r, q # ks)))"

fun retain_wake_bitset :: "(FutexQ \<Rightarrow> bool) \<Rightarrow> u32 \<Rightarrow> u32 \<Rightarrow> FutexQ list \<Rightarrow> u32 \<times> FutexQ list" where
  "retain_wake_bitset sel nr ret [] = (ret, [])"
| "retain_wake_bitset sel nr ret (q # qs) =
     (if ret = nr then (case retain_wake_bitset sel nr ret qs of (r, ks) \<Rightarrow> (r, q # ks))
      else if sel q then retain_wake_bitset sel nr (ret + 1) qs
      else (case retain_wake_bitset sel nr ret qs of (r, ks) \<Rightarrow> (r, q # ks)))"

definition futex_wake :: "FutexKey \<Rightarrow> u32 \<Rightarrow> FutexQueues \<Rightarrow> int sys_result \<times> FutexQueues" where
  "futex_wake key nr qs =
     (let b = qs ! futex_hash key
      in if b = [] then (Inr 0, qs)
         else (case retain_wake (match_key key) nr 0 b of (ret, b') \<Rightarrow> (Inr (uint ret), qs[futex_hash key := b'])))"

definition futex_wake_bitset :: "FutexKey \<Rightarrow> u32 \<Rightarrow> u32 \<Rightarrow> FutexQueues \<Rightarrow> int sys_result \<times> FutexQueues" where
  "futex_wake_bitset key nr bitset qs =
     (if bitset = 0 then (Inl EINVAL, qs)
      else let b = qs ! futex_hash key
      in if b = [] then (Inr 0, qs)
         else (case retain_wake_bitset (\<lambda>q. q_bitset q AND bitset \<noteq> 0 \<and> match_key key q) nr 0 b of
                 (ret, b') \<Rightarrow> (Inr (uint ret), qs[futex_hash key := b'])))"

text \<open>The first loop of \<open>futex_requeue\<close> pops waiters, counts those of the key, and stops at the
  wanted number; the second moves the rest one by one.\<close>

fun requeue_wake :: "FutexKey \<Rightarrow> u32 \<Rightarrow> u32 \<Rightarrow> FutexQ list \<Rightarrow> u32 \<times> FutexQ list" where
  "requeue_wake key nr ret [] = (ret, [])"
| "requeue_wake key nr ret (q # qs) =
     (if match_key key q then
        if ret + 1 = nr then (ret + 1, qs) else requeue_wake key nr (ret + 1) qs
      else requeue_wake key nr ret qs)"

fun requeue_move :: "u32 \<Rightarrow> u32 \<Rightarrow> FutexQ list \<Rightarrow> FutexQ list \<Rightarrow> FutexQ list \<times> FutexQ list" where
  "requeue_move nr n [] req = ([], req)"
| "requeue_move nr n (q # qs) req =
     (if n + 1 = nr then (qs, req @ [q]) else requeue_move nr (n + 1) qs (req @ [q]))"

text \<open>Taking the mutex of a bucket a second time fails its assertion.\<close>

definition futex_requeue :: "FutexKey \<Rightarrow> u32 \<Rightarrow> FutexKey \<Rightarrow> u32 \<Rightarrow> FutexQueues \<Rightarrow> (int sys_result \<times> FutexQueues) option" where
  "futex_requeue key nr_waken req_key nr_requeue qs =
     (if key = req_key then Some (futex_wake key nr_waken qs)
      else let b = qs ! futex_hash key
      in if b = [] then Some (Inr 0, qs)
         else case requeue_wake key nr_waken 0 b of (ret, b1) \<Rightarrow>
           if b1 = [] then Some (Inr (uint ret), qs[futex_hash key := []])
           else if futex_hash req_key = futex_hash key then None
           else case requeue_move nr_requeue 0 b1 (qs ! futex_hash req_key) of (b2, req) \<Rightarrow>
             Some (Inr (uint ret), qs[futex_hash key := b2, futex_hash req_key := req]))"

subsection \<open>Waiting\<close>

text \<open>\<open>val\<close> is the word in user memory, \<open>None\<close> when its page cannot be mapped.\<close>

definition futex_wait_enqueue :: "FutexKey \<Rightarrow> u32 \<Rightarrow> u32 option \<Rightarrow> u32 \<Rightarrow> tid \<Rightarrow> FutexQueues \<Rightarrow> FutexQueues sys_result" where
  "futex_wait_enqueue key expected val bitset t qs =
     (case val of
        None \<Rightarrow> Inl EFAULT
      | Some v \<Rightarrow> if expected \<noteq> v then Inl EAGAIN
                 else Inr (qs[futex_hash key := qs ! futex_hash key @ [futexq_new key t bitset]]))"

datatype wait_outcome = Return "int sys_result" | Again

definition futex_wait_resume :: "FutexKey \<Rightarrow> bool \<Rightarrow> bool \<Rightarrow> tid \<Rightarrow> FutexQueues \<Rightarrow> wait_outcome \<times> FutexQueues" where
  "futex_wait_resume key is_timeout have_signals t qs =
     (let b = qs ! futex_hash key
      in case find (\<lambda>q. q_task q = t) b of
           Some q \<Rightarrow>
             (if is_timeout then Return (Inl ETIMEDOUT) else if have_signals then Return (Inl EINTR) else Again,
              qs[futex_hash key := remove1 q b])
         | None \<Rightarrow> (Return (Inr 0), qs))"

text \<open>\<open>is_timeout\<close> of a round: the deadline, if there is one, lies before the current time.\<close>

definition wait_is_timeout :: "nat option \<Rightarrow> nat \<Rightarrow> bool" where
  "wait_is_timeout deadline now \<longleftrightarrow> (case deadline of None \<Rightarrow> False | Some d \<Rightarrow> d < now)"

text \<open>The list of robust futexes: the kernel keeps its head and length for each task. \<open>mapped\<close> tells
  whether the address given by the user can be mapped; a robust list head has 24 bytes.\<close>

record FutexRobustList =
  rl_head :: nat
  rl_len :: nat

definition robust_list_new :: "nat \<Rightarrow> nat \<Rightarrow> FutexRobustList" where
  "robust_list_new h l = \<lparr>rl_head = h, rl_len = l\<rparr>"

definition syscall_set_robust_list ::
  "bool \<Rightarrow> tid \<Rightarrow> nat \<Rightarrow> nat \<Rightarrow> (tid \<rightharpoonup> FutexRobustList) \<Rightarrow> int sys_result \<times> (tid \<rightharpoonup> FutexRobustList)" where
  "syscall_set_robust_list mapped curr_id h len rl =
     (if len \<noteq> 24 then (Inl EINVAL, rl)
      else if mapped then (Inr 0, rl(curr_id \<mapsto> robust_list_new h len))
      else (Inl EINVAL, rl))"

text \<open>On success the values written to the two user addresses are returned as well.\<close>

definition syscall_get_robust_list ::
  "bool \<Rightarrow> tid \<Rightarrow> i32 \<Rightarrow> (tid \<rightharpoonup> FutexRobustList) \<Rightarrow> (nat \<times> nat) sys_result" where
  "syscall_get_robust_list mapped curr_id pid rl =
     (if pid = 0 \<and> mapped then
        (case rl curr_id of Some l \<Rightarrow> Inr (rl_head l, rl_len l) | None \<Rightarrow> Inl EPERM)
      else Inl EPERM)"

lemma robust_list_roundtrip:
  "syscall_get_robust_list True t 0 (snd (syscall_set_robust_list True t h 24 rl)) = Inr (h, 24)"
  by (simp add: syscall_get_robust_list_def syscall_set_robust_list_def robust_list_new_def)

subsection \<open>The system call\<close>

text \<open>What the call does after decoding its arguments; a wait is its parameters. \<open>timeout\<close> is the
  time read from user memory in nanoseconds, zero when there is none. The real-time clock flag
  panics.\<close>

datatype futex_call =
    CallWait FutexKey u32 "nat option" u32
  | CallWake FutexKey u32
  | CallWakeBitset FutexKey u32 u32
  | CallRequeue FutexKey u32 FutexKey u32
  | CallFails linux_error

definition syscall_futex :: "u64 \<Rightarrow> nat \<Rightarrow> nat \<Rightarrow> nat \<Rightarrow> i32 \<Rightarrow> u32 \<Rightarrow> nat \<Rightarrow> nat \<Rightarrow> u32 \<Rightarrow> futex_call option" where
  "syscall_futex pid now timeout uaddr futex_op val val2 uaddr2 val3 =
     (let flags = futex_op_to_flag futex_op; cmd = futex_op AND FUTEX_CMD_MASK; key = get_futex_key pid uaddr flags
      in if flags AND FLAGS_CLOCKRT \<noteq> 0 then None
         else if cmd = FUTEX_WAIT then
           Some (CallWait key val (if timeout \<noteq> 0 then Some (timeout + now) else None) FUTEX_BITSET_MATCH_ANY)
         else if cmd = FUTEX_WAIT_BITSET then
           Some (CallWait key val (if timeout \<noteq> 0 then Some timeout else None) val3)
         else if cmd = FUTEX_WAKE then Some (CallWake key val)
         else if cmd = FUTEX_WAKE_BITSET then Some (CallWakeBitset key val val3)
         else if cmd = FUTEX_REQUEUE then
           Some (CallRequeue key val (get_futex_key pid uaddr2 flags) (of_nat val2))
         else Some (CallFails ENOSYS))"

subsection \<open>Interleaved waits and wakes\<close>

text \<open>Any number of tasks wait, resume and wake in any order. \<open>fwait\<close> remembers the key under
  which a task waits; it is a local variable of the wait.\<close>

record fstate =
  fqs :: FutexQueues
  fwait :: "tid \<rightharpoonup> FutexKey"

inductive fstep :: "fstate \<Rightarrow> fstate \<Rightarrow> bool" where
  fs_enqueue: "fwait s t = None \<Longrightarrow> futex_wait_enqueue key expected val bitset t (fqs s) = Inr qs' \<Longrightarrow>
    fstep s (s\<lparr>fqs := qs', fwait := (fwait s)(t \<mapsto> key)\<rparr>)"
| fs_resume: "fwait s t = Some key \<Longrightarrow> futex_wait_resume key to sig t (fqs s) = (r, qs') \<Longrightarrow>
    fstep s (s\<lparr>fqs := qs', fwait := (fwait s)(t := None)\<rparr>)"
| fs_wake: "futex_wake key nr (fqs s) = (res, qs') \<Longrightarrow> fstep s (s\<lparr>fqs := qs'\<rparr>)"
| fs_wake_bitset: "futex_wake_bitset key nr bitset (fqs s) = (res, qs') \<Longrightarrow> fstep s (s\<lparr>fqs := qs'\<rparr>)"

definition finit :: fstate where
  "finit = \<lparr>fqs = futex_queues_new FUTEX_HASH_SIZE, fwait = Map.empty\<rparr>"

inductive freach :: "fstate \<Rightarrow> bool" where
  freach_init: "freach finit"
| freach_step: "freach s \<Longrightarrow> fstep s s' \<Longrightarrow> freach s'"

text \<open>The tasks that wait for a key, in the order in which they came.\<close>

definition waiting :: "FutexKey \<Rightarrow> FutexQueues \<Rightarrow> tid list" where
  "waiting key qs = map q_task (filter (match_key key) (qs ! futex_hash key))"

text \<open>Every waiter is in the bucket of its key, under the key it waits for, and no bucket holds a
  task twice.\<close>

definition bucket_ok :: "(tid \<rightharpoonup> FutexKey) \<Rightarrow> nat \<Rightarrow> FutexQ list \<Rightarrow> bool" where
  "bucket_ok w i b \<longleftrightarrow> distinct (map q_task b) \<and> (\<forall>q \<in> set b. futex_hash (q_key q) = i \<and> w (q_task q) = Some (q_key q))"

definition futex_ok :: "fstate \<Rightarrow> bool" where
  "futex_ok s \<longleftrightarrow> length (fqs s) = FUTEX_HASH_SIZE \<and> (\<forall>i < FUTEX_HASH_SIZE. bucket_ok (fwait s) i (fqs s ! i))"

lemma distinct_submset:
  assumes "mset xs \<subseteq># mset ys" "distinct ys"
  shows "distinct xs"
proof -
  have "count (mset xs) a = (if a \<in> set xs then 1 else 0)" for a
  proof -
    have "count (mset xs) a \<le> count (mset ys) a"
      by (rule mset_subset_eq_count [OF assms(1)])
    also have "\<dots> \<le> 1"
      using assms(2) distinct_count_atmost_1 [of ys] by simp
    finally show ?thesis
      by (auto simp: le_Suc_eq count_eq_zero_iff)
  qed
  then show ?thesis
    by (simp add: distinct_count_atmost_1)
qed

lemma bucket_ok_filter:
  assumes "bucket_ok w i b" "mset b' \<subseteq># mset b"
  shows "bucket_ok w i b'"
proof -
  have "mset (map q_task b') \<subseteq># mset (map q_task b)"
    using assms(2) by (simp add: image_mset_subseteq_mono)
  moreover have "distinct (map q_task b)"
    using assms(1) by (simp add: bucket_ok_def)
  ultimately have "distinct (map q_task b')"
    by (rule distinct_submset)
  moreover have "set b' \<subseteq> set b"
    using assms(2) by (metis set_mset_mono set_mset_mset)
  ultimately show ?thesis
    using assms(1) by (auto simp: bucket_ok_def)
qed

lemma futex_ok_bucket:
  assumes "futex_ok s" "\<And>q. q \<in> set b \<Longrightarrow> w (q_task q) = fwait s (q_task q)" "mset b \<subseteq># mset (fqs s ! i)"
    and "\<And>j q. j < FUTEX_HASH_SIZE \<Longrightarrow> j \<noteq> i \<Longrightarrow> q \<in> set (fqs s ! j) \<Longrightarrow> w (q_task q) = fwait s (q_task q)"
  shows "futex_ok \<lparr>fqs = (fqs s)[i := b], fwait = w\<rparr>"
  unfolding futex_ok_def
proof (intro conjI allI impI)
  show "length (fqs \<lparr>fqs = (fqs s)[i := b], fwait = w\<rparr>) = FUTEX_HASH_SIZE"
    using assms(1) by (simp add: futex_ok_def)
  fix j assume j: "j < FUTEX_HASH_SIZE"
  with assms(1) have ok: "bucket_ok (fwait s) j (fqs s ! j)" "j < length (fqs s)"
    by (auto simp: futex_ok_def)
  show "bucket_ok (fwait \<lparr>fqs = (fqs s)[i := b], fwait = w\<rparr>) j (fqs \<lparr>fqs = (fqs s)[i := b], fwait = w\<rparr> ! j)"
  proof (cases "j = i")
    case True
    with bucket_ok_filter [OF ok(1)] assms(2,3) ok(2) show ?thesis
      by (simp add: bucket_ok_def)
  next
    case False
    with ok assms(4) [OF j] show ?thesis
      by (simp add: bucket_ok_def)
  qed
qed

lemma futex_ok_shrink:
  assumes "futex_ok s" "mset b \<subseteq># mset (fqs s ! i)"
  shows "futex_ok (s\<lparr>fqs := (fqs s)[i := b]\<rparr>)"
  using futex_ok_bucket [OF assms(1) _ assms(2), of "fwait s"] by (simp add: futex_ok_def)

text \<open>What the retaining loops keep: all but the first selected waiters, as many as wanted.\<close>

lemma unat_Suc_less: "(r :: u32) < n \<Longrightarrow> unat (r + 1) = Suc (unat r)"
  using unsigned_less [of n, where 'a = nat] by (simp add: unat_word_ariths word_less_nat_alt)

lemma retain_wake_spec:
  assumes "ret \<le> nr" "retain_wake sel nr ret qs = (r, ks)"
  defines "m \<equiv> min (unat nr - unat ret) (length (filter sel qs))"
  shows "unat r = unat ret + m \<and> filter sel ks = drop m (filter sel qs) \<and> mset ks \<subseteq># mset qs \<and>
    (\<forall>P. (\<forall>q. P q \<longrightarrow> \<not> sel q) \<longrightarrow> filter P ks = filter P qs)"
  using assms(1,2) unfolding m_def
proof (induction sel nr ret qs arbitrary: r ks rule: retain_wake.induct)
  case (1 sel nr ret)
  then show ?case by simp
next
  case (2 sel nr ret q qs)
  show ?case
  proof (cases "ret < nr \<and> sel q")
    case True
    then have s: "unat (ret + 1) = Suc (unat ret)" and le: "ret + 1 \<le> nr"
      using unat_Suc_less by (auto simp: inc_le)
    have "unat ret < unat nr"
      using True by (simp add: word_less_nat_alt)
    then have m: "min (unat nr - unat ret) (length (filter sel (q # qs))) = Suc (min (unat nr - unat (ret + 1)) (length (filter sel qs)))"
      using True by (simp add: s)
    have "retain_wake sel nr (ret + 1) qs = (r, ks)"
      using 2(4) True by simp
    note ih = 2(1) [OF True le this]
    have "mset ks \<subseteq># mset (q # qs)"
      using subset_mset.order_trans [OF conjunct1 [OF conjunct2 [OF conjunct2 [OF ih]]], of "mset (q # qs)"] by simp
    moreover have "filter P ks = filter P (q # qs)" if "\<forall>q. P q \<longrightarrow> \<not> sel q" for P
    proof -
      have "filter P ks = filter P qs"
        using ih that by blast
      moreover have "\<not> P q"
        using that True by blast
      ultimately show ?thesis by simp
    qed
    moreover have "unat r = unat (ret + 1) + min (unat nr - unat (ret + 1)) (length (filter sel qs))"
      "filter sel ks = drop (min (unat nr - unat (ret + 1)) (length (filter sel qs))) (filter sel qs)"
      using ih by blast+
    ultimately show ?thesis
      using True unfolding m by (simp add: s)
  next
    case False
    obtain r1 k1 where r1: "retain_wake sel nr ret qs = (r1, k1)" by fastforce
    then have eq: "r = r1" "ks = q # k1"
      using 2(4) False by auto
    note ih = 2(2) [OF False 2(3) r1]
    have "\<not> sel q \<or> unat nr - unat ret = 0"
      using False by (auto simp: word_less_nat_alt)
    then have "min (unat nr - unat ret) (length (filter sel (q # qs))) = (if sel q then 0 else min (unat nr - unat ret) (length (filter sel qs)))"
      "sel q \<Longrightarrow> min (unat nr - unat ret) (length (filter sel qs)) = 0"
      by auto
    moreover have "filter P ks = filter P (q # qs)" if "\<forall>q. P q \<longrightarrow> \<not> sel q" for P
    proof -
      have "filter P k1 = filter P qs"
        using ih that by blast
      then show ?thesis by (simp add: eq)
    qed
    moreover have "unat r1 = unat ret + min (unat nr - unat ret) (length (filter sel qs))" "mset k1 \<subseteq># mset qs"
      "filter sel k1 = drop (min (unat nr - unat ret) (length (filter sel qs))) (filter sel qs)"
      using ih by blast+
    ultimately show ?thesis
      by (cases "sel q") (simp_all add: eq)
  qed
qed

lemma retain_wake_bitset_eq: "ret \<le> nr \<Longrightarrow> retain_wake_bitset sel nr ret qs = retain_wake sel nr ret qs"
proof (induction sel nr ret qs rule: retain_wake_bitset.induct)
  case (2 sel nr ret q qs)
  then show ?case
    by (auto simp: inc_le)
qed simp

lemma futex_okD:
  assumes "futex_ok s"
  shows "futex_hash k < length (fqs s)" "bucket_ok (fwait s) (futex_hash k) (fqs s ! futex_hash k)"
    "j < FUTEX_HASH_SIZE \<Longrightarrow> q \<in> set (fqs s ! j) \<Longrightarrow> futex_hash (q_key q) = j \<and> fwait s (q_task q) = Some (q_key q)"
  using assms futex_hash_less [of k] by (auto simp: futex_ok_def bucket_ok_def)

lemma futex_ok_enqueue:
  assumes "futex_ok s" "fwait s t = None" "q_key q = key" "q_task q = t"
  shows "futex_ok (s\<lparr>fqs := (fqs s)[futex_hash key := fqs s ! futex_hash key @ [q]], fwait := (fwait s)(t \<mapsto> key)\<rparr>)"
  unfolding futex_ok_def
proof (intro conjI allI impI, goal_cases)
  case 1
  show ?case using assms(1) by (simp add: futex_ok_def)
next
  case (2 j)
  then have ok: "bucket_ok (fwait s) j (fqs s ! j)" "j < length (fqs s)"
    using assms(1) by (auto simp: futex_ok_def)
  have new: "t \<notin> q_task ` set (fqs s ! j)"
    using ok(1) assms(2) by (auto simp: bucket_ok_def)
  then have old: "bucket_ok ((fwait s)(t \<mapsto> key)) j (fqs s ! j)"
    using ok(1) by (auto simp: bucket_ok_def)
  show ?case
  proof (cases "j = futex_hash key")
    case True
    with old new assms(3,4) ok(2) show ?thesis
      by (auto simp: bucket_ok_def)
  next
    case False
    with old show ?thesis by simp
  qed
qed

lemma futex_ok_resume:
  assumes "futex_ok s" "fwait s t = Some key" "futex_wait_resume key to sig t (fqs s) = (r, qs')"
  shows "futex_ok (s\<lparr>fqs := qs', fwait := (fwait s)(t := None)\<rparr>)"
proof -
  let ?b = "fqs s ! futex_hash key"
  have ok: "bucket_ok (fwait s) (futex_hash key) ?b"
    by (rule futex_okD(2) [OF assms(1)])
  have other: "q_task q \<noteq> t" if "j < FUTEX_HASH_SIZE" "j \<noteq> futex_hash key" "q \<in> set (fqs s ! j)" for j q
    using futex_okD(3) [OF assms(1) that(1,3)] that(2) assms(2) by auto
  obtain b where b: "qs' = (fqs s)[futex_hash key := b]" "mset b \<subseteq># mset ?b" "t \<notin> q_task ` set b"
  proof (cases "find (\<lambda>q. q_task q = t) ?b")
    case None
    with assms(3) show ?thesis
      by (intro that [of ?b]) (auto simp: futex_wait_resume_def find_None_iff)
  next
    case (Some q)
    then have q: "q \<in> set ?b" "q_task q = t"
      by (auto simp: find_Some_iff)
    have d: "distinct (map q_task ?b)"
      using ok by (simp add: bucket_ok_def)
    have "t \<notin> q_task ` set (remove1 q ?b)"
    proof
      assume "t \<in> q_task ` set (remove1 q ?b)"
      then obtain p where p: "p \<in> set (remove1 q ?b)" "q_task p = t" by auto
      then have "p \<in> set ?b" "p \<noteq> q"
        using d by (auto simp: distinct_map dest: notin_set_remove1)
      with q p d show False
        by (auto simp: distinct_map inj_on_def)
    qed
    with assms(3) Some show ?thesis
      by (intro that [of "remove1 q ?b"]) (auto simp: futex_wait_resume_def Let_def)
  qed
  have "futex_ok \<lparr>fqs = (fqs s)[futex_hash key := b], fwait = (fwait s)(t := None)\<rparr>"
    by (rule futex_ok_bucket [OF assms(1)]) (use b other in auto)
  then show ?thesis
    by (simp add: futex_ok_def b(1))
qed

lemma futex_wake_mset:
  assumes "futex_wake key nr qs = (r, qs')"
  obtains b where "qs' = qs[futex_hash key := b]" "mset b \<subseteq># mset (qs ! futex_hash key)"
proof (cases "qs ! futex_hash key = []")
  case True
  with assms have "qs' = qs"
    by (auto simp: futex_wake_def)
  then show ?thesis
    by (intro that [of "qs ! futex_hash key"]) simp_all
next
  case False
  obtain ret b' where r: "retain_wake (match_key key) nr 0 (qs ! futex_hash key) = (ret, b')" by fastforce
  have "mset b' \<subseteq># mset (qs ! futex_hash key)"
    using retain_wake_spec [OF _ r] by simp
  with False r assms show ?thesis
    by (intro that [of b']) (auto simp: futex_wake_def Let_def)
qed

lemma futex_wake_bitset_mset:
  assumes "futex_wake_bitset key nr bitset qs = (r, qs')"
  obtains b where "qs' = qs[futex_hash key := b]" "mset b \<subseteq># mset (qs ! futex_hash key)"
proof (cases "bitset = 0 \<or> qs ! futex_hash key = []")
  case True
  with assms have "qs' = qs"
    by (auto simp: futex_wake_bitset_def Let_def split: if_splits)
  then show ?thesis
    by (intro that [of "qs ! futex_hash key"]) simp_all
next
  case False
  let ?sel = "\<lambda>q. q_bitset q AND bitset \<noteq> 0 \<and> match_key key q"
  obtain ret b' where r: "retain_wake ?sel nr 0 (qs ! futex_hash key) = (ret, b')" by fastforce
  have "mset b' \<subseteq># mset (qs ! futex_hash key)"
    using retain_wake_spec [OF _ r] by simp
  with False r assms show ?thesis
    by (intro that [of b']) (auto simp: futex_wake_bitset_def Let_def retain_wake_bitset_eq)
qed

lemma futex_ok_step:
  assumes "fstep s s'" "futex_ok s"
  shows "futex_ok s'"
  using assms(1)
proof cases
  case (fs_enqueue t key expected val bitset qs')
  with futex_ok_enqueue [OF assms(2), of t "futexq_new key t bitset" key] show ?thesis
    by (auto simp: futex_wait_enqueue_def futexq_new_def split: option.splits if_splits)
next
  case (fs_resume t key to sig r qs')
  with futex_ok_resume [OF assms(2)] show ?thesis by simp
next
  case (fs_wake key nr res qs')
  from fs_wake(2) obtain b where "qs' = (fqs s)[futex_hash key := b]" "mset b \<subseteq># mset (fqs s ! futex_hash key)"
    by (rule futex_wake_mset)
  with futex_ok_shrink [OF assms(2)] fs_wake(1) show ?thesis by simp
next
  case (fs_wake_bitset key nr bitset res qs')
  from fs_wake_bitset(2) obtain b where "qs' = (fqs s)[futex_hash key := b]" "mset b \<subseteq># mset (fqs s ! futex_hash key)"
    by (rule futex_wake_bitset_mset)
  with futex_ok_shrink [OF assms(2)] fs_wake_bitset(1) show ?thesis by simp
qed

lemma freach_ok: "freach s \<Longrightarrow> futex_ok s"
proof (induction rule: freach.induct)
  case freach_init
  show ?case by (simp add: futex_ok_def finit_def futex_queues_new_def bucket_ok_def)
next
  case (freach_step s s')
  from futex_ok_step [OF freach_step(2,3)] show ?case .
qed

text \<open>A task that waits returns success exactly when it is no longer queued.\<close>

lemma resume_returns:
  assumes "futex_ok s" "fwait s t = Some k"
  shows "fst (futex_wait_resume k to sig t (fqs s)) = Return (Inr 0) \<longleftrightarrow> t \<notin> set (waiting k (fqs s))"
proof -
  have key: "match_key k q" if "q \<in> set (fqs s ! futex_hash k)" "q_task q = t" for q
    using futex_okD(3) [OF assms(1) futex_hash_less that(1)] that(2) assms(2) by (simp add: match_key_def)
  have "t \<notin> set (waiting k (fqs s)) \<longleftrightarrow> find (\<lambda>q. q_task q = t) (fqs s ! futex_hash k) = None"
    using key by (auto simp: waiting_def find_None_iff)
  then show ?thesis
    by (auto simp: futex_wait_resume_def Let_def split: option.splits if_splits)
qed

lemma waiting_update:
  assumes "futex_hash k < length qs"
  shows "waiting k (qs[i := b]) = (if futex_hash k = i then map q_task (filter (match_key k) b) else waiting k qs)"
  using assms by (simp add: waiting_def)

text \<open>The loops of the requeue operation drop a part from the front of the bucket and move the next
  part to the end of the other one.\<close>

lemma requeue_wake_suffix:
  "requeue_wake key nr ret b = (r, b') \<Longrightarrow> \<exists>pre. b = pre @ b'"
proof (induction key nr ret b rule: requeue_wake.induct)
  case (2 key nr ret q qs)
  have "\<exists>pre. qs = pre @ b'"
    using 2 by (auto split: if_splits)
  then obtain pre where "qs = pre @ b'" ..
  then have "q # qs = (q # pre) @ b'" by simp
  then show ?case by blast
qed simp

lemma requeue_move_split:
  "requeue_move nr n b req = (b', req') \<Longrightarrow> \<exists>moved. b = moved @ b' \<and> req' = req @ moved"
proof (induction nr n b req rule: requeue_move.induct)
  case (2 nr n q qs req)
  show ?case
  proof (cases "n + 1 = nr")
    case True
    with 2(2) show ?thesis by auto
  next
    case False
    with 2 obtain moved where "qs = moved @ b' \<and> req' = (req @ [q]) @ moved" by auto
    then show ?thesis by auto
  qed
qed simp

lemma futex_requeue_shape:
  assumes "futex_hash key \<noteq> futex_hash req_key" "futex_requeue key nr_waken req_key nr_requeue qs = Some (r, qs')"
  obtains pre moved b where "qs ! futex_hash key = pre @ moved @ b"
    "qs' = qs[futex_hash key := b, futex_hash req_key := qs ! futex_hash req_key @ moved]"
proof -
  let ?b = "qs ! futex_hash key" and ?c = "qs ! futex_hash req_key"
  obtain ret b1 where w: "requeue_wake key nr_waken 0 ?b = (ret, b1)" by fastforce
  then obtain pre where pre: "?b = pre @ b1" using requeue_wake_suffix by blast
  obtain b2 req where m: "requeue_move nr_requeue 0 b1 ?c = (b2, req)" by fastforce
  then obtain moved where mv: "b1 = moved @ b2" "req = ?c @ moved" using requeue_move_split by blast
  have ne: "key \<noteq> req_key" using assms(1) by auto
  have c: "qs[futex_hash key := x, futex_hash req_key := ?c] = qs[futex_hash key := x]" for x
    using assms(1) by (metis list_update_id list_update_swap)
  show thesis
  proof (cases "?b = []")
    case True
    with assms(2) ne have "qs' = qs"
      by (simp add: futex_requeue_def)
    moreover have "qs[futex_hash key := []] = qs"
      using list_update_id [of qs "futex_hash key"] unfolding True .
    ultimately show ?thesis
      using c [of "[]"] True by (intro that [of "[]" "[]" "[]"]) simp_all
  next
    case False
    show ?thesis
    proof (cases "b1 = []")
      case True
      with assms(2) ne w False have "qs' = qs[futex_hash key := []]"
        by (simp add: futex_requeue_def)
      with c [of "[]"] show ?thesis
        by (intro that [of ?b "[]" "[]"]) simp_all
    next
      case ne1: False
      with assms ne w m mv(2) False have "qs' = qs[futex_hash key := b2, futex_hash req_key := ?c @ moved]"
        by (auto simp: futex_requeue_def Let_def)
      with pre mv(1) show ?thesis by (intro that [of pre moved b2]) simp_all
    qed
  qed
qed

subsection \<open>Properties\<close>


text \<open>One waiter on one key.\<close>

definition one_waiter :: fstate where
  "one_waiter = \<lparr>fqs = (futex_queues_new FUTEX_HASH_SIZE)[futex_hash (FutexKey 1 4096 8) := [futexq_new (FutexKey 1 4096 8) 5 1]],
     fwait = [5 \<mapsto> FutexKey 1 4096 8]\<rparr>"

lemma freach_one_waiter: "freach one_waiter"
proof -
  let ?k = "FutexKey 1 4096 8"
  let ?qs = "(fqs finit)[futex_hash ?k := fqs finit ! futex_hash ?k @ [futexq_new ?k 5 1]]"
  have "freach (finit\<lparr>fqs := ?qs, fwait := (fwait finit)(5 \<mapsto> ?k)\<rparr>)"
    by (rule freach_step [OF freach_init fs_enqueue [of _ _ _ 0 "Some 0" 1]])
      (simp_all add: finit_def futex_wait_enqueue_def)
  then show ?thesis
    using futex_hash_less [of ?k] by (simp add: one_waiter_def finit_def futex_queues_new_def)
qed

lemma one_waiter_waiting: "waiting (FutexKey 1 4096 8) (fqs one_waiter) = [5]"
  using futex_hash_less [of "FutexKey 1 4096 8"]
  by (simp add: waiting_def one_waiter_def futex_queues_new_def match_key_def futexq_new_def)


text \<open>
  C37: a wake is exact. In every reachable state \<open>futex_wake\<close> with a limit wakes the tasks that
  have waited longest for that key, as many as there are up to the limit, and returns their number;
  nobody who waits for another key is touched, and afterwards a waiting task returns success
  exactly when it has been taken out of the queue.
\<close>

theorem futex_wake_exact:
  assumes "freach s" "futex_wake key nr (fqs s) = (r, qs')"
  defines "n \<equiv> min (unat nr) (length (waiting key (fqs s)))"
  shows "r = Inr (int n) \<and> waiting key qs' = drop n (waiting key (fqs s)) \<and>
    (\<forall>k. k \<noteq> key \<longrightarrow> waiting k qs' = waiting k (fqs s)) \<and>
    (\<forall>t k. fwait s t = Some k \<longrightarrow> (fst (futex_wait_resume k to sig t qs') = Return (Inr 0) \<longleftrightarrow> t \<notin> set (waiting k qs')))"
proof -
  note ok = freach_ok [OF assms(1)]
  let ?b = "fqs s ! futex_hash key"
  obtain ret b where rb: "retain_wake (match_key key) nr 0 ?b = (ret, b)" by fastforce
  note spec = retain_wake_spec [OF _ rb]
  have n: "unat ret = n" "filter (match_key key) b = drop n (filter (match_key key) ?b)"
    using spec by (simp_all add: n_def waiting_def)
  have others: "filter (match_key k) b = filter (match_key k) ?b" if "k \<noteq> key" for k
    using spec that by (simp add: match_key_def)
  have res: "r = Inr (int n) \<and> qs' = (fqs s)[futex_hash key := b]"
  proof (cases "?b = []")
    case True
    with rb n assms(2) show ?thesis
      using list_update_id [of "fqs s" "futex_hash key"] by (auto simp: futex_wake_def n_def waiting_def)
  next
    case False
    with rb assms(2) n(1) show ?thesis
      by (auto simp: futex_wake_def Let_def)
  qed
  have wk: "waiting key qs' = drop n (waiting key (fqs s))" "k \<noteq> key \<Longrightarrow> waiting k qs' = waiting k (fqs s)" for k
    using n(2) others [of k] waiting_update [OF futex_okD(1) [OF ok]] res by (auto simp: drop_map waiting_def)
  have "futex_ok (s\<lparr>fqs := qs'\<rparr>)"
    by (rule futex_ok_step [OF fs_wake [OF assms(2)] ok])
  from resume_returns [OF this] wk res show ?thesis by simp
qed

theorem futex_wake_exact_witness:
  "fst (futex_wake (FutexKey 1 4096 8) 3 (fqs one_waiter)) = Inr 1 \<and>
   waiting (FutexKey 1 4096 8) (snd (futex_wake (FutexKey 1 4096 8) 3 (fqs one_waiter))) = []"
  using futex_wake_exact [OF freach_one_waiter, of "FutexKey 1 4096 8" 3 "fst (futex_wake (FutexKey 1 4096 8) 3 (fqs one_waiter))"
      "snd (futex_wake (FutexKey 1 4096 8) 3 (fqs one_waiter))"] one_waiter_waiting
  by simp



end
