(* ===== verification/Async_Read.thy ===== *)
theory Async_Read
  imports Prelude
begin

section \<open>Asynchronous readers\<close>

text \<open>
  The readers of \<open>async_io/src\<close>: slices (\<open>read/mod.rs\<close>), cursors (\<open>cursor.rs\<close>), the adaptors that
  limit, chain and buffer another reader (\<open>read/take.rs\<close>, \<open>read/chain.rs\<close>, \<open>buf_reader.rs\<close>) and the
  futures that read everything or an exact amount. A reader is one poll of its \<open>read\<close>: given the
  length of the buffer, it is pending, fails, or returns the bytes it put at the front of the
  buffer; \<open>None\<close> is a panic. The locale \<open>async_reader\<close> states the contract of such a reader through
  the bytes it still has to deliver; the adaptors preserve it.
\<close>

type_synonym 's reader = "'s \<Rightarrow> nat \<Rightarrow> (byte list ax_result poll \<times> 's) option"

subsection \<open>The contract\<close>

text \<open>\<open>rest\<close> are the bytes a reader still delivers, \<open>ok\<close> is its own invariant. A poll may be pending
  or fail at any time without losing bytes; when it returns bytes, they are the next ones and fit
  into the buffer, and no bytes for a buffer with room mean the end.\<close>

locale async_reader =
  fixes rd :: "'s reader" and ok :: "'s \<Rightarrow> bool" and rest :: "'s \<Rightarrow> byte list"
  assumes reads: "ok s \<Longrightarrow> \<exists>r s'. rd s n = Some (r, s') \<and> ok s' \<and>
    (case r of
       Ready (Inr bs) \<Rightarrow> length bs \<le> n \<and> rest s = bs @ rest s' \<and> (bs = [] \<longrightarrow> n = 0 \<or> rest s = [])
     | _ \<Rightarrow> rest s' = rest s)"
begin

lemma read_cases:
  assumes "ok s"
  obtains (pending) s' where "rd s n = Some (Pending, s')" "ok s'" "rest s' = rest s"
  | (failed) e s' where "rd s n = Some (Ready (Inl e), s')" "ok s'" "rest s' = rest s"
  | (data) bs s' where "rd s n = Some (Ready (Inr bs), s')" "ok s'" "length bs \<le> n" "rest s = bs @ rest s'"
      "bs = [] \<Longrightarrow> n = 0 \<or> rest s = []"
proof -
  from reads [OF assms, of n] obtain r s' where r: "rd s n = Some (r, s')" "ok s'"
    "case r of Ready (Inr bs) \<Rightarrow> length bs \<le> n \<and> rest s = bs @ rest s' \<and> (bs = [] \<longrightarrow> n = 0 \<or> rest s = []) | _ \<Rightarrow> rest s' = rest s"
    by blast
  show thesis
  proof (cases r)
    case Pending
    with r pending show ?thesis by simp
  next
    case (Ready x)
    with r failed data show ?thesis by (cases x) auto
  qed
qed

end

subsection \<open>Slices and cursors\<close>

definition slice_read :: "byte list reader" where
  "slice_read s n = Some (Ready (Inr (take n s)), drop n s)"

fun slice_read_vectored :: "byte list \<Rightarrow> nat list \<Rightarrow> byte list \<times> byte list" where
  "slice_read_vectored s [] = ([], s)"
| "slice_read_vectored s (n # ns) =
     (if drop n s = [] then (take n s, drop n s)
      else case slice_read_vectored (drop n s) ns of (bs, s') \<Rightarrow> (take n s @ bs, s'))"

record Cursor =
  cinner :: "byte list"
  cpos :: nat

definition cursor_new :: "byte list \<Rightarrow> Cursor" where
  "cursor_new d = \<lparr>cinner = d, cpos = 0\<rparr>"

definition set_position :: "nat \<Rightarrow> Cursor \<Rightarrow> Cursor" where
  "set_position p c = c\<lparr>cpos := p\<rparr>"

definition remaining_slice :: "Cursor \<Rightarrow> byte list" where
  "remaining_slice c = drop (min (cpos c) (length (cinner c))) (cinner c)"

definition cursor_is_empty :: "Cursor \<Rightarrow> bool" where
  "cursor_is_empty c \<longleftrightarrow> length (cinner c) \<le> cpos c"

definition cursor_seek :: "Cursor \<Rightarrow> SeekFrom \<Rightarrow> nat ax_result \<times> Cursor" where
  "cursor_seek c p =
     (case p of
        Start n \<Rightarrow> (Inr n, c\<lparr>cpos := n\<rparr>)
      | End n \<Rightarrow> (case checked_add_signed (length (cinner c)) n of
            Some x \<Rightarrow> (Inr x, c\<lparr>cpos := x\<rparr>) | None \<Rightarrow> (Inl InvalidInput, c))
      | Current n \<Rightarrow> (case checked_add_signed (cpos c) n of
            Some x \<Rightarrow> (Inr x, c\<lparr>cpos := x\<rparr>) | None \<Rightarrow> (Inl InvalidInput, c)))"

definition cursor_read :: "Cursor reader" where
  "cursor_read c n =
     (case slice_read (remaining_slice c) n of
        Some (Ready (Inr bs), _) \<Rightarrow> Some (Ready (Inr bs), c\<lparr>cpos := uadd (cpos c) (length bs)\<rparr>)
      | Some (r, _) \<Rightarrow> Some (r, c)
      | None \<Rightarrow> None)"

fun cursor_read_vectored :: "Cursor \<Rightarrow> nat list \<Rightarrow> (byte list ax_result poll \<times> Cursor) option" where
  "cursor_read_vectored c [] = Some (Ready (Inr []), c)"
| "cursor_read_vectored c (n # ns) =
     (case cursor_read c n of
        Some (Ready (Inr bs), c') \<Rightarrow>
          if length bs < n then Some (Ready (Inr bs), c')
          else (case cursor_read_vectored c' ns of
                  Some (Ready (Inr bs'), c'') \<Rightarrow> Some (Ready (Inr (bs @ bs')), c'')
                | x \<Rightarrow> x)
      | x \<Rightarrow> x)"

subsection \<open>Limiting and chaining\<close>

text \<open>The vectored read a reader has by default: it fills the first buffer that has room.\<close>

definition read_vectored_default :: "'s reader \<Rightarrow> 's \<Rightarrow> nat list \<Rightarrow> (byte list ax_result poll \<times> 's) option" where
  "read_vectored_default rd s ns = (case dropWhile (\<lambda>n. n = 0) ns of [] \<Rightarrow> rd s 0 | n # _ \<Rightarrow> rd s n)"

record 's Take =
  tinner :: 's
  tlimit :: nat

text \<open>\<open>read\<close> stands for the number of bytes the inner reader reports; the limit wraps when it
  reports more than it was asked for.\<close>

definition take_read_internal :: "'s reader \<Rightarrow> 's \<Rightarrow> nat \<Rightarrow> nat \<Rightarrow> (byte list ax_result poll \<times> 's \<times> nat) option" where
  "take_read_internal rd s n limit =
     (if limit = 0 then Some (Ready (Inr []), s, limit)
      else (case rd s (min n limit) of
              Some (Ready (Inr bs), s') \<Rightarrow> Some (Ready (Inr bs), s', usub limit (length bs))
            | Some (r, s') \<Rightarrow> Some (r, s', limit)
            | None \<Rightarrow> None))"

definition take_read :: "'s reader \<Rightarrow> 's Take reader" where
  "take_read rd t n =
     (case take_read_internal rd (tinner t) n (tlimit t) of
        Some (r, s', l') \<Rightarrow> Some (r, \<lparr>tinner = s', tlimit = l'\<rparr>)
      | None \<Rightarrow> None)"

record ('s, 't) Chain =
  first :: 's
  second :: 't
  done_first :: bool

definition chain_new :: "'s \<Rightarrow> 't \<Rightarrow> ('s, 't) Chain" where
  "chain_new a b = \<lparr>first = a, second = b, done_first = False\<rparr>"

definition chain_second :: "'t reader \<Rightarrow> ('s, 't) Chain \<Rightarrow> nat \<Rightarrow> (byte list ax_result poll \<times> ('s, 't) Chain) option" where
  "chain_second rd2 c n = map_option (\<lambda>(r, s'). (r, c\<lparr>second := s'\<rparr>)) (rd2 (second c) n)"

definition chain_read :: "'s reader \<Rightarrow> 't reader \<Rightarrow> ('s, 't) Chain reader" where
  "chain_read rd1 rd2 c n =
     (if done_first c then chain_second rd2 c n
      else (case rd1 (first c) n of
              None \<Rightarrow> None
            | Some (Ready (Inr bs), s') \<Rightarrow>
                if bs = [] \<and> n \<noteq> 0 then chain_second rd2 (c\<lparr>first := s', done_first := True\<rparr>) n
                else Some (Ready (Inr bs), c\<lparr>first := s'\<rparr>)
            | Some (r, s') \<Rightarrow> Some (r, c\<lparr>first := s'\<rparr>)))"

text \<open>The vectored read asks whether there are buffers, not whether they have room.\<close>

definition chain_read_vectored ::
  "('s \<Rightarrow> nat list \<Rightarrow> (byte list ax_result poll \<times> 's) option) \<Rightarrow> ('t \<Rightarrow> nat list \<Rightarrow> (byte list ax_result poll \<times> 't) option)
     \<Rightarrow> ('s, 't) Chain \<Rightarrow> nat list \<Rightarrow> (byte list ax_result poll \<times> ('s, 't) Chain) option" where
  "chain_read_vectored rv1 rv2 c ns =
     (let sec = (\<lambda>c. map_option (\<lambda>(r, s'). (r, c\<lparr>second := s'\<rparr>)) (rv2 (second c) ns))
      in if done_first c then sec c
      else (case rv1 (first c) ns of
              None \<Rightarrow> None
            | Some (Ready (Inr bs), s') \<Rightarrow>
                if bs = [] \<and> ns \<noteq> [] then sec (c\<lparr>first := s', done_first := True\<rparr>)
                else Some (Ready (Inr bs), c\<lparr>first := s'\<rparr>)
            | Some (r, s') \<Rightarrow> Some (r, c\<lparr>first := s'\<rparr>)))"

subsection \<open>Buffering\<close>

record 's BufReader =
  binner :: 's
  bbuf :: "byte list"
  bpos :: nat
  bcap :: nat

definition DEFAULT_BUF_SIZE :: nat where "DEFAULT_BUF_SIZE = 1024"

definition bufreader_with_capacity :: "nat \<Rightarrow> 's \<Rightarrow> 's BufReader" where
  "bufreader_with_capacity capacity s = \<lparr>binner = s, bbuf = replicate capacity 0, bpos = 0, bcap = 0\<rparr>"

definition bufreader_new :: "'s \<Rightarrow> 's BufReader" where
  "bufreader_new s = bufreader_with_capacity DEFAULT_BUF_SIZE s"

definition discard_buffer :: "'s BufReader \<Rightarrow> 's BufReader" where
  "discard_buffer b = b\<lparr>bpos := 0, bcap := 0\<rparr>"

text \<open>\<open>&buf[pos..cap]\<close> panics when the range is not inside the buffer.\<close>

definition buffer_slice :: "'s BufReader \<Rightarrow> byte list option" where
  "buffer_slice b = (if bpos b \<le> bcap b \<and> bcap b \<le> length (bbuf b) then Some (drop (bpos b) (take (bcap b) (bbuf b))) else None)"

definition bufreader_fill_buf :: "'s reader \<Rightarrow> 's BufReader \<Rightarrow> (byte list ax_result poll \<times> 's BufReader) option" where
  "bufreader_fill_buf rd b =
     (if bcap b \<le> bpos b then
        (case rd (binner b) (length (bbuf b)) of
           None \<Rightarrow> None
         | Some (Ready (Inr bs), s') \<Rightarrow>
             let b' = b\<lparr>binner := s', bbuf := take (length (bbuf b)) bs @ drop (length bs) (bbuf b), bcap := length bs, bpos := 0\<rparr>
             in map_option (\<lambda>sl. (Ready (Inr sl), b')) (buffer_slice b')
         | Some (r, s') \<Rightarrow> Some (r, b\<lparr>binner := s'\<rparr>))
      else map_option (\<lambda>sl. (Ready (Inr sl), b)) (buffer_slice b))"

definition bufreader_consume :: "nat \<Rightarrow> 's BufReader \<Rightarrow> 's BufReader" where
  "bufreader_consume amt b = b\<lparr>bpos := min (uadd (bpos b) amt) (bcap b)\<rparr>"

definition bufreader_read :: "'s reader \<Rightarrow> 's BufReader reader" where
  "bufreader_read rd b n =
     (if bpos b = bcap b \<and> length (bbuf b) \<le> n then
        (case rd (binner b) n of
           None \<Rightarrow> None
         | Some (Pending, s') \<Rightarrow> Some (Pending, b\<lparr>binner := s'\<rparr>)
         | Some (Ready r, s') \<Rightarrow> Some (Ready r, discard_buffer (b\<lparr>binner := s'\<rparr>)))
      else
        (case bufreader_fill_buf rd b of
           None \<Rightarrow> None
         | Some (Ready (Inr sl), b') \<Rightarrow>
             (case slice_read sl n of
                Some (Ready (Inr bs), _) \<Rightarrow> Some (Ready (Inr bs), bufreader_consume (length bs) b')
              | _ \<Rightarrow> None)
         | Some (r, b') \<Rightarrow> Some (r, b')))"

text \<open>Seeking discards the buffer; a relative seek counts from the first byte not yet delivered.
  \<open>sk\<close> is the seek of the inner reader. The subtraction that overflows is done in two seeks.\<close>

definition bufreader_seek ::
  "('s \<Rightarrow> SeekFrom \<Rightarrow> nat ax_result poll \<times> 's) \<Rightarrow> 's BufReader \<Rightarrow> SeekFrom \<Rightarrow> nat ax_result poll \<times> 's BufReader" where
  "bufreader_seek sk b p =
     (let finish = (\<lambda>b (r, s'). case r of
            Ready (Inr x) \<Rightarrow> (Ready (Inr x), discard_buffer (b\<lparr>binner := s'\<rparr>))
          | _ \<Rightarrow> (r, b\<lparr>binner := s'\<rparr>))
      in case p of
           Current n \<Rightarrow>
             (let remainder = int (usub (bcap b) (bpos b))
              in if - (2 ^ 63) \<le> n - remainder then finish b (sk (binner b) (Current (n - remainder)))
                 else (case sk (binner b) (Current (- remainder)) of
                         (Ready (Inr _), s') \<Rightarrow> finish (discard_buffer (b\<lparr>binner := s'\<rparr>)) (sk s' (Current n))
                       | (r, s') \<Rightarrow> (r, b\<lparr>binner := s'\<rparr>)))
         | _ \<Rightarrow> finish b (sk (binner b) p))"

subsection \<open>Reading everything\<close>

text \<open>The loops of the futures. \<open>None\<close> stands for a panic and for a loop that does not end.\<close>

partial_function (option) read_to_end_internal ::
  "'s reader \<Rightarrow> 's \<Rightarrow> byte list \<Rightarrow> nat \<Rightarrow> (nat ax_result poll \<times> 's \<times> byte list) option" where
  "read_to_end_internal rd s buf start_len =
     (case rd s 32 of
        None \<Rightarrow> None
      | Some (Pending, s') \<Rightarrow> Some (Pending, s', buf)
      | Some (Ready (Inl e), s') \<Rightarrow> Some (Ready (Inl e), s', buf)
      | Some (Ready (Inr bs), s') \<Rightarrow>
          if bs = [] then Some (Ready (Inr (usub (length buf) start_len)), s', buf)
          else read_to_end_internal rd s' (buf @ bs) start_len)"

text \<open>\<open>n\<close> bytes of the buffer are still free, \<open>got\<close> is what was put in front of them.\<close>

partial_function (option) read_exact_poll ::
  "'s reader \<Rightarrow> 's \<Rightarrow> nat \<Rightarrow> byte list \<Rightarrow> (unit ax_result poll \<times> 's \<times> nat \<times> byte list) option" where
  "read_exact_poll rd s n got =
     (if n = 0 then Some (Ready (Inr ()), s, n, got)
      else (case rd s n of
              None \<Rightarrow> None
            | Some (Pending, s') \<Rightarrow> Some (Pending, s', n, got)
            | Some (Ready (Inl e), s') \<Rightarrow> Some (Ready (Inl e), s', n, got)
            | Some (Ready (Inr bs), s') \<Rightarrow>
                if n < length bs then None
                else if bs = [] then Some (Ready (Inl UnexpectedEof), s', n, got)
                else read_exact_poll rd s' (n - length bs) (got @ bs)))"

text \<open>One element of the stream of bytes: an interrupted read counts as pending.\<close>

definition bytes_poll_next :: "'s reader \<Rightarrow> 's \<Rightarrow> (byte ax_result option poll \<times> 's) option" where
  "bytes_poll_next rd s =
     (case rd s 1 of
        None \<Rightarrow> None
      | Some (Pending, s') \<Rightarrow> Some (Pending, s')
      | Some (Ready (Inl e), s') \<Rightarrow> Some (if e = Interrupted then Pending else Ready (Some (Inl e)), s')
      | Some (Ready (Inr bs), s') \<Rightarrow>
          Some (Ready (case bs of [] \<Rightarrow> None | b # _ \<Rightarrow> Some (Inr b)), s'))"

subsection \<open>The contract holds\<close>

interpretation slice: async_reader slice_read "\<lambda>_. True" "\<lambda>s. s"
  by unfold_locales (auto simp: slice_read_def)

definition cursor_ok :: "Cursor \<Rightarrow> bool" where
  "cursor_ok c \<longleftrightarrow> cpos c < usize_lim \<and> length (cinner c) < usize_lim"

interpretation cursor: async_reader cursor_read cursor_ok remaining_slice
proof
  fix c n assume ok: "cursor_ok c"
  let ?bs = "take n (remaining_slice c)"
  show "\<exists>r s'. cursor_read c n = Some (r, s') \<and> cursor_ok s' \<and>
    (case r of Ready (Inr bs) \<Rightarrow> length bs \<le> n \<and> remaining_slice c = bs @ remaining_slice s' \<and> (bs = [] \<longrightarrow> n = 0 \<or> remaining_slice c = [])
     | _ \<Rightarrow> remaining_slice s' = remaining_slice c)"
  proof (cases "cpos c \<le> length (cinner c)")
    case True
    then have "cpos c + length ?bs \<le> length (cinner c)"
      by (auto simp: remaining_slice_def min_def)
    then have "uadd (cpos c) (length ?bs) = cpos c + length ?bs"
      using ok by (intro uadd_eq) (auto simp: cursor_ok_def)
    with ok True append_take_drop_id [of n "drop (cpos c) (cinner c)"] show ?thesis
      by (auto simp: cursor_read_def slice_read_def cursor_ok_def remaining_slice_def min_def add.commute)
  next
    case False
    with ok show ?thesis
      by (auto simp: cursor_read_def slice_read_def cursor_ok_def uadd_eq remaining_slice_def)
  qed
qed

lemma take_reader:
  fixes rd :: "'a reader"
  assumes "async_reader rd ok rest"
  shows "async_reader (take_read rd) (\<lambda>t. ok (tinner t) \<and> tlimit t < usize_lim) (\<lambda>t. take (tlimit t) (rest (tinner t)))"
proof
  fix t :: "'a Take" and n
  assume ok: "ok (tinner t) \<and> tlimit t < usize_lim"
  show "\<exists>r s'. take_read rd t n = Some (r, s') \<and> (ok (tinner s') \<and> tlimit s' < usize_lim) \<and>
    (case r of Ready (Inr bs) \<Rightarrow> length bs \<le> n \<and> take (tlimit t) (rest (tinner t)) = bs @ take (tlimit s') (rest (tinner s')) \<and>
        (bs = [] \<longrightarrow> n = 0 \<or> take (tlimit t) (rest (tinner t)) = [])
     | _ \<Rightarrow> take (tlimit s') (rest (tinner s')) = take (tlimit t) (rest (tinner t)))"
  proof (cases "tlimit t = 0")
    case True
    with ok show ?thesis by (simp add: take_read_def take_read_internal_def)
  next
    case False
    from conjunct1 [OF ok] show ?thesis
    proof (cases rule: async_reader.read_cases [OF assms, of _ "min n (tlimit t)", consumes 1, case_names pending failed data])
      case (data bs s')
      then have "usub (tlimit t) (length bs) = tlimit t - length bs"
        using ok by (intro usub_eq) auto
      with data False ok show ?thesis
        by (auto simp: take_read_def take_read_internal_def min_def split: if_splits)
    qed (use False ok in \<open>auto simp: take_read_def take_read_internal_def\<close>)
  qed
qed

definition chain_rest :: "('s \<Rightarrow> byte list) \<Rightarrow> ('t \<Rightarrow> byte list) \<Rightarrow> ('s, 't) Chain \<Rightarrow> byte list" where
  "chain_rest rest1 rest2 c = (if done_first c then [] else rest1 (first c)) @ rest2 (second c)"

lemma chain_reader:
  fixes rd1 :: "'a reader" and rd2 :: "'b reader"
  assumes "async_reader rd1 ok1 rest1" "async_reader rd2 ok2 rest2"
  shows "async_reader (chain_read rd1 rd2) (\<lambda>c. ok1 (first c) \<and> ok2 (second c)) (chain_rest rest1 rest2)"
proof
  fix c :: "('a, 'b) Chain" and n
  let ?ok = "\<lambda>c :: ('a, 'b) Chain. ok1 (first c) \<and> ok2 (second c)"
  let ?rest = "chain_rest rest1 rest2"
  let ?law = "\<lambda>x c. \<exists>r s'. x = Some (r, s') \<and> ?ok s' \<and>
    (case r of Ready (Inr bs) \<Rightarrow> length bs \<le> n \<and> ?rest c = bs @ ?rest s' \<and> (bs = [] \<longrightarrow> n = 0 \<or> ?rest c = [])
     | _ \<Rightarrow> ?rest s' = ?rest c)"
  have sec: "?law (chain_second rd2 c n) c" if "?ok c" "done_first c" for c :: "('a, 'b) Chain"
    using conjunct2 [OF that(1)]
  proof (cases rule: async_reader.read_cases [OF assms(2), of _ n, consumes 1, case_names pending failed data])
  qed (use that in \<open>auto simp: chain_second_def chain_rest_def\<close>)
  assume ok: "?ok c"
  show "?law (chain_read rd1 rd2 c n) c"
  proof (cases "done_first c")
    case True
    with sec [OF ok True] show ?thesis by (simp add: chain_read_def)
  next
    case False
    from conjunct1 [OF ok] show ?thesis
    proof (cases rule: async_reader.read_cases [OF assms(1), of _ n, consumes 1, case_names pending failed data])
      case (data bs s')
      show ?thesis
      proof (cases "bs = [] \<and> n \<noteq> 0")
        case True
        let ?c = "c\<lparr>first := s', done_first := True\<rparr>"
        have eqs: "?rest c = ?rest ?c" "chain_read rd1 rd2 c n = chain_second rd2 ?c n"
          using data True False by (simp_all add: chain_read_def chain_rest_def)
        have "?law (chain_second rd2 ?c n) ?c"
          by (rule sec) (use data(2) ok in simp_all)
        then show ?thesis unfolding eqs .
      qed (use data False ok in \<open>auto simp: chain_read_def chain_rest_def\<close>)
    qed (use False ok in \<open>auto simp: chain_read_def chain_rest_def\<close>)
  qed
qed

text \<open>A buffered reader delivers what it has buffered, then what its inner reader has left.\<close>

definition bufreader_ok :: "('s \<Rightarrow> bool) \<Rightarrow> 's BufReader \<Rightarrow> bool" where
  "bufreader_ok ok b \<longleftrightarrow> ok (binner b) \<and> bpos b \<le> bcap b \<and> bcap b \<le> length (bbuf b) \<and> length (bbuf b) < usize_lim"

definition bufreader_rest :: "('s \<Rightarrow> byte list) \<Rightarrow> 's BufReader \<Rightarrow> byte list" where
  "bufreader_rest rest b = drop (bpos b) (take (bcap b) (bbuf b)) @ rest (binner b)"

lemma fill_buf_cases:
  assumes "async_reader rd ok rest" "bufreader_ok ok b"
  obtains (pending) b' where "bufreader_fill_buf rd b = Some (Pending, b')" "bufreader_ok ok b'" "bufreader_rest rest b' = bufreader_rest rest b" "bbuf b' = bbuf b"
  | (failed) e b' where "bufreader_fill_buf rd b = Some (Ready (Inl e), b')" "bufreader_ok ok b'" "bufreader_rest rest b' = bufreader_rest rest b" "bbuf b' = bbuf b"
  | (data) b' where "bufreader_fill_buf rd b = Some (Ready (Inr (drop (bpos b') (take (bcap b') (bbuf b')))), b')" "bufreader_ok ok b'"
      "bufreader_rest rest b' = bufreader_rest rest b" "length (bbuf b') = length (bbuf b)"
      "bpos b' = bcap b' \<Longrightarrow> bbuf b = [] \<or> bufreader_rest rest b = []"
proof (cases "bcap b \<le> bpos b")
  case False
  then show ?thesis
    using assms(2) by (intro data [of b]) (auto simp: bufreader_fill_buf_def buffer_slice_def bufreader_ok_def)
next
  case True
  then have eq: "bpos b = bcap b" and ok: "ok (binner b)"
    using assms(2) by (auto simp: bufreader_ok_def)
  from ok show ?thesis
  proof (cases rule: async_reader.read_cases [OF assms(1), of _ "length (bbuf b)", consumes 1, case_names p f d])
    case (p s')
    with assms(2) True show ?thesis
      by (intro pending [of "b\<lparr>binner := s'\<rparr>"]) (auto simp: bufreader_fill_buf_def bufreader_ok_def bufreader_rest_def)
  next
    case (f e s')
    with assms(2) True show ?thesis
      by (intro failed [of e "b\<lparr>binner := s'\<rparr>"]) (auto simp: bufreader_fill_buf_def bufreader_ok_def bufreader_rest_def)
  next
    case (d bs s')
    let ?b = "b\<lparr>binner := s', bbuf := take (length (bbuf b)) bs @ drop (length bs) (bbuf b), bcap := length bs, bpos := 0\<rparr>"
    have "buffer_slice ?b = Some (drop (bpos ?b) (take (bcap ?b) (bbuf ?b)))"
      using d(3) by (simp add: buffer_slice_def)
    with d True eq assms(2) show ?thesis
      by (intro data [of ?b]) (auto simp: bufreader_fill_buf_def bufreader_ok_def bufreader_rest_def)
  qed
qed

lemma consume_rest:
  assumes "bufreader_ok ok b" "n \<le> bcap b - bpos b"
  shows "bufreader_ok ok (bufreader_consume n b)"
    "drop (bpos b) (take (bcap b) (bbuf b)) = take n (drop (bpos b) (take (bcap b) (bbuf b))) @
       drop (bpos (bufreader_consume n b)) (take (bcap b) (bbuf b))"
proof -
  have "uadd (bpos b) n = bpos b + n"
    using assms by (intro uadd_eq) (auto simp: bufreader_ok_def)
  then have pos: "bpos (bufreader_consume n b) = bpos b + n"
    using assms by (auto simp: bufreader_consume_def bufreader_ok_def min_def)
  show "bufreader_ok ok (bufreader_consume n b)"
    using assms pos by (auto simp: bufreader_ok_def bufreader_consume_def)
  show "drop (bpos b) (take (bcap b) (bbuf b)) = take n (drop (bpos b) (take (bcap b) (bbuf b))) @
       drop (bpos (bufreader_consume n b)) (take (bcap b) (bbuf b))"
    using append_take_drop_id [of n "drop (bpos b) (take (bcap b) (bbuf b))"] by (simp add: pos add.commute)
qed

text \<open>Reading everything with any reader that keeps the contract.\<close>

context async_reader
begin

lemma read_to_end_returns:
  assumes "ok s"
  shows "\<exists>r s' buf'. read_to_end_internal rd s buf start = Some (r, s', buf') \<and> ok s' \<and> buf' @ rest s' = buf @ rest s \<and>
    (\<forall>n. r = Ready (Inr n) \<longrightarrow> rest s' = [] \<and> n = usub (length buf') start)"
  using assms
proof (induction "length (rest s)" arbitrary: s buf rule: less_induct)
  case less
  from less.prems show ?case
  proof (cases rule: read_cases [of _ 32, consumes 1, case_names pending failed data])
    case (data bs s')
    show ?thesis
    proof (cases "bs = []")
      case True
      with data show ?thesis by (subst read_to_end_internal.simps) simp
    next
      case False
      then have "length (rest s') < length (rest s)" using data(4) by simp
      from less.hyps [OF this data(2), of "buf @ bs"] False data(1,4) show ?thesis
        by (subst read_to_end_internal.simps) simp
    qed
  next
    case (pending s')
    then show ?thesis by (subst read_to_end_internal.simps) simp
  next
    case (failed e s')
    then show ?thesis by (subst read_to_end_internal.simps) simp
  qed
qed

lemma read_exact_returns:
  assumes "ok s"
  shows "\<exists>r s' n' got'. read_exact_poll rd s n got = Some (r, s', n', got') \<and> ok s' \<and>
    got' @ rest s' = got @ rest s \<and> length got' + n' = length got + n \<and> (r = Ready (Inr ()) \<longrightarrow> n' = 0) \<and>
    (r = Ready (Inl UnexpectedEof) \<longrightarrow> rest s' = [] \<or> (\<exists>s n s'. rd s n = Some (Ready (Inl UnexpectedEof), s')))"
  using assms
proof (induction n arbitrary: s got rule: less_induct)
  case (less n)
  show ?case
  proof (cases "n = 0")
    case True
    with less.prems show ?thesis by (subst read_exact_poll.simps) simp
  next
    case False
    from less.prems show ?thesis
    proof (cases rule: read_cases [of _ n, consumes 1, case_names pending failed data])
      case (data bs s')
      show ?thesis
      proof (cases "bs = []")
        case True
        with data False show ?thesis by (subst read_exact_poll.simps) simp
      next
        case ne: False
        then have "n - length bs < n" using data(3) False by (cases bs) auto
        from less.IH [OF this data(2), of "got @ bs"] ne False data(1,3,4) show ?thesis
          by (subst read_exact_poll.simps) simp
      qed
    next
      case (pending s')
      with False show ?thesis by (subst read_exact_poll.simps) simp
    next
      case (failed e s')
      with False show ?thesis by (subst read_exact_poll.simps) auto
    qed
  qed
qed

end

subsection \<open>Properties\<close>

text \<open>
  C17: buffering is transparent. A \<open>BufReader\<close> around any reader that keeps the contract keeps the
  contract itself: whatever the sizes of its buffer and of the reads, it delivers the bytes it has
  buffered followed by those of the inner reader, in order, without loss or duplication, across
  pending polls and errors, and does not panic.
\<close>

theorem bufreader_transparent:
  fixes rd :: "'a reader"
  assumes "async_reader rd ok rest"
  shows "async_reader (bufreader_read rd) (bufreader_ok ok) (bufreader_rest rest)"
proof
  fix b :: "'a BufReader" and n
  assume ok: "bufreader_ok ok b"
  let ?law = "\<lambda>x. \<exists>r s'. x = Some (r, s') \<and> bufreader_ok ok s' \<and>
    (case r of Ready (Inr bs) \<Rightarrow> length bs \<le> n \<and> bufreader_rest rest b = bs @ bufreader_rest rest s' \<and>
        (bs = [] \<longrightarrow> n = 0 \<or> bufreader_rest rest b = [])
     | _ \<Rightarrow> bufreader_rest rest s' = bufreader_rest rest b)"
  show "?law (bufreader_read rd b n)"
  proof (cases "bpos b = bcap b \<and> length (bbuf b) \<le> n")
    case True
    from ok have "ok (binner b)" by (simp add: bufreader_ok_def)
    then show ?thesis
    proof (cases rule: async_reader.read_cases [OF assms, of _ n, consumes 1, case_names pending failed data])
    qed (use True ok in \<open>auto simp: bufreader_read_def bufreader_ok_def bufreader_rest_def discard_buffer_def\<close>)
  next
    case direct: False
    show ?thesis
    proof (cases rule: fill_buf_cases [OF assms ok, case_names pending failed data])
      case (data b')
      let ?sl = "drop (bpos b') (take (bcap b') (bbuf b'))"
      have le: "length (take n ?sl) \<le> bcap b' - bpos b'" by simp
      have eq: "take (length (take n ?sl)) ?sl = take n ?sl" by (simp add: min_def)
      note c = consume_rest [OF data(2) le, unfolded eq]
      have "n = 0 \<or> bufreader_rest rest b = []" if "take n ?sl = []"
      proof (cases "n = 0")
        case False
        with that have "bcap b' = bpos b'" using data(2) by (auto simp: bufreader_ok_def)
        with data(5) direct have "bbuf b = [] \<or> bufreader_rest rest b = []" by simp
        moreover have "bbuf b \<noteq> []" using direct ok by (auto simp: bufreader_ok_def)
        ultimately show ?thesis by blast
      qed simp
      moreover have "bufreader_rest rest b = take n ?sl @ bufreader_rest rest (bufreader_consume (length (take n ?sl)) b')"
      proof -
        let ?c = "bufreader_consume (length (take n ?sl)) b'"
        have "bufreader_rest rest b = ?sl @ rest (binner b')"
          using data(3) by (simp add: bufreader_rest_def)
        also have "\<dots> = (take n ?sl @ drop (bpos ?c) (take (bcap b') (bbuf b'))) @ rest (binner b')"
          by (rule arg_cong [OF c(2), of "\<lambda>x. x @ rest (binner b')"])
        also have "\<dots> = take n ?sl @ bufreader_rest rest ?c"
          by (simp add: bufreader_rest_def bufreader_consume_def)
        finally show ?thesis .
      qed
      ultimately show ?thesis
        using direct data(1) c(1) by (auto simp: bufreader_read_def slice_read_def)
    qed (use direct in \<open>auto simp: bufreader_read_def\<close>)
  qed
qed

theorem bufreader_transparent_witness:
  "async_reader (bufreader_read slice_read) (bufreader_ok (\<lambda>_. True)) (bufreader_rest (\<lambda>s. s))"
  by (rule bufreader_transparent) (rule slice.async_reader_axioms)

text \<open>
  C34: reading to the end terminates and is complete. For every reader that keeps the contract, one
  poll of \<open>read_to_end\<close> returns; what it has put into the vector is the next part of the data, and
  when it reports success the data is exhausted and its result is the number of bytes appended.
\<close>

theorem read_to_end_complete:
  assumes "async_reader rd ok rest" "ok s" "start \<le> length buf" "length buf + length (rest s) < usize_lim"
  shows "\<exists>r s' buf'. read_to_end_internal rd s buf start = Some (r, s', buf') \<and> ok s' \<and> buf' @ rest s' = buf @ rest s \<and>
    (\<forall>n. r = Ready (Inr n) \<longrightarrow> buf' = buf @ rest s \<and> n = length buf + length (rest s) - start)"
proof -
  from async_reader.read_to_end_returns [OF assms(1,2), of buf start] obtain r s' buf' where
    r: "read_to_end_internal rd s buf start = Some (r, s', buf')" "ok s'" "buf' @ rest s' = buf @ rest s"
    "\<forall>n. r = Ready (Inr n) \<longrightarrow> rest s' = [] \<and> n = usub (length buf') start" by blast
  have "buf' = buf @ rest s \<and> n = length buf + length (rest s) - start" if "r = Ready (Inr n)" for n
  proof -
    from r(3,4) that have b: "buf' = buf @ rest s" and n: "n = usub (length buf') start" by auto
    then show ?thesis
      using assms(3,4) by (simp add: usub_eq)
  qed
  with r show ?thesis by blast
qed

theorem read_to_end_complete_witness:
  "\<exists>r s' buf'. read_to_end_internal cursor_read (cursor_new [1, 2, 3]) [9] 1 = Some (r, s', buf') \<and>
     buf' @ remaining_slice s' = [9, 1, 2, 3]"
proof -
  have c: "cursor_ok (cursor_new [1, 2, 3])" "remaining_slice (cursor_new [1, 2, 3]) = [1, 2, 3]"
    by (simp_all add: cursor_ok_def cursor_new_def usize_lim_def remaining_slice_def)
  have "\<exists>r s' buf'. read_to_end_internal cursor_read (cursor_new [1, 2, 3]) [9] 1 = Some (r, s', buf') \<and> cursor_ok s' \<and>
    buf' @ remaining_slice s' = [9] @ remaining_slice (cursor_new [1, 2, 3]) \<and>
    (\<forall>n. r = Ready (Inr n) \<longrightarrow> buf' = [9] @ remaining_slice (cursor_new [1, 2, 3]) \<and>
       n = length [9 :: byte] + length (remaining_slice (cursor_new [1, 2, 3])) - 1)"
    by (rule read_to_end_complete [OF cursor.async_reader_axioms c(1)]) (simp_all add: c(2) usize_lim_def)
  then show ?thesis
    unfolding c(2) by auto
qed

text \<open>
  A vectored read of a chain with buffers that have no room skips the first reader. A list of
  empty buffers makes the first reader return no bytes; the chain takes that for its end and never
  delivers what it still has.
\<close>

lemma chain_vectored_skips_first:
  assumes "async_reader rd1 ok1 rest1" "ok1 a" "rd1 a 0 = Some (Ready (Inr []), a')" "rest1 a \<noteq> []"
    and "rd2 b 0 = Some (Ready (Inr []), b')"
  shows "\<exists>c. chain_read_vectored (read_vectored_default rd1) (read_vectored_default rd2) (chain_new a b) [0] = Some (Ready (Inr []), c) \<and>
    rest1 (first c) = rest1 a \<and> chain_rest rest1 rest2 c = rest2 b'"
proof -
  have "rest1 a' = rest1 a"
    using async_reader.reads [OF assms(1,2), of 0] assms(3) by auto
  with assms(3,5) show ?thesis
    by (simp add: chain_read_vectored_def read_vectored_default_def chain_new_def chain_rest_def)
qed

lemma chain_vectored_skips_first_witness:
  "\<exists>c. chain_read_vectored (read_vectored_default slice_read) (read_vectored_default slice_read) (chain_new [1, 2] [3]) [0]
       = Some (Ready (Inr []), c) \<and> first c = [1, 2] \<and> chain_rest (\<lambda>s. s) (\<lambda>s. s) c = [3]"
  using chain_vectored_skips_first [OF slice.async_reader_axioms, of "[1, 2]" "[1, 2]" slice_read "[3]" "[3]" "\<lambda>s. s"]
  by (simp add: slice_read_def)

end
