(* ===== verification/Buf_Read.thy ===== *)
theory Buf_Read
  imports Async_Read
begin

section \<open>Buffered reading of lines and pieces\<close>

text \<open>
  Readers with a buffer to look into (\<open>AsyncBufRead\<close>, \<open>async_io/src/buf_read\<close>): reading up to a
  delimiter, the streams of lines and of pieces. \<open>fill\<close> is one poll of \<open>fill_buf\<close> with the
  buffered bytes as its result, \<open>consume\<close> drops bytes from the front. The locale
  \<open>async_buf_reader\<close> is the contract; slices, cursors and buffered readers keep it.
\<close>

type_synonym 's filler = "'s \<Rightarrow> (byte list ax_result poll \<times> 's) option"

locale async_buf_reader =
  fixes fill :: "'s filler" and consume :: "nat \<Rightarrow> 's \<Rightarrow> 's" and ok :: "'s \<Rightarrow> bool" and rest :: "'s \<Rightarrow> byte list"
  assumes fills: "ok s \<Longrightarrow> \<exists>r s'. fill s = Some (r, s') \<and> ok s' \<and> rest s' = rest s \<and>
    (case r of
       Ready (Inr bs) \<Rightarrow> (\<exists>more. rest s = bs @ more) \<and> (bs = [] \<longrightarrow> rest s = []) \<and>
         (\<forall>n \<le> length bs. ok (consume n s') \<and> rest (consume n s') = drop n (rest s))
     | _ \<Rightarrow> True)"
begin

lemma fill_cases:
  assumes "ok s"
  obtains (pending) s' where "fill s = Some (Pending, s')" "ok s'" "rest s' = rest s"
  | (failed) e s' where "fill s = Some (Ready (Inl e), s')" "ok s'" "rest s' = rest s"
  | (data) bs more s' where "fill s = Some (Ready (Inr bs), s')" "rest s = bs @ more" "bs = [] \<Longrightarrow> rest s = []"
      "\<And>n. n \<le> length bs \<Longrightarrow> ok (consume n s') \<and> rest (consume n s') = drop n (rest s)"
proof -
  from fills [OF assms] obtain r s' where r: "fill s = Some (r, s')" "ok s'" "rest s' = rest s"
    "case r of Ready (Inr bs) \<Rightarrow> (\<exists>more. rest s = bs @ more) \<and> (bs = [] \<longrightarrow> rest s = []) \<and>
       (\<forall>n \<le> length bs. ok (consume n s') \<and> rest (consume n s') = drop n (rest s)) | _ \<Rightarrow> True"
    by blast
  show thesis
  proof (cases r)
    case Pending
    with r pending show ?thesis by simp
  next
    case (Ready x)
    with r failed data show ?thesis by (cases x) auto
  qed
qed

end

subsection \<open>Reading up to a delimiter\<close>

text \<open>\<open>read\<close> counts the bytes of earlier polls; it is reset when the read is done. The search for the
  delimiter is \<open>memchr\<close> of the external crate of that name, the parameter \<open>mc\<close>. \<open>memchr_law\<close> is its
  documentation: the index of the first occurrence of the byte, or \<open>None\<close> if there is none.\<close>

type_synonym memchr_fn = "byte \<Rightarrow> byte list \<Rightarrow> nat option"

definition memchr_law :: "memchr_fn \<Rightarrow> bool" where
  "memchr_law mc \<longleftrightarrow> (\<forall>d bs. case mc d bs of
     None \<Rightarrow> d \<notin> set bs
   | Some i \<Rightarrow> i < length bs \<and> bs ! i = d \<and> d \<notin> set (take i bs))"

partial_function (option) read_until_internal ::
  "memchr_fn \<Rightarrow> 's filler \<Rightarrow> (nat \<Rightarrow> 's \<Rightarrow> 's) \<Rightarrow> byte \<Rightarrow> 's \<Rightarrow> byte list \<Rightarrow> nat \<Rightarrow> (nat ax_result poll \<times> 's \<times> byte list \<times> nat) option" where
  "read_until_internal mc fill consume d s buf read =
     (case fill s of
        None \<Rightarrow> None
      | Some (Pending, s') \<Rightarrow> Some (Pending, s', buf, read)
      | Some (Ready (Inl e), s') \<Rightarrow> Some (Ready (Inl e), s', buf, read)
      | Some (Ready (Inr bs), s') \<Rightarrow>
          (case mc d bs of
             Some i \<Rightarrow> Some (Ready (Inr (uadd read (i + 1))), consume (i + 1) s', buf @ take (i + 1) bs, 0)
           | None \<Rightarrow>
               if bs = [] then Some (Ready (Inr read), consume 0 s', buf, 0)
               else read_until_internal mc fill consume d (consume (length bs) s') (buf @ bs) (uadd read (length bs))))"

subsection \<open>Lines and pieces\<close>

record 's Split =
  sreader :: 's
  sbuf :: "byte list"
  sread :: nat
  sdelim :: byte

definition split_new :: "byte \<Rightarrow> 's \<Rightarrow> 's Split" where
  "split_new d s = \<lparr>sreader = s, sbuf = [], sread = 0, sdelim = d\<rparr>"

text \<open>The last byte of an empty buffer is out of range; the buffer is not empty there.\<close>

definition split_poll_next ::
  "memchr_fn \<Rightarrow> 's filler \<Rightarrow> (nat \<Rightarrow> 's \<Rightarrow> 's) \<Rightarrow> 's Split \<Rightarrow> (byte list ax_result option poll \<times> 's Split) option" where
  "split_poll_next mc fill consume sp =
     (case read_until_internal mc fill consume (sdelim sp) (sreader sp) (sbuf sp) (sread sp) of
        None \<Rightarrow> None
      | Some (r, s', buf, read) \<Rightarrow>
          let sp' = sp\<lparr>sreader := s', sbuf := buf, sread := read\<rparr>
          in case r of
               Pending \<Rightarrow> Some (Pending, sp')
             | Ready (Inl e) \<Rightarrow> Some (Ready (Some (Inl e)), sp')
             | Ready (Inr n) \<Rightarrow>
                 if n = 0 \<and> buf = [] then Some (Ready None, sp')
                 else if buf = [] then None
                 else Some (Ready (Some (Inr (if last buf = sdelim sp then butlast buf else buf))), sp'\<lparr>sbuf := []\<rparr>))"

text \<open>Validity of a byte sequence as UTF-8, as \<open>str::from_utf8\<close> decides it.\<close>

abbreviation cont :: "byte \<Rightarrow> bool" where
  "cont b \<equiv> 0x80 \<le> b \<and> b \<le> 0xBF"

fun utf8_ok :: "byte list \<Rightarrow> bool" where
  "utf8_ok [] = True"
| "utf8_ok [a] = (a < 0x80)"
| "utf8_ok [a, b] = (if a < 0x80 then utf8_ok [b] else 0xC2 \<le> a \<and> a \<le> 0xDF \<and> cont b)"
| "utf8_ok [a, b, c] =
     (if a < 0x80 then utf8_ok [b, c]
      else if 0xC2 \<le> a \<and> a \<le> 0xDF then cont b \<and> utf8_ok [c]
      else (a = 0xE0 \<and> 0xA0 \<le> b \<and> b \<le> 0xBF \<or> a = 0xED \<and> 0x80 \<le> b \<and> b \<le> 0x9F \<or>
            0xE1 \<le> a \<and> a \<le> 0xEF \<and> a \<noteq> 0xED \<and> cont b) \<and> cont c)"
| "utf8_ok (a # b # c # d # s) =
     (if a < 0x80 then utf8_ok (b # c # d # s)
      else if 0xC2 \<le> a \<and> a \<le> 0xDF then cont b \<and> utf8_ok (c # d # s)
      else if 0xE0 \<le> a \<and> a \<le> 0xEF then
        (a = 0xE0 \<and> 0xA0 \<le> b \<and> b \<le> 0xBF \<or> a = 0xED \<and> 0x80 \<le> b \<and> b \<le> 0x9F \<or>
         0xE1 \<le> a \<and> a \<noteq> 0xED \<and> cont b) \<and> cont c \<and> utf8_ok (d # s)
      else (a = 0xF0 \<and> 0x90 \<le> b \<and> b \<le> 0xBF \<or> a = 0xF4 \<and> 0x80 \<le> b \<and> b \<le> 0x8F \<or>
            0xF1 \<le> a \<and> a \<le> 0xF3 \<and> cont b) \<and> cont c \<and> cont d \<and> utf8_ok s)"

text \<open>A string buffer is its bytes. After a read the bytes are swapped into the empty string, unless
  they are not UTF-8: then they stay where they are.\<close>

definition read_line_internal ::
  "memchr_fn \<Rightarrow> 's filler \<Rightarrow> (nat \<Rightarrow> 's \<Rightarrow> 's) \<Rightarrow> 's \<Rightarrow> byte list \<Rightarrow> byte list \<Rightarrow> nat
     \<Rightarrow> (nat ax_result poll \<times> 's \<times> byte list \<times> byte list \<times> nat) option" where
  "read_line_internal mc fill consume s buf bytes read =
     (case read_until_internal mc fill consume 10 s bytes read of
        None \<Rightarrow> None
      | Some (Pending, s', bytes', read') \<Rightarrow> Some (Pending, s', buf, bytes', read')
      | Some (Ready ret, s', bytes', read') \<Rightarrow>
          if \<not> utf8_ok bytes' then
            Some (Ready (case ret of Inl e \<Rightarrow> Inl e | Inr _ \<Rightarrow> Inl InvalidData), s', buf, bytes', read')
          else Some (Ready ret, s', bytes', buf, read'))"

record 's Lines =
  lreader :: 's
  lbuf :: "byte list"
  lbytes :: "byte list"
  lread :: nat

definition lines_new :: "'s \<Rightarrow> 's Lines" where
  "lines_new s = \<lparr>lreader = s, lbuf = [], lbytes = [], lread = 0\<rparr>"

definition strip_newline :: "byte list \<Rightarrow> byte list" where
  "strip_newline b =
     (if b \<noteq> [] \<and> last b = 10 then
        let b' = butlast b in if b' \<noteq> [] \<and> last b' = 13 then butlast b' else b'
      else b)"

definition lines_poll_next ::
  "memchr_fn \<Rightarrow> 's filler \<Rightarrow> (nat \<Rightarrow> 's \<Rightarrow> 's) \<Rightarrow> 's Lines \<Rightarrow> (byte list ax_result option poll \<times> 's Lines) option" where
  "lines_poll_next mc fill consume l =
     (case read_line_internal mc fill consume (lreader l) (lbuf l) (lbytes l) (lread l) of
        None \<Rightarrow> None
      | Some (r, s', buf, bytes, read) \<Rightarrow>
          let l' = l\<lparr>lreader := s', lbuf := buf, lbytes := bytes, lread := read\<rparr>
          in case r of
               Pending \<Rightarrow> Some (Pending, l')
             | Ready (Inl e) \<Rightarrow> Some (Ready (Some (Inl e)), l')
             | Ready (Inr n) \<Rightarrow>
                 if n = 0 \<and> buf = [] then Some (Ready None, l')
                 else Some (Ready (Some (Inr (strip_newline buf))), l'\<lparr>lbuf := []\<rparr>))"

subsection \<open>The contract holds\<close>

definition slice_fill :: "byte list filler" where
  "slice_fill s = Some (Ready (Inr s), s)"

definition slice_consume :: "nat \<Rightarrow> byte list \<Rightarrow> byte list" where
  "slice_consume n s = drop n s"

interpretation slice_buf: async_buf_reader slice_fill slice_consume "\<lambda>_. True" "\<lambda>s. s"
  by unfold_locales (auto simp: slice_fill_def slice_consume_def)

definition cursor_fill_buf :: "Cursor filler" where
  "cursor_fill_buf c = Some (Ready (Inr (remaining_slice c)), c)"

definition cursor_consume :: "nat \<Rightarrow> Cursor \<Rightarrow> Cursor" where
  "cursor_consume amt c = c\<lparr>cpos := uadd (cpos c) amt\<rparr>"

interpretation cursor_buf: async_buf_reader cursor_fill_buf cursor_consume cursor_ok remaining_slice
proof
  fix c assume ok: "cursor_ok c"
  have "cursor_ok (cursor_consume n c) \<and> remaining_slice (cursor_consume n c) = drop n (remaining_slice c)"
    if "n \<le> length (remaining_slice c)" for n
  proof -
    have "cpos c + n \<le> max (cpos c) (length (cinner c))"
      using that by (auto simp: remaining_slice_def min_def max_def split: if_splits)
    then have "uadd (cpos c) n = cpos c + n"
      using ok by (intro uadd_eq) (auto simp: cursor_ok_def max_def split: if_splits)
    with ok that show ?thesis
      by (auto simp: cursor_ok_def cursor_consume_def remaining_slice_def min_def add.commute max_def split: if_splits)
  qed
  then show "\<exists>r s'. cursor_fill_buf c = Some (r, s') \<and> cursor_ok s' \<and> remaining_slice s' = remaining_slice c \<and>
    (case r of Ready (Inr bs) \<Rightarrow> (\<exists>more. remaining_slice c = bs @ more) \<and> (bs = [] \<longrightarrow> remaining_slice c = []) \<and>
       (\<forall>n \<le> length bs. cursor_ok (cursor_consume n s') \<and> remaining_slice (cursor_consume n s') = drop n (remaining_slice c))
     | _ \<Rightarrow> True)"
    using ok by (auto simp: cursor_fill_buf_def)
qed

lemma bufreader_buf_reader:
  fixes rd :: "'a reader"
  assumes "async_reader rd ok rest"
  shows "async_buf_reader (bufreader_fill_buf rd) bufreader_consume (\<lambda>b. bufreader_ok ok b \<and> bbuf b \<noteq> []) (bufreader_rest rest)"
proof
  fix b :: "'a BufReader"
  assume ok: "bufreader_ok ok b \<and> bbuf b \<noteq> []"
  let ?law = "\<exists>r s'. bufreader_fill_buf rd b = Some (r, s') \<and> (bufreader_ok ok s' \<and> bbuf s' \<noteq> []) \<and>
    bufreader_rest rest s' = bufreader_rest rest b \<and>
    (case r of Ready (Inr bs) \<Rightarrow> (\<exists>more. bufreader_rest rest b = bs @ more) \<and> (bs = [] \<longrightarrow> bufreader_rest rest b = []) \<and>
       (\<forall>n \<le> length bs. (bufreader_ok ok (bufreader_consume n s') \<and> bbuf (bufreader_consume n s') \<noteq> []) \<and>
          bufreader_rest rest (bufreader_consume n s') = drop n (bufreader_rest rest b))
     | _ \<Rightarrow> True)"
  show ?law
  proof (cases rule: fill_buf_cases [OF assms conjunct1 [OF ok], case_names pending failed data])
    case (data b')
    let ?sl = "drop (bpos b') (take (bcap b') (bbuf b'))"
    have rest: "bufreader_rest rest b = ?sl @ rest (binner b')"
      using data(3) by (simp add: bufreader_rest_def)
    have len: "length ?sl = bcap b' - bpos b'"
      using data(2) by (simp add: bufreader_ok_def)
    have "bufreader_ok ok (bufreader_consume n b') \<and> bufreader_rest rest (bufreader_consume n b') = drop n (bufreader_rest rest b)"
      if "n \<le> length ?sl" for n
    proof -
      note c = consume_rest [OF data(2) that [unfolded len]]
      have "drop n (?sl @ rest (binner b')) = drop n ((take n ?sl @ drop (bpos (bufreader_consume n b')) (take (bcap b') (bbuf b'))) @ rest (binner b'))"
        by (rule arg_cong [OF c(2), of "\<lambda>x. drop n (x @ rest (binner b'))"])
      also have "\<dots> = drop (bpos (bufreader_consume n b')) (take (bcap b') (bbuf b')) @ rest (binner b')"
        using that by simp
      finally show ?thesis
        using c(1) unfolding rest by (simp add: bufreader_rest_def bufreader_consume_def)
    qed
    moreover have "bbuf b' \<noteq> []" "\<And>n. bbuf (bufreader_consume n b') \<noteq> []"
      using data(4) ok by (auto simp: bufreader_consume_def)
    moreover have "bufreader_rest rest b = []" if "?sl = []"
      using data(2,5) ok that by (auto simp: bufreader_ok_def)
    ultimately show ?thesis
      using data(1-3) rest by auto
  qed (use ok in auto)
qed

text \<open>Reading up to the delimiter returns for every buffered reader that keeps the contract.\<close>

lemma memchr_Some:
  assumes "memchr_law mc" "mc d bs = Some i"
  shows "i + 1 \<le> length bs" "d \<in> set bs" "take (i + 1) bs = takeWhile (\<lambda>b. b \<noteq> d) bs @ [d]"
proof -
  have i: "i < length bs" "bs ! i = d" "d \<notin> set (take i bs)"
    using assms(1) [unfolded memchr_law_def, rule_format, of d bs] assms(2) by auto
  then show "i + 1 \<le> length bs" "d \<in> set bs" by auto
  have bs: "bs = take i bs @ d # drop (Suc i) bs"
    using id_take_nth_drop [OF i(1)] i(2) by simp
  have "takeWhile (\<lambda>b. b \<noteq> d) bs = take i bs"
    by (subst bs, subst takeWhile_append2) (use i(3) in auto)
  then show "take (i + 1) bs = takeWhile (\<lambda>b. b \<noteq> d) bs @ [d]"
    using i by (simp add: take_Suc_conv_app_nth)
qed

lemma memchr_None:
  assumes "memchr_law mc" "mc d bs = None"
  shows "d \<notin> set bs"
  using assms(1) [unfolded memchr_law_def, rule_format, of d bs] assms(2) by simp

text \<open>A function that keeps the law.\<close>

definition list_memchr :: memchr_fn where
  "list_memchr d bs = (if d \<in> set bs then Some (length (takeWhile (\<lambda>b. b \<noteq> d) bs)) else None)"

lemma list_memchr_law: "memchr_law list_memchr"
proof -
  have "length (takeWhile (\<lambda>b. b \<noteq> d) bs) < length bs" "bs ! length (takeWhile (\<lambda>b. b \<noteq> d) bs) = d"
    "d \<notin> set (take (length (takeWhile (\<lambda>b. b \<noteq> d) bs)) bs)" if "d \<in> set bs" for d :: byte and bs
  proof -
    from split_list_first [OF that] obtain xs ys where bs: "bs = xs @ d # ys" "d \<notin> set xs" by blast
    have "takeWhile (\<lambda>b. b \<noteq> d) bs = xs"
      unfolding bs(1) using bs(2) by (subst takeWhile_append2) auto
    with bs show "length (takeWhile (\<lambda>b. b \<noteq> d) bs) < length bs" "bs ! length (takeWhile (\<lambda>b. b \<noteq> d) bs) = d"
      "d \<notin> set (take (length (takeWhile (\<lambda>b. b \<noteq> d) bs)) bs)" by simp_all
  qed
  then show ?thesis by (auto simp: memchr_law_def list_memchr_def)
qed

definition upto_delim :: "byte \<Rightarrow> byte list \<Rightarrow> byte list" where
  "upto_delim d bs = takeWhile (\<lambda>b. b \<noteq> d) bs @ (if d \<in> set bs then [d] else [])"

lemma upto_delim_append:
  "upto_delim d (xs @ ys) = (if d \<in> set xs then upto_delim d xs else xs @ upto_delim d ys)"
proof (cases "d \<in> set xs")
  case True
  then have "takeWhile (\<lambda>b. b \<noteq> d) (xs @ ys) = takeWhile (\<lambda>b. b \<noteq> d) xs"
    by (rule takeWhile_append1) simp
  with True show ?thesis by (simp add: upto_delim_def)
next
  case False
  then have "takeWhile (\<lambda>b. b \<noteq> d) (xs @ ys) = xs @ takeWhile (\<lambda>b. b \<noteq> d) ys"
    by (intro takeWhile_append2) auto
  with False show ?thesis by (simp add: upto_delim_def)
qed

context async_buf_reader
begin

lemma read_until_returns:
  assumes mc: "memchr_law mc" and "ok s"
  shows "\<exists>r s' got read'. read_until_internal mc fill consume d s buf read = Some (r, s', buf @ got, read') \<and> ok s' \<and>
    rest s = got @ rest s' \<and> (\<forall>n. r = Ready (Inr n) \<longrightarrow> got = upto_delim d (rest s)) \<and>
    ((\<forall>n. r \<noteq> Ready (Inr n)) \<longrightarrow> d \<notin> set got)"
  using assms(2)
proof (induction "length (rest s)" arbitrary: s buf read rule: less_induct)
  case less
  from less.prems show ?case
  proof (cases rule: fill_cases [consumes 1, case_names pending failed data])
    case (data bs more s')
    note c = data(4)
    show ?thesis
    proof (cases "mc d bs")
      case (Some i)
      note i = memchr_Some [OF mc Some]
      have "take (i + 1) bs = upto_delim d (rest s)"
        using i(2,3) by (simp add: data(2) upto_delim_append upto_delim_def)
      moreover have "rest s = take (i + 1) bs @ rest (consume (i + 1) s')"
        using c [OF i(1)] i(1) append_take_drop_id [of "i + 1" "rest s"] by (simp add: data(2))
      ultimately show ?thesis
        using data(1) Some c [OF i(1)] by (subst read_until_internal.simps) auto
    next
      case None
      then have nd: "d \<notin> set bs" by (rule memchr_None [OF mc])
      show ?thesis
      proof (cases "bs = []")
        case True
        with data(3) have "rest s = []" by simp
        with True data(1) None c [of 0] show ?thesis
          by (subst read_until_internal.simps) (auto simp: upto_delim_def)
      next
        case False
        have r': "rest (consume (length bs) s') = more" "ok (consume (length bs) s')"
          using c [of "length bs"] by (auto simp: data(2))
        then have "length (rest (consume (length bs) s')) < length (rest s)"
          using False by (simp add: data(2))
        from less.hyps [OF this r'(2), of "buf @ bs" "uadd read (length bs)"] obtain r t got read' where
          t: "read_until_internal mc fill consume d (consume (length bs) s') (buf @ bs) (uadd read (length bs)) = Some (r, t, (buf @ bs) @ got, read')"
          "ok t" "more = got @ rest t" "\<forall>n. r = Ready (Inr n) \<longrightarrow> got = upto_delim d more"
          "(\<forall>n. r \<noteq> Ready (Inr n)) \<longrightarrow> d \<notin> set got"
          unfolding r'(1) by blast
        have "read_until_internal mc fill consume d s buf read = Some (r, t, buf @ bs @ got, read')"
          using data(1) None False t(1) by (subst read_until_internal.simps) simp
        with t nd show ?thesis
          by (intro exI [of _ r] exI [of _ t] exI [of _ "bs @ got"] exI [of _ read']) (simp add: data(2) upto_delim_append)
      qed
    qed
  next
    case (pending s')
    then show ?thesis by (subst read_until_internal.simps) auto
  next
    case (failed e s')
    then show ?thesis by (subst read_until_internal.simps) auto
  qed
qed

end

subsection \<open>Properties\<close>

text \<open>
  C35: reading up to a delimiter is exact. For every buffered reader that keeps the contract, in
  particular a \<open>BufReader\<close> around any asynchronous reader, one poll of \<open>read_until\<close> returns; on
  success it has appended the data up to and including the first delimiter, or all of it when there
  is none, and the reader continues right behind; a pending poll or an error keeps what was read so
  far.
\<close>

theorem read_until_exact:
  assumes "memchr_law mc" "async_reader rd ok rest" "bufreader_ok ok s" "bbuf s \<noteq> []"
  shows "\<exists>r s' got read'. read_until_internal mc (bufreader_fill_buf rd) bufreader_consume d s buf read = Some (r, s', buf @ got, read') \<and>
    bufreader_rest rest s = got @ bufreader_rest rest s' \<and> (\<forall>n. r = Ready (Inr n) \<longrightarrow> got = upto_delim d (bufreader_rest rest s))"
  using async_buf_reader.read_until_returns [OF bufreader_buf_reader [OF assms(2)] assms(1), of s d buf read] assms(3,4) by blast

theorem read_until_exact_witness:
  "\<exists>r s' got read'. read_until_internal list_memchr (bufreader_fill_buf slice_read) bufreader_consume 10 (bufreader_with_capacity 2 [1, 2, 10, 3]) [] 0
       = Some (r, s', [] @ got, read') \<and> [1, 2, 10, 3] = got @ bufreader_rest (\<lambda>s. s) s'"
proof -
  let ?s = "bufreader_with_capacity 2 [1, 2, 10, 3 :: byte]"
  have "bufreader_ok (\<lambda>_. True) ?s" "bbuf ?s \<noteq> []" "bufreader_rest (\<lambda>s. s) ?s = [1, 2, 10, 3]"
    by (simp_all add: bufreader_ok_def bufreader_with_capacity_def bufreader_rest_def usize_lim_def)
  with read_until_exact [OF list_memchr_law slice.async_reader_axioms, of ?s 10 "[]" 0] show ?thesis
    by auto
qed

text \<open>
  After a line that is not UTF-8 the stream of lines never ends. The invalid bytes stay in the
  buffer of the stream, so every later poll at the end of the data reports the same error again
  instead of the end.
\<close>

lemma lines_error_forever:
  assumes "memchr_law mc" "\<not> utf8_ok (lbytes l)" "lreader l = []"
  shows "\<exists>l'. lines_poll_next mc slice_fill slice_consume l = Some (Ready (Some (Inl InvalidData)), l') \<and>
    \<not> utf8_ok (lbytes l') \<and> lreader l' = []"
proof -
  have "mc 10 [] = None"
    using assms(1) [unfolded memchr_law_def, rule_format, of 10 "[]"] by (auto split: option.splits)
  then have "read_until_internal mc slice_fill slice_consume 10 [] (lbytes l) (lread l) = Some (Ready (Inr (lread l)), [], lbytes l, 0)"
    by (subst read_until_internal.simps) (simp add: slice_fill_def slice_consume_def)
  with assms show ?thesis
    by (simp add: lines_poll_next_def read_line_internal_def)
qed

lemma lines_error_forever_witness:
  "\<exists>l l'. lines_poll_next list_memchr slice_fill slice_consume (lines_new [0xFF, 10]) = Some (Ready (Some (Inl InvalidData)), l) \<and>
     lines_poll_next list_memchr slice_fill slice_consume l = Some (Ready (Some (Inl InvalidData)), l')"
proof -
  have r: "read_until_internal list_memchr slice_fill slice_consume 10 [0xFF, 10] [] 0 = Some (Ready (Inr 2), [], [0xFF, 10], 0)"
    by (subst read_until_internal.simps) (simp add: slice_fill_def slice_consume_def list_memchr_def uadd_def usize_lim_def)
  let ?l = "\<lparr>lreader = [], lbuf = [], lbytes = [0xFF, 10], lread = 0\<rparr>"
  have "lines_poll_next list_memchr slice_fill slice_consume (lines_new [0xFF, 10]) = Some (Ready (Some (Inl InvalidData)), ?l)"
    by (simp add: lines_poll_next_def read_line_internal_def lines_new_def r)
  with lines_error_forever [OF list_memchr_law, of ?l] show ?thesis by auto
qed

end
