(* ===== verification/Async_Write.thy ===== *)
theory Async_Write
  imports Async_Read
begin

section \<open>Asynchronous writers\<close>

text \<open>
  The writers of \<open>async_io/src\<close>: vectors (\<open>write/mod.rs\<close>), cursors (\<open>cursor.rs\<close>), the buffered
  writer (\<open>buf_writer.rs\<close>) and the future that writes everything (\<open>write/write_all.rs\<close>). A writer
  is one poll of its \<open>write\<close>; it returns how many of the bytes it has taken. The locale
  \<open>async_writer\<close> is the contract, through the bytes a writer has taken so far.
\<close>

type_synonym 's writer = "'s \<Rightarrow> byte list \<Rightarrow> (nat ax_result poll \<times> 's) option"

text \<open>The length of a slice fits into an \<open>isize\<close>.\<close>

definition isize_lim :: nat where
  "isize_lim = 2 ^ 63"

lemma isize_usize: "a < isize_lim \<Longrightarrow> b < isize_lim \<Longrightarrow> a + b < usize_lim"
  by (simp add: isize_lim_def usize_lim_def)

text \<open>\<open>sunk\<close> are the bytes taken so far. A writer may be interrupted, but not forever: \<open>gas\<close> bounds the
  interruptions in a row.\<close>

locale async_writer =
  fixes wr :: "'s writer" and ok :: "'s \<Rightarrow> bool" and sunk :: "'s \<Rightarrow> byte list" and gas :: "'s \<Rightarrow> nat"
  assumes writes: "ok s \<Longrightarrow> length bs < isize_lim \<Longrightarrow> \<exists>r s'. wr s bs = Some (r, s') \<and> ok s' \<and> gas s' \<le> gas s \<and>
    (case r of
       Ready (Inr n) \<Rightarrow> n \<le> length bs \<and> sunk s' = sunk s @ take n bs
     | Ready (Inl e) \<Rightarrow> sunk s' = sunk s \<and> (e = Interrupted \<longrightarrow> gas s' < gas s)
     | Pending \<Rightarrow> sunk s' = sunk s)"
begin

lemma write_cases:
  assumes "ok s" "length bs < isize_lim"
  obtains (pending) s' where "wr s bs = Some (Pending, s')" "ok s'" "sunk s' = sunk s" "gas s' \<le> gas s"
  | (failed) e s' where "wr s bs = Some (Ready (Inl e), s')" "ok s'" "sunk s' = sunk s" "gas s' \<le> gas s" "e = Interrupted \<Longrightarrow> gas s' < gas s"
  | (taken) n s' where "wr s bs = Some (Ready (Inr n), s')" "ok s'" "n \<le> length bs" "sunk s' = sunk s @ take n bs" "gas s' \<le> gas s"
proof -
  from writes [OF assms] obtain r s' where r: "wr s bs = Some (r, s')" "ok s'" "gas s' \<le> gas s"
    "case r of Ready (Inr n) \<Rightarrow> n \<le> length bs \<and> sunk s' = sunk s @ take n bs
     | Ready (Inl e) \<Rightarrow> sunk s' = sunk s \<and> (e = Interrupted \<longrightarrow> gas s' < gas s) | Pending \<Rightarrow> sunk s' = sunk s"
    by blast
  show thesis
  proof (cases r)
    case Pending
    with r pending show ?thesis by simp
  next
    case (Ready x)
    with r failed taken show ?thesis by (cases x) auto
  qed
qed

end

subsection \<open>Vectors and cursors\<close>

definition vec_append_write :: "byte list writer" where
  "vec_append_write v bs = Some (Ready (Inr (length bs)), v @ bs)"

interpretation vec: async_writer vec_append_write "\<lambda>_. True" "\<lambda>v. v" "\<lambda>_. 0"
  by unfold_locales (simp add: vec_append_write_def)

text \<open>The write that does not resize; all cursors use it, also those over vectors.\<close>

definition slice_write :: "nat \<Rightarrow> byte list \<Rightarrow> byte list \<Rightarrow> nat \<times> nat \<times> byte list" where
  "slice_write pos sl buf =
     (let p = min pos (length sl); amt = min (length buf) (length sl - p)
      in (amt, uadd pos amt, take p sl @ take amt buf @ drop (p + amt) sl))"

definition cursor_write :: "Cursor writer" where
  "cursor_write c buf =
     (case slice_write (cpos c) (cinner c) buf of (n, p, d) \<Rightarrow> Some (Ready (Inr n), \<lparr>cinner = d, cpos = p\<rparr>))"

fun slice_write_vectored :: "nat \<Rightarrow> byte list \<Rightarrow> byte list list \<Rightarrow> nat \<times> nat \<times> byte list" where
  "slice_write_vectored pos sl [] = (0, pos, sl)"
| "slice_write_vectored pos sl (buf # bufs) =
     (case slice_write pos sl buf of (n, p, d) \<Rightarrow>
        if n < length buf then (n, p, d)
        else case slice_write_vectored p d bufs of (n', p', d') \<Rightarrow> (n + n', p', d'))"

text \<open>The write that resizes, which no cursor uses: the vector is padded with zeros up to the
  position, then overwritten and extended.\<close>

definition reserve_and_pad :: "nat \<Rightarrow> byte list \<Rightarrow> byte list" where
  "reserve_and_pad pos vec = vec @ replicate (pos - length vec) 0"

definition vec_write :: "nat \<Rightarrow> byte list \<Rightarrow> byte list \<Rightarrow> nat \<times> nat \<times> byte list" where
  "vec_write pos vec buf =
     (let v = reserve_and_pad pos vec
      in (length buf, uadd pos (length buf), take pos v @ buf @ drop (pos + length buf) v))"

subsection \<open>Writing everything\<close>

partial_function (option) write_all_poll :: "'s writer \<Rightarrow> 's \<Rightarrow> byte list \<Rightarrow> (unit ax_result poll \<times> 's \<times> byte list) option" where
  "write_all_poll wr s buf =
     (if buf = [] then Some (Ready (Inr ()), s, buf)
      else (case wr s buf of
              None \<Rightarrow> None
            | Some (Pending, s') \<Rightarrow> Some (Pending, s', buf)
            | Some (Ready (Inl e), s') \<Rightarrow> Some (Ready (Inl e), s', buf)
            | Some (Ready (Inr n), s') \<Rightarrow>
                if length buf < n then None
                else if n = 0 then Some (Ready (Inl WriteZero), s', buf)
                else write_all_poll wr s' (drop n buf)))"

subsection \<open>The buffered writer\<close>

record 's BufWriter =
  winner :: 's
  wbuf :: "byte list"
  written :: nat
  wcapacity :: nat

definition bufwriter_with_capacity :: "nat \<Rightarrow> 's \<Rightarrow> 's BufWriter" where
  "bufwriter_with_capacity capacity s = \<lparr>winner = s, wbuf = [], written = 0, wcapacity = capacity\<rparr>"

definition bufwriter_new :: "'s \<Rightarrow> 's BufWriter" where
  "bufwriter_new s = bufwriter_with_capacity DEFAULT_BUF_SIZE s"

text \<open>The loop of \<open>poll_flush_buf\<close>: the result that ended it, the inner writer and the number of bytes
  written.\<close>

partial_function (option) flush_loop :: "'s writer \<Rightarrow> byte list \<Rightarrow> 's \<Rightarrow> nat \<Rightarrow> (unit ax_result poll \<times> 's \<times> nat) option" where
  "flush_loop wr buf s w =
     (if w < length buf then
        (case wr s (drop w buf) of
           None \<Rightarrow> None
         | Some (Pending, s') \<Rightarrow> Some (Pending, s', w)
         | Some (Ready (Inr n), s') \<Rightarrow>
             if n = 0 then Some (Ready (Inl WriteZero), s', w) else flush_loop wr buf s' (uadd w n)
         | Some (Ready (Inl e), s') \<Rightarrow>
             if e = Interrupted then flush_loop wr buf s' w else Some (Ready (Inl e), s', w))
      else Some (Ready (Inr ()), s, w))"

definition poll_flush_buf :: "'s writer \<Rightarrow> 's BufWriter \<Rightarrow> (unit ax_result poll \<times> 's BufWriter) option" where
  "poll_flush_buf wr b =
     (case flush_loop wr (wbuf b) (winner b) (written b) of
        None \<Rightarrow> None
      | Some (Pending, s', w) \<Rightarrow> Some (Pending, b\<lparr>winner := s', written := w\<rparr>)
      | Some (Ready ret, s', w) \<Rightarrow>
          if length (wbuf b) < w then None
          else Some (Ready ret, b\<lparr>winner := s', wbuf := drop w (wbuf b), written := 0\<rparr>))"

definition bufwriter_put :: "'s writer \<Rightarrow> 's BufWriter writer" where
  "bufwriter_put wr b buf =
     (if wcapacity b \<le> length buf then map_option (\<lambda>(r, s'). (r, b\<lparr>winner := s'\<rparr>)) (wr (winner b) buf)
      else map_option (\<lambda>(r, v). (r, b\<lparr>wbuf := v\<rparr>)) (vec_append_write (wbuf b) buf))"

definition bufwriter_write :: "'s writer \<Rightarrow> 's BufWriter writer" where
  "bufwriter_write wr b buf =
     (if wcapacity b < uadd (length (wbuf b)) (length buf) then
        (case poll_flush_buf wr b of
           None \<Rightarrow> None
         | Some (Pending, b') \<Rightarrow> Some (Pending, b')
         | Some (Ready (Inl e), b') \<Rightarrow> Some (Ready (Inl e), b')
         | Some (Ready (Inr _), b') \<Rightarrow> bufwriter_put wr b' buf)
      else bufwriter_put wr b buf)"

text \<open>\<open>flush\<close>, \<open>close\<close> and \<open>seek\<close> empty the buffer and hand the call on as \<open>fl\<close>.\<close>

definition bufwriter_then :: "'s writer \<Rightarrow> ('s \<Rightarrow> 'r ax_result poll \<times> 's) \<Rightarrow> 's BufWriter \<Rightarrow> ('r ax_result poll \<times> 's BufWriter) option" where
  "bufwriter_then wr fl b =
     (case poll_flush_buf wr b of
        None \<Rightarrow> None
      | Some (Pending, b') \<Rightarrow> Some (Pending, b')
      | Some (Ready (Inl e), b') \<Rightarrow> Some (Ready (Inl e), b')
      | Some (Ready (Inr _), b') \<Rightarrow> (case fl (winner b') of (r, s') \<Rightarrow> Some (r, b'\<lparr>winner := s'\<rparr>)))"

definition bufwriter_flush :: "'s writer \<Rightarrow> ('s \<Rightarrow> unit ax_result poll \<times> 's) \<Rightarrow> 's BufWriter \<Rightarrow> (unit ax_result poll \<times> 's BufWriter) option" where
  "bufwriter_flush wr fl b = bufwriter_then wr fl b"

definition bufwriter_close :: "'s writer \<Rightarrow> ('s \<Rightarrow> unit ax_result poll \<times> 's) \<Rightarrow> 's BufWriter \<Rightarrow> (unit ax_result poll \<times> 's BufWriter) option" where
  "bufwriter_close wr cl b = bufwriter_then wr cl b"

definition bufwriter_seek :: "'s writer \<Rightarrow> ('s \<Rightarrow> SeekFrom \<Rightarrow> nat ax_result poll \<times> 's) \<Rightarrow> SeekFrom \<Rightarrow> 's BufWriter \<Rightarrow> (nat ax_result poll \<times> 's BufWriter) option" where
  "bufwriter_seek wr sk p b = bufwriter_then wr (\<lambda>s. sk s p) b"

subsection \<open>What a buffered writer has taken\<close>

definition bufwriter_ok :: "('s \<Rightarrow> bool) \<Rightarrow> 's BufWriter \<Rightarrow> bool" where
  "bufwriter_ok ok b \<longleftrightarrow> ok (winner b) \<and> written b \<le> length (wbuf b) \<and> length (wbuf b) \<le> wcapacity b \<and> wcapacity b < isize_lim"

definition accepted :: "('s \<Rightarrow> byte list) \<Rightarrow> 's BufWriter \<Rightarrow> byte list" where
  "accepted sunk b = sunk (winner b) @ drop (written b) (wbuf b)"

context async_writer
begin

lemma write_all_returns:
  assumes "ok s" "length buf < isize_lim"
  shows "\<exists>r s' buf'. write_all_poll wr s buf = Some (r, s', buf') \<and> ok s' \<and> sunk s' @ buf' = sunk s @ buf \<and>
    (r = Ready (Inr ()) \<longrightarrow> buf' = [])"
  using assms
proof (induction "length buf" arbitrary: s buf rule: less_induct)
  case less
  show ?case
  proof (cases "buf = []")
    case True
    with less.prems show ?thesis by (subst write_all_poll.simps) simp
  next
    case False
    from less.prems show ?thesis
    proof (cases rule: write_cases [consumes 2, case_names pending failed taken])
      case (taken n s')
      show ?thesis
      proof (cases "n = 0")
        case True
        with taken False show ?thesis by (subst write_all_poll.simps) simp
      next
        case n: False
        then have l: "length (drop n buf) < length buf" using False by (cases buf) auto
        then have "length (drop n buf) < isize_lim" using less.prems(2) by simp
        from less.hyps [OF l taken(2) this] taken n False show ?thesis
          by (subst write_all_poll.simps) simp
      qed
    next
      case (pending s')
      with False show ?thesis by (subst write_all_poll.simps) simp
    next
      case (failed e s')
      with False show ?thesis by (subst write_all_poll.simps) simp
    qed
  qed
qed

lemma flush_loop_returns:
  assumes "ok s" "w \<le> length buf" "length buf < isize_lim"
  shows "\<exists>r s' w'. flush_loop wr buf s w = Some (r, s', w') \<and> ok s' \<and> w' \<le> length buf \<and> gas s' \<le> gas s \<and>
    sunk s' @ drop w' buf = sunk s @ drop w buf \<and> (r = Ready (Inr ()) \<longrightarrow> w' = length buf) \<and> r \<noteq> Ready (Inl Interrupted)"
  using assms(1,2)
proof (induction "(length buf - w, gas s)" arbitrary: s w rule: wf_induct_rule [OF wf_lex_prod [OF wf_less_than wf_less_than]])
  case (1 s w)
  show ?case
  proof (cases "w < length buf")
    case False
    with 1 show ?thesis by (subst flush_loop.simps) simp
  next
    case True
    have "length (drop w buf) < isize_lim"
      using assms(3) by simp
    with 1(2) show ?thesis
    proof (cases rule: write_cases [consumes 2, case_names pending failed taken])
      case (taken n s')
      then have n: "n \<le> length buf - w" and u: "uadd w n = w + n"
        using True assms(3) by (auto intro!: uadd_eq simp: isize_lim_def usize_lim_def)
      show ?thesis
      proof (cases "n = 0")
        case z: True
        with taken True show ?thesis by (subst flush_loop.simps) simp
      next
        case nz: False
        have "((length buf - (w + n), gas s'), (length buf - w, gas s)) \<in> less_than <*lex*> less_than"
          using nz n True by auto
        moreover have "w + n \<le> length buf" using n True by simp
        moreover have "drop w buf = take n (drop w buf) @ drop (w + n) buf"
          using append_take_drop_id [of n "drop w buf"] by (simp add: add.commute)
        ultimately show ?thesis
          using 1(1) [of "w + n" s'] taken nz True u by (subst flush_loop.simps) (auto intro: order_trans)
      qed
    next
      case (failed e s')
      show ?thesis
      proof (cases "e = Interrupted")
        case int: True
        with failed have "((length buf - w, gas s'), (length buf - w, gas s)) \<in> less_than <*lex*> less_than" by simp
        from 1(1) [OF this failed(2) 1(3)] failed int True show ?thesis
          by (subst flush_loop.simps) (auto intro: order_trans)
      next
        case ni: False
        with failed True show ?thesis by (subst flush_loop.simps) simp
      qed
    next
      case (pending s')
      with True show ?thesis by (subst flush_loop.simps) simp
    qed
  qed
qed

end

lemma flush_buf_cases:
  assumes "async_writer wr ok sunk gas" "bufwriter_ok ok b"
  obtains r b' where "poll_flush_buf wr b = Some (r, b')" "bufwriter_ok ok b'" "accepted sunk b' = accepted sunk b"
    "gas (winner b') \<le> gas (winner b)" "wcapacity b' = wcapacity b" "r = Ready (Inr ()) \<longrightarrow> wbuf b' = [] \<and> written b' = 0"
    "r \<noteq> Ready (Inl Interrupted)"
proof -
  have "ok (winner b)" "written b \<le> length (wbuf b)" "length (wbuf b) < isize_lim"
    using assms(2) by (auto simp: bufwriter_ok_def)
  from async_writer.flush_loop_returns [OF assms(1) this] obtain r s' w where
    f: "flush_loop wr (wbuf b) (winner b) (written b) = Some (r, s', w)" "ok s'" "w \<le> length (wbuf b)" "gas s' \<le> gas (winner b)"
    "sunk s' @ drop w (wbuf b) = sunk (winner b) @ drop (written b) (wbuf b)"
    "r = Ready (Inr ()) \<longrightarrow> w = length (wbuf b)" "r \<noteq> Ready (Inl Interrupted)" by blast
  show thesis
  proof (cases r)
    case Pending
    with f assms(2) show ?thesis
      by (intro that [of Pending "b\<lparr>winner := s', written := w\<rparr>"]) (auto simp: poll_flush_buf_def bufwriter_ok_def accepted_def)
  next
    case (Ready ret)
    with f assms(2) show ?thesis
      by (intro that [of "Ready ret" "b\<lparr>winner := s', wbuf := drop w (wbuf b), written := 0\<rparr>"])
        (auto simp: poll_flush_buf_def bufwriter_ok_def accepted_def)
  qed
qed

text \<open>What one write has to do, for a writer and the bytes it has taken.\<close>

definition write_law :: "('s \<Rightarrow> bool) \<Rightarrow> ('s \<Rightarrow> byte list) \<Rightarrow> ('s \<Rightarrow> nat) \<Rightarrow> 's \<Rightarrow> byte list \<Rightarrow> (nat ax_result poll \<times> 's) option \<Rightarrow> bool" where
  "write_law ok sunk gas s bs x \<longleftrightarrow> (\<exists>r s'. x = Some (r, s') \<and> ok s' \<and> gas s' \<le> gas s \<and>
    (case r of
       Ready (Inr n) \<Rightarrow> n \<le> length bs \<and> sunk s' = sunk s @ take n bs
     | Ready (Inl e) \<Rightarrow> sunk s' = sunk s \<and> (e = Interrupted \<longrightarrow> gas s' < gas s)
     | Pending \<Rightarrow> sunk s' = sunk s))"

lemma put_law:
  assumes "async_writer wr ok sunk gas" "bufwriter_ok ok b" "length bs < isize_lim"
    and room: "wbuf b = [] \<or> length (wbuf b) + length bs \<le> wcapacity b"
  shows "write_law (bufwriter_ok ok) (accepted sunk) (\<lambda>b. gas (winner b)) b bs (bufwriter_put wr b bs)"
proof (cases "wcapacity b \<le> length bs")
  case True
  have empty: "wbuf b = []"
  proof (cases "wbuf b = []")
    case False
    with room True have "length (wbuf b) = 0" by linarith
    then show ?thesis by simp
  qed
  have "ok (winner b)" using assms(2) by (simp add: bufwriter_ok_def)
  then show ?thesis
    using assms(3)
  proof (cases rule: async_writer.write_cases [OF assms(1), consumes 2, case_names pending failed taken])
    case (taken n s')
    have "accepted sunk (b\<lparr>winner := s'\<rparr>) = accepted sunk b @ take n bs"
      using taken(4) empty by (simp add: accepted_def)
    with taken True assms(2) show ?thesis
      by (auto simp: write_law_def bufwriter_put_def bufwriter_ok_def)
  qed (use True assms(2) in \<open>auto simp: write_law_def bufwriter_put_def bufwriter_ok_def accepted_def\<close>)
next
  case False
  then have "length (wbuf b) + length bs \<le> wcapacity b"
    using room by auto
  with False assms(2) show ?thesis
    by (auto simp: write_law_def bufwriter_put_def vec_append_write_def bufwriter_ok_def accepted_def)
qed

subsection \<open>Properties\<close>

text \<open>
  C18: a buffered writer loses and repeats nothing. A \<open>BufWriter\<close> around any writer that keeps the
  contract keeps it itself: what it has taken is what its inner writer has taken followed by the
  bytes it still holds, in order, across pending polls, partial writes, interruptions and errors, and
  no loop in it runs forever.
\<close>

theorem bufwriter_lossless:
  fixes wr :: "'a writer"
  assumes "async_writer wr ok sunk gas"
  shows "async_writer (bufwriter_write wr) (bufwriter_ok ok) (accepted sunk) (\<lambda>b. gas (winner b))"
proof
  fix b :: "'a BufWriter" and bs :: "byte list"
  assume b: "bufwriter_ok ok b" and bs: "length bs < isize_lim"
  have "length (wbuf b) < isize_lim"
    using b by (simp add: bufwriter_ok_def)
  then have sum: "uadd (length (wbuf b)) (length bs) = length (wbuf b) + length bs"
    using bs by (intro uadd_eq isize_usize)
  have "write_law (bufwriter_ok ok) (accepted sunk) (\<lambda>b. gas (winner b)) b bs (bufwriter_write wr b bs)"
  proof (cases "wcapacity b < length (wbuf b) + length bs")
    case False
    with put_law [OF assms b bs] sum show ?thesis by (simp add: bufwriter_write_def)
  next
    case True
    obtain r b' where f: "poll_flush_buf wr b = Some (r, b')" "bufwriter_ok ok b'" "accepted sunk b' = accepted sunk b"
      "gas (winner b') \<le> gas (winner b)" "wcapacity b' = wcapacity b" "r = Ready (Inr ()) \<longrightarrow> wbuf b' = [] \<and> written b' = 0" "r \<noteq> Ready (Inl Interrupted)"
      by (rule flush_buf_cases [OF assms b])
    show ?thesis
    proof (cases "r = Ready (Inr ())")
      case fin: True
      then have "write_law (bufwriter_ok ok) (accepted sunk) (\<lambda>b. gas (winner b)) b' bs (bufwriter_put wr b' bs)"
        using f(6) by (intro put_law [OF assms f(2) bs]) simp
      then have "write_law (bufwriter_ok ok) (accepted sunk) (\<lambda>b. gas (winner b)) b bs (bufwriter_put wr b' bs)"
        using f(3,4) unfolding write_law_def by (force split: poll.splits sum.splits)
      with True sum f(1) fin show ?thesis by (simp add: bufwriter_write_def)
    next
      case False
      with True sum f show ?thesis
        by (cases r) (auto simp: bufwriter_write_def write_law_def split: sum.splits)
    qed
  qed
  then show "\<exists>r s'. bufwriter_write wr b bs = Some (r, s') \<and> bufwriter_ok ok s' \<and> gas (winner s') \<le> gas (winner b) \<and>
    (case r of Ready (Inr n) \<Rightarrow> n \<le> length bs \<and> accepted sunk s' = accepted sunk b @ take n bs
     | Ready (Inl e) \<Rightarrow> accepted sunk s' = accepted sunk b \<and> (e = Interrupted \<longrightarrow> gas (winner s') < gas (winner b))
     | Pending \<Rightarrow> accepted sunk s' = accepted sunk b)"
    unfolding write_law_def .
qed

theorem bufwriter_lossless_witness:
  "async_writer (bufwriter_write vec_append_write) (bufwriter_ok (\<lambda>_. True)) (accepted (\<lambda>v. v)) (\<lambda>b. 0)"
  using bufwriter_lossless [OF vec.async_writer_axioms] .

text \<open>After a successful flush the inner writer has everything that was accepted.\<close>

lemma bufwriter_flush_empties:
  assumes "async_writer wr ok sunk gas" "bufwriter_ok ok b" "\<And>s. fl s = (Ready (Inr ()), s)"
  shows "\<exists>r b'. bufwriter_flush wr fl b = Some (r, b') \<and> accepted sunk b' = accepted sunk b \<and>
    (r = Ready (Inr ()) \<longrightarrow> sunk (winner b') = accepted sunk b)"
proof -
  obtain r b' where f: "poll_flush_buf wr b = Some (r, b')" "accepted sunk b' = accepted sunk b"
    "r = Ready (Inr ()) \<longrightarrow> wbuf b' = [] \<and> written b' = 0"
    by (rule flush_buf_cases [OF assms(1,2)])
  show ?thesis
  proof (cases "r = Ready (Inr ())")
    case True
    with f assms(3) show ?thesis
      by (auto simp: bufwriter_flush_def bufwriter_then_def accepted_def)
  next
    case False
    with f show ?thesis
      by (cases r) (auto simp: bufwriter_flush_def bufwriter_then_def split: sum.splits)
  qed
qed

end
