(* ===== verification/Streams.thy ===== *)
theory Streams
  imports Prelude
begin

section \<open>Asynchronous streams\<close>

text \<open>
  Streams (\<open>AsyncStream\<close>, \<open>async_io/src/stream\<close>) and their adaptors. A stream is its \<open>poll_next\<close>: a
  function from the state to the result and the new state, \<open>None\<close> when the call panics or never
  returns. The adaptors are polls over the poll of the stream they wrap. A closure \<open>FnMut\<close> is a
  function that is given its captured state and returns it updated.

  The locale \<open>async_stream\<close> is the contract of a finite stream: \<open>items\<close> are the items it will
  deliver, in order, and \<open>todo\<close> bounds the number of polls that are still needed. Nothing is
  promised once the end was reported. Every adaptor keeps the contract, and its items are a
  function of the items below it.
\<close>

type_synonym ('s, 'a) stream = "'s \<Rightarrow> ('a option poll \<times> 's) option"
type_synonym ('f, 'a, 'b) fnmut = "'f \<Rightarrow> 'a \<Rightarrow> 'b \<times> 'f"

subsection \<open>Sources\<close>

definition from_iter_poll :: "('a list, 'a) stream" where
  "from_iter_poll xs = (case xs of [] \<Rightarrow> Some (Ready None, []) | x # ys \<Rightarrow> Some (Ready (Some x), ys))"

definition from_iter_poll_back :: "('a list, 'a) stream" where
  "from_iter_poll_back xs = (if xs = [] then Some (Ready None, []) else Some (Ready (Some (last xs)), butlast xs))"

definition empty_poll :: "(unit, 'a) stream" where
  "empty_poll u = Some (Ready None, u)"

definition once_poll :: "('a option, 'a) stream" where
  "once_poll v = Some (Ready v, None)"

definition repeat_poll :: "('a, 'a) stream" where
  "repeat_poll item = Some (Ready (Some item), item)"

record ('f, 'a) Successors =
  succ_fn :: 'f
  slot :: "'a option"

definition successors_poll :: "('f, 'a, 'a option) fnmut \<Rightarrow> (('f, 'a) Successors, 'a) stream" where
  "successors_poll f s =
     (case slot s of
        None \<Rightarrow> Some (Ready None, s)
      | Some x \<Rightarrow> (case f (succ_fn s) x of (next, c) \<Rightarrow> Some (Ready (Some x), \<lparr>succ_fn = c, slot = next\<rparr>)))"

subsection \<open>Adaptors\<close>

text \<open>A stream with a closure (\<open>Map\<close>, \<open>Filter\<close>, \<open>FilterMap\<close>, \<open>Inspect\<close>, \<open>TakeWhile\<close>, \<open>Scan\<close> with its
  state, and the futures \<open>AllFuture\<close>, \<open>AnyFuture\<close>, \<open>FindFuture\<close>, \<open>FindMapFuture\<close>, \<open>ForEachFuture\<close>,
  \<open>TryForEachFuture\<close>), and a stream with a number (\<open>Take\<close>, \<open>Skip\<close>, \<open>Enumerate\<close>, \<open>NthFuture\<close>,
  \<open>CountFuture\<close>).\<close>

record ('s, 'f) StreamF =
  stream :: 's
  clos :: 'f

record 's StreamN =
  nstream :: 's
  num :: nat

definition map_poll :: "('f, 'a, 'b) fnmut \<Rightarrow> ('s, 'a) stream \<Rightarrow> (('s, 'f) StreamF, 'b) stream" where
  "map_poll f p m =
     (case p (stream m) of
        None \<Rightarrow> None
      | Some (Pending, s) \<Rightarrow> Some (Pending, m\<lparr>stream := s\<rparr>)
      | Some (Ready None, s) \<Rightarrow> Some (Ready None, m\<lparr>stream := s\<rparr>)
      | Some (Ready (Some x), s) \<Rightarrow> (case f (clos m) x of (y, c) \<Rightarrow> Some (Ready (Some y), \<lparr>stream = s, clos = c\<rparr>)))"

text \<open>An item that is filtered out makes the poll pending; the next poll looks at the next item.\<close>

definition filter_poll :: "('f, 'a, bool) fnmut \<Rightarrow> ('s, 'a) stream \<Rightarrow> (('s, 'f) StreamF, 'a) stream" where
  "filter_poll f p m =
     (case p (stream m) of
        None \<Rightarrow> None
      | Some (Pending, s) \<Rightarrow> Some (Pending, m\<lparr>stream := s\<rparr>)
      | Some (Ready None, s) \<Rightarrow> Some (Ready None, m\<lparr>stream := s\<rparr>)
      | Some (Ready (Some x), s) \<Rightarrow>
          (case f (clos m) x of (b, c) \<Rightarrow> Some (if b then Ready (Some x) else Pending, \<lparr>stream = s, clos = c\<rparr>)))"

definition filter_map_poll :: "('f, 'a, 'b option) fnmut \<Rightarrow> ('s, 'a) stream \<Rightarrow> (('s, 'f) StreamF, 'b) stream" where
  "filter_map_poll f p m =
     (case p (stream m) of
        None \<Rightarrow> None
      | Some (Pending, s) \<Rightarrow> Some (Pending, m\<lparr>stream := s\<rparr>)
      | Some (Ready None, s) \<Rightarrow> Some (Ready None, m\<lparr>stream := s\<rparr>)
      | Some (Ready (Some x), s) \<Rightarrow>
          (case f (clos m) x of (b, c) \<Rightarrow>
             Some (case b of Some y \<Rightarrow> Ready (Some y) | None \<Rightarrow> Pending, \<lparr>stream = s, clos = c\<rparr>)))"

definition inspect_poll :: "('f, 'a, unit) fnmut \<Rightarrow> ('s, 'a) stream \<Rightarrow> (('s, 'f) StreamF, 'a) stream" where
  "inspect_poll f p m =
     (case p (stream m) of
        None \<Rightarrow> None
      | Some (Pending, s) \<Rightarrow> Some (Pending, m\<lparr>stream := s\<rparr>)
      | Some (Ready None, s) \<Rightarrow> Some (Ready None, m\<lparr>stream := s\<rparr>)
      | Some (Ready (Some x), s) \<Rightarrow> (case f (clos m) x of (_, c) \<Rightarrow> Some (Ready (Some x), \<lparr>stream = s, clos = c\<rparr>)))"

definition take_while_poll :: "('f, 'a, bool) fnmut \<Rightarrow> ('s, 'a) stream \<Rightarrow> (('s, 'f) StreamF, 'a) stream" where
  "take_while_poll f p m =
     (case p (stream m) of
        None \<Rightarrow> None
      | Some (Pending, s) \<Rightarrow> Some (Pending, m\<lparr>stream := s\<rparr>)
      | Some (Ready None, s) \<Rightarrow> Some (Ready None, m\<lparr>stream := s\<rparr>)
      | Some (Ready (Some x), s) \<Rightarrow>
          (case f (clos m) x of (b, c) \<Rightarrow> Some (Ready (if b then Some x else None), \<lparr>stream = s, clos = c\<rparr>)))"

definition scan_poll :: "('f, 'a, 'b option) fnmut \<Rightarrow> ('s, 'a) stream \<Rightarrow> (('s, 'f) StreamF, 'b) stream" where
  "scan_poll f p m =
     (case p (stream m) of
        None \<Rightarrow> None
      | Some (Pending, s) \<Rightarrow> Some (Pending, m\<lparr>stream := s\<rparr>)
      | Some (Ready None, s) \<Rightarrow> Some (Ready None, m\<lparr>stream := s\<rparr>)
      | Some (Ready (Some x), s) \<Rightarrow> (case f (clos m) x of (y, c) \<Rightarrow> Some (Ready y, \<lparr>stream = s, clos = c\<rparr>)))"

definition take_poll :: "('s, 'a) stream \<Rightarrow> ('s StreamN, 'a) stream" where
  "take_poll p t =
     (if num t = 0 then Some (Ready None, t)
      else case p (nstream t) of
        None \<Rightarrow> None
      | Some (Pending, s) \<Rightarrow> Some (Pending, t\<lparr>nstream := s\<rparr>)
      | Some (Ready None, s) \<Rightarrow> Some (Ready None, \<lparr>nstream = s, num = 0\<rparr>)
      | Some (Ready (Some x), s) \<Rightarrow> Some (Ready (Some x), \<lparr>nstream = s, num = num t - 1\<rparr>))"

definition enumerate_poll :: "('s, 'a) stream \<Rightarrow> ('s StreamN, nat \<times> 'a) stream" where
  "enumerate_poll p t =
     (case p (nstream t) of
        None \<Rightarrow> None
      | Some (Pending, s) \<Rightarrow> Some (Pending, t\<lparr>nstream := s\<rparr>)
      | Some (Ready None, s) \<Rightarrow> Some (Ready None, t\<lparr>nstream := s\<rparr>)
      | Some (Ready (Some x), s) \<Rightarrow> Some (Ready (Some (num t, x)), \<lparr>nstream = s, num = uadd (num t) 1\<rparr>))"

partial_function (option) skip_poll :: "('s, 'a) stream \<Rightarrow> 's StreamN \<Rightarrow> ('a option poll \<times> 's StreamN) option" where
  "skip_poll p t =
     (case p (nstream t) of
        None \<Rightarrow> None
      | Some (Pending, s) \<Rightarrow> Some (Pending, t\<lparr>nstream := s\<rparr>)
      | Some (Ready None, s) \<Rightarrow> Some (Ready None, t\<lparr>nstream := s\<rparr>)
      | Some (Ready (Some x), s) \<Rightarrow>
          if num t = 0 then Some (Ready (Some x), t\<lparr>nstream := s\<rparr>)
          else skip_poll p \<lparr>nstream = s, num = num t - 1\<rparr>)"

record ('s, 'f) SkipWhile =
  sw_stream :: 's
  predicate :: "'f option"

partial_function (option) skip_while_poll ::
  "('f, 'a, bool) fnmut \<Rightarrow> ('s, 'a) stream \<Rightarrow> ('s, 'f) SkipWhile \<Rightarrow> ('a option poll \<times> ('s, 'f) SkipWhile) option" where
  "skip_while_poll f p t =
     (case p (sw_stream t) of
        None \<Rightarrow> None
      | Some (Pending, s) \<Rightarrow> Some (Pending, t\<lparr>sw_stream := s\<rparr>)
      | Some (Ready None, s) \<Rightarrow> Some (Ready None, t\<lparr>sw_stream := s\<rparr>)
      | Some (Ready (Some x), s) \<Rightarrow>
          (case predicate t of
             None \<Rightarrow> Some (Ready (Some x), t\<lparr>sw_stream := s\<rparr>)
           | Some c \<Rightarrow>
               (case f c x of (b, c') \<Rightarrow>
                  if b then skip_while_poll f p \<lparr>sw_stream = s, predicate = Some c'\<rparr>
                  else Some (Ready (Some x), \<lparr>sw_stream = s, predicate = None\<rparr>))))"

record 's StepBy =
  sb_stream :: 's
  step :: nat
  sb_i :: nat

definition step_by_new :: "'s \<Rightarrow> nat \<Rightarrow> 's StepBy option" where
  "step_by_new s n = (if n = 0 then None else Some \<lparr>sb_stream = s, step = n - 1, sb_i = 0\<rparr>)"

partial_function (option) step_by_poll :: "('s, 'a) stream \<Rightarrow> 's StepBy \<Rightarrow> ('a option poll \<times> 's StepBy) option" where
  "step_by_poll p t =
     (case p (sb_stream t) of
        None \<Rightarrow> None
      | Some (Pending, s) \<Rightarrow> Some (Pending, t\<lparr>sb_stream := s\<rparr>)
      | Some (Ready None, s) \<Rightarrow> Some (Ready None, t\<lparr>sb_stream := s\<rparr>)
      | Some (Ready (Some x), s) \<Rightarrow>
          if sb_i t = 0 then Some (Ready (Some x), t\<lparr>sb_stream := s, sb_i := step t\<rparr>)
          else step_by_poll p (t\<lparr>sb_stream := s, sb_i := sb_i t - 1\<rparr>))"

record 's Fuse =
  fstream :: 's
  fdone :: bool

definition fuse_poll :: "('s, 'a) stream \<Rightarrow> ('s Fuse, 'a) stream" where
  "fuse_poll p t =
     (if fdone t then Some (Ready None, t)
      else case p (fstream t) of
        None \<Rightarrow> None
      | Some (Pending, s) \<Rightarrow> Some (Pending, t\<lparr>fstream := s\<rparr>)
      | Some (Ready None, s) \<Rightarrow> Some (Ready None, \<lparr>fstream = s, fdone = True\<rparr>)
      | Some (Ready (Some x), s) \<Rightarrow> Some (Ready (Some x), t\<lparr>fstream := s\<rparr>))"

record ('s, 't) ChainS =
  ch_first :: "'s Fuse"
  ch_second :: "'t Fuse"

definition chain_stream_new :: "'s \<Rightarrow> 't \<Rightarrow> ('s, 't) ChainS" where
  "chain_stream_new s t = \<lparr>ch_first = \<lparr>fstream = s, fdone = False\<rparr>, ch_second = \<lparr>fstream = t, fdone = False\<rparr>\<rparr>"

definition chain_stream_end :: "('s, 't) ChainS \<Rightarrow> ('a option poll \<times> ('s, 't) ChainS) option" where
  "chain_stream_end c = Some (if fdone (ch_first c) \<and> fdone (ch_second c) then Ready None else Pending, c)"

definition chain_stream_second :: "('t, 'a) stream \<Rightarrow> (('s, 't) ChainS, 'a) stream" where
  "chain_stream_second q c =
     (if \<not> fdone (ch_second c) then
        case fuse_poll q (ch_second c) of
          None \<Rightarrow> None
        | Some (Pending, t) \<Rightarrow> Some (Pending, c\<lparr>ch_second := t\<rparr>)
        | Some (Ready None, t) \<Rightarrow> chain_stream_end (c\<lparr>ch_second := t\<rparr>)
        | Some (Ready (Some x), t) \<Rightarrow> Some (Ready (Some x), c\<lparr>ch_second := t\<rparr>)
      else chain_stream_end c)"

definition chain_stream_poll :: "('s, 'a) stream \<Rightarrow> ('t, 'a) stream \<Rightarrow> (('s, 't) ChainS, 'a) stream" where
  "chain_stream_poll p q c =
     (if \<not> fdone (ch_first c) then
        case fuse_poll p (ch_first c) of
          None \<Rightarrow> None
        | Some (Pending, s) \<Rightarrow> Some (Pending, c\<lparr>ch_first := s\<rparr>)
        | Some (Ready None, s) \<Rightarrow> chain_stream_second q (c\<lparr>ch_first := s\<rparr>)
        | Some (Ready (Some x), s) \<Rightarrow> Some (Ready (Some x), c\<lparr>ch_first := s\<rparr>)
      else chain_stream_second q c)"

record ('s, 't, 'a) Zip =
  item_slot :: "'a option"
  zfirst :: 's
  zsecond :: 't

definition zip_second :: "('t, 'b) stream \<Rightarrow> 'a \<Rightarrow> (('s, 't, 'a) Zip, 'a \<times> 'b) stream" where
  "zip_second q x z =
     (case q (zsecond z) of
        None \<Rightarrow> None
      | Some (Pending, t) \<Rightarrow> Some (Pending, z\<lparr>zsecond := t\<rparr>)
      | Some (Ready y, t) \<Rightarrow> Some (Ready (map_option (Pair x) y), z\<lparr>zsecond := t, item_slot := None\<rparr>))"

definition zip_poll :: "('s, 'a) stream \<Rightarrow> ('t, 'b) stream \<Rightarrow> (('s, 't, 'a) Zip, 'a \<times> 'b) stream" where
  "zip_poll p q z =
     (case item_slot z of
        None \<Rightarrow>
          (case p (zfirst z) of
             None \<Rightarrow> None
           | Some (Pending, s) \<Rightarrow> Some (Pending, z\<lparr>zfirst := s\<rparr>)
           | Some (Ready None, s) \<Rightarrow> Some (Ready None, z\<lparr>zfirst := s\<rparr>)
           | Some (Ready (Some x), s) \<Rightarrow> zip_second q x (z\<lparr>zfirst := s, item_slot := Some x\<rparr>))
      | Some x \<Rightarrow> zip_second q x z)"

record 's Cycle =
  orig :: 's
  source :: 's

definition cycle_poll :: "('s, 'a) stream \<Rightarrow> ('s Cycle, 'a) stream" where
  "cycle_poll p c =
     (case p (source c) of
        None \<Rightarrow> None
      | Some (Pending, s) \<Rightarrow> Some (Pending, c\<lparr>source := s\<rparr>)
      | Some (Ready (Some x), s) \<Rightarrow> Some (Ready (Some x), c\<lparr>source := s\<rparr>)
      | Some (Ready None, _) \<Rightarrow>
          (case p (orig c) of None \<Rightarrow> None | Some (r, s) \<Rightarrow> Some (r, c\<lparr>source := s\<rparr>)))"

record ('s, 't) Flatten =
  outer :: 's
  inner_stream :: "'t option"

text \<open>The first half of the loop body: \<open>Inl\<close> is what the poll returns, \<open>Inr\<close> goes on to the next
  inner stream.\<close>

definition flatten_inner :: "('t, 'a) stream \<Rightarrow> ('s, 't) Flatten \<Rightarrow> (('a option poll \<times> ('s, 't) Flatten) + ('s, 't) Flatten) option" where
  "flatten_inner q fl =
     (case inner_stream fl of
        None \<Rightarrow> Some (Inr fl)
      | Some t \<Rightarrow>
          (case q t of
             None \<Rightarrow> None
           | Some (Pending, t') \<Rightarrow> Some (Inl (Pending, fl\<lparr>inner_stream := Some t'\<rparr>))
           | Some (Ready None, _) \<Rightarrow> Some (Inr (fl\<lparr>inner_stream := None\<rparr>))
           | Some (Ready (Some x), t') \<Rightarrow> Some (Inl (Ready (Some x), fl\<lparr>inner_stream := Some t'\<rparr>))))"

partial_function (option) flatten_poll ::
  "('s, 't) stream \<Rightarrow> ('t, 'a) stream \<Rightarrow> ('s, 't) Flatten \<Rightarrow> ('a option poll \<times> ('s, 't) Flatten) option" where
  "flatten_poll p q fl =
     (case flatten_inner q fl of
        None \<Rightarrow> None
      | Some (Inl r) \<Rightarrow> Some r
      | Some (Inr fl') \<Rightarrow>
          (case p (outer fl') of
             None \<Rightarrow> None
           | Some (Pending, s) \<Rightarrow> Some (Pending, fl'\<lparr>outer := s\<rparr>)
           | Some (Ready None, s) \<Rightarrow> Some (Ready None, fl'\<lparr>outer := s\<rparr>)
           | Some (Ready (Some t), s) \<Rightarrow> flatten_poll p q \<lparr>outer = s, inner_stream = Some t\<rparr>))"

definition flat_map_poll :: "('f, 'a, 't) fnmut \<Rightarrow> ('s, 'a) stream \<Rightarrow> ('t, 'b) stream \<Rightarrow> ((('s, 'f) StreamF, 't) Flatten, 'b) stream" where
  "flat_map_poll f p q = flatten_poll (map_poll f p) q"

subsection \<open>The contract\<close>

text \<open>What a poll may do to a stream whose items are known.\<close>

fun delivers :: "('s \<Rightarrow> bool) \<Rightarrow> ('s \<Rightarrow> 'a list) \<Rightarrow> ('s \<Rightarrow> nat) \<Rightarrow> 's \<Rightarrow> 'a option poll \<Rightarrow> 's \<Rightarrow> bool" where
  "delivers ok items todo s Pending s' \<longleftrightarrow> ok s' \<and> items s' = items s \<and> todo s' < todo s"
| "delivers ok items todo s (Ready None) s' \<longleftrightarrow> items s = []"
| "delivers ok items todo s (Ready (Some x)) s' \<longleftrightarrow> ok s' \<and> items s = x # items s' \<and> todo s' < todo s"

lemma poll_option_cases:
  obtains (pending) "r = Pending" | (finished) "r = Ready None" | (item) x where "r = Ready (Some x)"
  by (cases r) (auto intro: that)

lemma delivers_mono:
  assumes "delivers ok items todo s r t'" "items t = items s" "todo s \<le> todo t"
  shows "delivers ok items todo t r t'"
  using assms by (cases r rule: poll_option_cases) auto

text \<open>Polling a stream until it reports its end, at most \<open>n\<close> times.\<close>

fun drain :: "nat \<Rightarrow> ('s, 'a) stream \<Rightarrow> 's \<Rightarrow> 'a list option" where
  "drain 0 p s = None"
| "drain (Suc n) p s =
     (case p s of
        None \<Rightarrow> None
      | Some (Pending, s') \<Rightarrow> drain n p s'
      | Some (Ready None, _) \<Rightarrow> Some []
      | Some (Ready (Some x), s') \<Rightarrow> map_option (Cons x) (drain n p s'))"

locale async_stream =
  fixes poll :: "('s, 'a) stream" and ok :: "'s \<Rightarrow> bool" and items :: "'s \<Rightarrow> 'a list" and todo :: "'s \<Rightarrow> nat"
  assumes polls: "ok s \<Longrightarrow> \<exists>r s'. poll s = Some (r, s') \<and> delivers ok items todo s r s'"
begin

lemma poll_cases:
  assumes "ok s"
  obtains (pending) s' where "poll s = Some (Pending, s')" "ok s'" "items s' = items s" "todo s' < todo s"
  | (finished) s' where "poll s = Some (Ready None, s')" "items s = []"
  | (item) x s' where "poll s = Some (Ready (Some x), s')" "ok s'" "items s = x # items s'" "todo s' < todo s"
proof -
  from polls [OF assms] obtain r s' where r: "poll s = Some (r, s')" "delivers ok items todo s r s'" by blast
  show thesis
  proof (cases r)
    case Pending
    with r pending show ?thesis by simp
  next
    case (Ready y)
    with r finished item show ?thesis by (cases y) auto
  qed
qed

lemma drain_items: "ok s \<Longrightarrow> todo s < n \<Longrightarrow> drain n poll s = Some (items s)"
proof (induction n arbitrary: s)
  case (Suc n)
  from Suc.prems(1) show ?case
  proof (cases rule: poll_cases)
    case (pending s')
    with Suc.IH [of s'] Suc.prems(2) show ?thesis by simp
  next
    case (finished s')
    then show ?thesis by simp
  next
    case (item x s')
    with Suc.IH [of s'] Suc.prems(2) show ?thesis by simp
  qed
qed simp

end

interpretation iter: async_stream from_iter_poll "\<lambda>_. True" "\<lambda>xs. xs" length
  by unfold_locales (simp add: from_iter_poll_def split: list.split)

interpretation iter_back: async_stream from_iter_poll_back "\<lambda>_. True" rev length
proof
  fix xs :: "'a list"
  show "\<exists>r s'. from_iter_poll_back xs = Some (r, s') \<and> delivers (\<lambda>_. True) rev length xs r s'"
    by (cases xs rule: rev_cases) (simp_all add: from_iter_poll_back_def)
qed

interpretation empty: async_stream empty_poll "\<lambda>_. True" "\<lambda>_. []" "\<lambda>_. 0"
  by unfold_locales (simp add: empty_poll_def)

interpretation once: async_stream once_poll "\<lambda>_. True" "\<lambda>v. case v of None \<Rightarrow> [] | Some x \<Rightarrow> [x]" "\<lambda>v. case v of None \<Rightarrow> 0 | Some x \<Rightarrow> 1"
proof
  fix v :: "'a option"
  show "\<exists>r s'. once_poll v = Some (r, s') \<and> delivers (\<lambda>_. True) (\<lambda>v. case v of None \<Rightarrow> [] | Some x \<Rightarrow> [x])
      (\<lambda>v. case v of None \<Rightarrow> 0 | Some x \<Rightarrow> 1) v r s'"
    by (cases v) (simp_all add: once_poll_def)
qed

subsection \<open>The adaptors keep the contract\<close>

text \<open>What the adaptors do to the list of items, with the state of the closure passed along.\<close>

primrec map_fn :: "('f, 'a, 'b) fnmut \<Rightarrow> 'f \<Rightarrow> 'a list \<Rightarrow> 'b list" where
  "map_fn f c [] = []"
| "map_fn f c (x # xs) = fst (f c x) # map_fn f (snd (f c x)) xs"

primrec filter_fn :: "('f, 'a, bool) fnmut \<Rightarrow> 'f \<Rightarrow> 'a list \<Rightarrow> 'a list" where
  "filter_fn f c [] = []"
| "filter_fn f c (x # xs) = (if fst (f c x) then [x] else []) @ filter_fn f (snd (f c x)) xs"

primrec filter_map_fn :: "('f, 'a, 'b option) fnmut \<Rightarrow> 'f \<Rightarrow> 'a list \<Rightarrow> 'b list" where
  "filter_map_fn f c [] = []"
| "filter_map_fn f c (x # xs) = (case fst (f c x) of None \<Rightarrow> [] | Some y \<Rightarrow> [y]) @ filter_map_fn f (snd (f c x)) xs"

primrec take_while_fn :: "('f, 'a, bool) fnmut \<Rightarrow> 'f \<Rightarrow> 'a list \<Rightarrow> 'a list" where
  "take_while_fn f c [] = []"
| "take_while_fn f c (x # xs) = (if fst (f c x) then x # take_while_fn f (snd (f c x)) xs else [])"

primrec scan_fn :: "('f, 'a, 'b option) fnmut \<Rightarrow> 'f \<Rightarrow> 'a list \<Rightarrow> 'b list" where
  "scan_fn f c [] = []"
| "scan_fn f c (x # xs) = (case fst (f c x) of None \<Rightarrow> [] | Some y \<Rightarrow> y # scan_fn f (snd (f c x)) xs)"

primrec skip_while_fn :: "('f, 'a, bool) fnmut \<Rightarrow> 'f \<Rightarrow> 'a list \<Rightarrow> 'a list" where
  "skip_while_fn f c [] = []"
| "skip_while_fn f c (x # xs) = (if fst (f c x) then skip_while_fn f (snd (f c x)) xs else x # xs)"

primrec enumerate_fn :: "nat \<Rightarrow> 'a list \<Rightarrow> (nat \<times> 'a) list" where
  "enumerate_fn i [] = []"
| "enumerate_fn i (x # xs) = (i, x) # enumerate_fn (uadd i 1) xs"

primrec step_fn :: "nat \<Rightarrow> nat \<Rightarrow> 'a list \<Rightarrow> 'a list" where
  "step_fn st i [] = []"
| "step_fn st i (x # xs) = (if i = 0 then x # step_fn st st xs else step_fn st (i - 1) xs)"

text \<open>A closure without captured state, and the plain list functions.\<close>

definition pure :: "('a \<Rightarrow> 'b) \<Rightarrow> (unit, 'a, 'b) fnmut" where
  "pure f c x = (f x, c)"

lemma pure_fns [simp]:
  "map_fn (pure f) c xs = map f xs"
  "filter_fn (pure P) c xs = filter P xs"
  "filter_map_fn (pure g) c xs = List.map_filter g xs"
  "take_while_fn (pure P) c xs = takeWhile P xs"
  "skip_while_fn (pure P) c xs = dropWhile P xs"
  by (induction xs) (auto simp: pure_def List.map_filter_simps split: option.split)

lemma enumerate_fn_eq: "i + length xs \<le> usize_lim \<Longrightarrow> enumerate_fn i xs = List.enumerate i xs"
proof (induction xs arbitrary: i)
  case (Cons x xs)
  show ?case
  proof (cases "xs = []")
    case False
    with Cons.prems have "uadd i 1 = Suc i"
      by (subst uadd_eq) (cases xs; simp)+
    with Cons show ?thesis by simp
  qed simp
qed simp

lemma step_fn_nth:
  "length (step_fn st i xs) = (length xs - i + st) div (st + 1) \<and>
   (\<forall>k < length (step_fn st i xs). step_fn st i xs ! k = xs ! (i + k * (st + 1)))"
proof (induction xs arbitrary: i)
  case (Cons x xs)
  show ?case
  proof (cases "i = 0")
    case True
    have "(Suc (length xs) + st) div (st + 1) = Suc ((length xs) div (st + 1))"
      using div_add_self2 [of "st + 1" "length xs"] by (simp add: ac_simps)
    moreover have "(length xs - st + st) div (st + 1) = length xs div (st + 1)"
      by (cases "st \<le> length xs") (simp_all add: div_less)
    ultimately show ?thesis
      using Cons.IH [of st] True by (auto simp: nth_Cons ac_simps split: nat.split)
  next
    case False
    then show ?thesis using Cons.IH [of "i - 1"] by (auto simp: nth_Cons split: nat.split)
  qed
qed simp


context async_stream
begin

lemma map_stream:
  "async_stream (map_poll f poll) (\<lambda>m. ok (stream m)) (\<lambda>m. map_fn f (clos m) (items (stream m))) (\<lambda>m. todo (stream m))"
  by unfold_locales (erule poll_cases; simp add: map_poll_def split: prod.split)

lemma filter_stream:
  "async_stream (filter_poll f poll) (\<lambda>m. ok (stream m)) (\<lambda>m. filter_fn f (clos m) (items (stream m))) (\<lambda>m. todo (stream m))"
  by unfold_locales (erule poll_cases; simp add: filter_poll_def split: prod.split)

lemma filter_map_stream:
  "async_stream (filter_map_poll f poll) (\<lambda>m. ok (stream m)) (\<lambda>m. filter_map_fn f (clos m) (items (stream m))) (\<lambda>m. todo (stream m))"
  by unfold_locales (erule poll_cases; simp add: filter_map_poll_def split: prod.split option.split)

lemma inspect_stream:
  "async_stream (inspect_poll f poll) (\<lambda>m. ok (stream m)) (\<lambda>m. items (stream m)) (\<lambda>m. todo (stream m))"
  by unfold_locales (erule poll_cases; simp add: inspect_poll_def split: prod.split)

lemma take_while_stream:
  "async_stream (take_while_poll f poll) (\<lambda>m. ok (stream m)) (\<lambda>m. take_while_fn f (clos m) (items (stream m))) (\<lambda>m. todo (stream m))"
  by unfold_locales (erule poll_cases; simp add: take_while_poll_def split: prod.split)

lemma scan_stream:
  fixes f :: "('f, 'a, 'b option) fnmut"
  shows "async_stream (scan_poll f poll) (\<lambda>m. ok (stream m)) (\<lambda>m. scan_fn f (clos m) (items (stream m))) (\<lambda>m. todo (stream m))"
proof
  fix m :: "('s, 'f) StreamF"
  assume "ok (stream m)"
  then show "\<exists>r s'. scan_poll f poll m = Some (r, s') \<and>
    delivers (\<lambda>m. ok (stream m)) (\<lambda>m. scan_fn f (clos m) (items (stream m))) (\<lambda>m. todo (stream m)) m r s'"
  proof (cases rule: poll_cases)
    case (item x s')
    then show ?thesis
      by (cases "fst (f (clos m) x)") (auto simp: scan_poll_def split: prod.split)
  qed (simp_all add: scan_poll_def)
qed

lemma take_stream:
  "async_stream (take_poll poll) (\<lambda>t. ok (nstream t)) (\<lambda>t. take (num t) (items (nstream t))) (\<lambda>t. todo (nstream t))"
proof
  fix t :: "'s StreamN"
  assume "ok (nstream t)"
  then show "\<exists>r s'. take_poll poll t = Some (r, s') \<and>
    delivers (\<lambda>t. ok (nstream t)) (\<lambda>t. take (num t) (items (nstream t))) (\<lambda>t. todo (nstream t)) t r s'"
    by (cases rule: poll_cases; cases "num t") (simp_all add: take_poll_def)
qed

lemma enumerate_stream:
  "async_stream (enumerate_poll poll) (\<lambda>t. ok (nstream t)) (\<lambda>t. enumerate_fn (num t) (items (nstream t))) (\<lambda>t. todo (nstream t))"
  by unfold_locales (erule poll_cases; simp add: enumerate_poll_def)

lemma skip_polls:
  "ok (nstream t) \<Longrightarrow> \<exists>r s'. skip_poll poll t = Some (r, s') \<and>
    delivers (\<lambda>t. ok (nstream t)) (\<lambda>t. drop (num t) (items (nstream t))) (\<lambda>t. todo (nstream t)) t r s'"
proof (induction "todo (nstream t)" arbitrary: t rule: less_induct)
  case less
  from less.prems show ?case
  proof (cases rule: poll_cases)
    case (item x s')
    show ?thesis
    proof (cases "num t")
      case 0
      with item show ?thesis by (subst skip_poll.simps) simp
    next
      case (Suc k)
      from less.hyps [of "\<lparr>nstream = s', num = k\<rparr>"] item obtain r t' where
        r: "skip_poll poll \<lparr>nstream = s', num = k\<rparr> = Some (r, t')"
        "delivers (\<lambda>t. ok (nstream t)) (\<lambda>t. drop (num t) (items (nstream t))) (\<lambda>t. todo (nstream t)) \<lparr>nstream = s', num = k\<rparr> r t'"
        by auto
      have "delivers (\<lambda>t. ok (nstream t)) (\<lambda>t. drop (num t) (items (nstream t))) (\<lambda>t. todo (nstream t)) t r t'"
        by (rule delivers_mono [OF r(2)]) (use item Suc in auto)
      with r(1) item Suc show ?thesis by (subst skip_poll.simps) simp
    qed
  qed (subst skip_poll.simps, simp)+
qed

lemma skip_stream:
  "async_stream (skip_poll poll) (\<lambda>t. ok (nstream t)) (\<lambda>t. drop (num t) (items (nstream t))) (\<lambda>t. todo (nstream t))"
  by unfold_locales (rule skip_polls)

lemma skip_while_polls:
  fixes t :: "('s, 'f) SkipWhile" and f :: "('f, 'a, bool) fnmut"
  defines "it \<equiv> \<lambda>t. (case predicate t of None \<Rightarrow> items (sw_stream t) | Some c \<Rightarrow> skip_while_fn f c (items (sw_stream t)))"
  shows "ok (sw_stream t) \<Longrightarrow> \<exists>r s'. skip_while_poll f poll t = Some (r, s') \<and>
    delivers (\<lambda>t. ok (sw_stream t)) it (\<lambda>t. todo (sw_stream t)) t r s'"
proof (induction "todo (sw_stream t)" arbitrary: t rule: less_induct)
  case less
  from less.prems show ?case
  proof (cases rule: poll_cases)
    case (item x s')
    show ?thesis
    proof (cases "\<exists>c. predicate t = Some c \<and> fst (f c x)")
      case False
      with item show ?thesis
        by (subst skip_while_poll.simps) (auto simp: it_def split: option.split prod.split)
    next
      case True
      then obtain c c' where c: "predicate t = Some c" "f c x = (True, c')" by (metis (full_types) eq_fst_iff)
      from less.hyps [of "\<lparr>sw_stream = s', predicate = Some c'\<rparr>"] item obtain r t' where
        r: "skip_while_poll f poll \<lparr>sw_stream = s', predicate = Some c'\<rparr> = Some (r, t')"
        "delivers (\<lambda>t. ok (sw_stream t)) it (\<lambda>t. todo (sw_stream t)) \<lparr>sw_stream = s', predicate = Some c'\<rparr> r t'"
        by auto
      have "delivers (\<lambda>t. ok (sw_stream t)) it (\<lambda>t. todo (sw_stream t)) t r t'"
        by (rule delivers_mono [OF r(2)]) (use item c in \<open>auto simp: it_def\<close>)
      with r(1) item c show ?thesis by (subst skip_while_poll.simps) simp
    qed
  qed (subst skip_while_poll.simps, simp add: it_def split: option.split)+
qed

lemma skip_while_stream:
  "async_stream (skip_while_poll f poll) (\<lambda>t. ok (sw_stream t))
     (\<lambda>t. (case predicate t of None \<Rightarrow> items (sw_stream t) | Some c \<Rightarrow> skip_while_fn f c (items (sw_stream t))))
     (\<lambda>t. todo (sw_stream t))"
  by unfold_locales (rule skip_while_polls)

lemma step_by_polls:
  "ok (sb_stream t) \<Longrightarrow> \<exists>r s'. step_by_poll poll t = Some (r, s') \<and>
    delivers (\<lambda>t. ok (sb_stream t)) (\<lambda>t. step_fn (step t) (sb_i t) (items (sb_stream t))) (\<lambda>t. todo (sb_stream t)) t r s'"
proof (induction "todo (sb_stream t)" arbitrary: t rule: less_induct)
  case less
  let ?it = "\<lambda>t. step_fn (step t) (sb_i t) (items (sb_stream t))"
  from less.prems show ?case
  proof (cases rule: poll_cases)
    case (item x s')
    show ?thesis
    proof (cases "sb_i t")
      case 0
      with item show ?thesis by (subst step_by_poll.simps) simp
    next
      case (Suc k)
      let ?t = "t\<lparr>sb_stream := s', sb_i := k\<rparr>"
      from less.hyps [of ?t] item obtain r t' where
        r: "step_by_poll poll ?t = Some (r, t')" "delivers (\<lambda>t. ok (sb_stream t)) ?it (\<lambda>t. todo (sb_stream t)) ?t r t'"
        by auto
      have "delivers (\<lambda>t. ok (sb_stream t)) ?it (\<lambda>t. todo (sb_stream t)) t r t'"
        by (rule delivers_mono [OF r(2)]) (use item Suc in auto)
      with r(1) item Suc show ?thesis by (subst step_by_poll.simps) simp
    qed
  qed (subst step_by_poll.simps, simp)+
qed

lemma step_by_stream:
  "async_stream (step_by_poll poll) (\<lambda>t. ok (sb_stream t)) (\<lambda>t. step_fn (step t) (sb_i t) (items (sb_stream t)))
     (\<lambda>t. todo (sb_stream t))"
  by unfold_locales (rule step_by_polls)

end

text \<open>A fused stream is at its end once it has reported it.\<close>

definition fuse_ok :: "('s \<Rightarrow> bool) \<Rightarrow> 's Fuse \<Rightarrow> bool" where
  "fuse_ok ok t \<longleftrightarrow> fdone t \<or> ok (fstream t)"

definition fuse_items :: "('s \<Rightarrow> 'a list) \<Rightarrow> 's Fuse \<Rightarrow> 'a list" where
  "fuse_items items t = (if fdone t then [] else items (fstream t))"

definition fuse_todo :: "('s \<Rightarrow> nat) \<Rightarrow> 's Fuse \<Rightarrow> nat" where
  "fuse_todo todo t = (if fdone t then 0 else Suc (todo (fstream t)))"

lemmas fuse_defs = fuse_ok_def fuse_items_def fuse_todo_def

context async_stream
begin

lemma fuse_cases:
  assumes "fuse_ok ok t"
  obtains (pending) t' where "fuse_poll poll t = Some (Pending, t')" "fuse_ok ok t'" "\<not> fdone t'"
      "fuse_items items t' = fuse_items items t" "fuse_todo todo t' < fuse_todo todo t"
  | (finished) t' where "fuse_poll poll t = Some (Ready None, t')" "fdone t'" "fuse_items items t = []"
      "\<not> fdone t \<longrightarrow> fuse_todo todo t' < fuse_todo todo t"
  | (item) x t' where "fuse_poll poll t = Some (Ready (Some x), t')" "fuse_ok ok t'" "\<not> fdone t'" "\<not> fdone t"
      "fuse_items items t = x # fuse_items items t'" "fuse_todo todo t' < fuse_todo todo t"
proof (cases "fdone t")
  case True
  with finished show thesis by (simp add: fuse_poll_def fuse_items_def)
next
  case False
  with assms have "ok (fstream t)" by (simp add: fuse_ok_def)
  then show thesis
  proof (cases rule: poll_cases)
    case (pending s')
    with False that(1) [of "t\<lparr>fstream := s'\<rparr>"] show thesis by (simp add: fuse_poll_def fuse_defs)
  next
    case (finished s')
    with False that(2) [of "\<lparr>fstream = s', fdone = True\<rparr>"] show thesis by (simp add: fuse_poll_def fuse_defs)
  next
    case (item x s')
    with False that(3) [of x "t\<lparr>fstream := s'\<rparr>"] show thesis by (simp add: fuse_poll_def fuse_defs)
  qed
qed

lemma fuse_stream: "async_stream (fuse_poll poll) (fuse_ok ok) (fuse_items items) (fuse_todo todo)"
  by unfold_locales (erule fuse_cases; simp)

end

text \<open>Streams over two streams.\<close>

lemma chain_second_polls:
  assumes "async_stream q ok items todo" "fdone (ch_first c)" "fuse_ok ok (ch_second c)"
  shows "\<exists>r c'. chain_stream_second q c = Some (r, c') \<and> ch_first c' = ch_first c \<and>
    delivers (\<lambda>c. fuse_ok ok (ch_second c)) (\<lambda>c. fuse_items items (ch_second c)) (\<lambda>c. fuse_todo todo (ch_second c)) c r c'"
proof (cases rule: async_stream.fuse_cases [OF assms(1,3), case_names pending finished item])
  case (finished t')
  with assms(2) show ?thesis
    by (auto simp: chain_stream_second_def chain_stream_end_def)
qed (auto simp: chain_stream_second_def fuse_items_def chain_stream_end_def assms(2) fuse_todo_def)

lemma chain_stream:
  assumes p: "async_stream p okp ip tp" and q: "async_stream q okq iq tq"
  shows "async_stream (chain_stream_poll p q) (\<lambda>c. fuse_ok okp (ch_first c) \<and> fuse_ok okq (ch_second c))
    (\<lambda>c. fuse_items ip (ch_first c) @ fuse_items iq (ch_second c)) (\<lambda>c. fuse_todo tp (ch_first c) + fuse_todo tq (ch_second c))"
    (is "async_stream _ ?ok ?it ?td")
proof
  fix c
  assume ok: "?ok c"
  have second: "\<exists>r c''. chain_stream_second q c' = Some (r, c'') \<and> delivers ?ok ?it ?td c r c''"
    if c': "fdone (ch_first c')" "ch_second c' = ch_second c" "fuse_items ip (ch_first c) = []" for c'
  proof -
    have ok': "fuse_ok okq (ch_second c')" using ok c' by simp
    from chain_second_polls [OF q c'(1) ok'] obtain r c'' where r: "chain_stream_second q c' = Some (r, c'')" "ch_first c'' = ch_first c'"
      "delivers (\<lambda>c. fuse_ok okq (ch_second c)) (\<lambda>c. fuse_items iq (ch_second c)) (\<lambda>c. fuse_todo tq (ch_second c)) c' r c''"
      by blast
    have "fuse_items ip (ch_first c'') = []" "fuse_todo tp (ch_first c'') = 0" "fuse_ok okp (ch_first c'')"
      using r(2) c' by (simp_all add: fuse_defs)
    then have "delivers ?ok ?it ?td c r c''"
      using r(3) c' by (cases r rule: poll_option_cases) auto
    with r(1) show ?thesis by blast
  qed
  show "\<exists>r c'. chain_stream_poll p q c = Some (r, c') \<and> delivers ?ok ?it ?td c r c'"
  proof (cases "fdone (ch_first c)")
    case True
    with second [of c] show ?thesis by (simp add: chain_stream_poll_def fuse_items_def)
  next
    case False
    from ok have "fuse_ok okp (ch_first c)" by simp
    then show ?thesis
    proof (cases rule: async_stream.fuse_cases [OF p, consumes 1, case_names pending finished item])
      case (finished s')
      with second [of "c\<lparr>ch_first := s'\<rparr>"] False show ?thesis by (simp add: chain_stream_poll_def)
    qed (use False ok in \<open>simp_all add: chain_stream_poll_def\<close>)
  qed
qed

lemma zip_stream:
  assumes p: "async_stream p okp ip tp" and q: "async_stream q okq iq tq"
  shows "async_stream (zip_poll p q) (\<lambda>z. okp (zfirst z) \<and> okq (zsecond z))
    (\<lambda>z. zip ((case item_slot z of None \<Rightarrow> [] | Some x \<Rightarrow> [x]) @ ip (zfirst z)) (iq (zsecond z)))
    (\<lambda>z. tp (zfirst z) + tq (zsecond z))" (is "async_stream _ ?ok ?it ?td")
proof
  fix z
  assume ok: "?ok z"
  have second: "\<exists>r z''. zip_second q x z' = Some (r, z'') \<and> delivers ?ok ?it ?td z' r z''"
    if z': "item_slot z' = Some x" "?ok z'" for x z'
  proof -
    have "okq (zsecond z')" using z' by simp
    then show ?thesis
      by (cases rule: async_stream.poll_cases [OF q, consumes 1, case_names pending finished item])
        (use z' in \<open>simp_all add: zip_second_def\<close>)
  qed
  show "\<exists>r z'. zip_poll p q z = Some (r, z') \<and> delivers ?ok ?it ?td z r z'"
  proof (cases "item_slot z")
    case (Some x)
    with second [OF Some ok] show ?thesis by (simp add: zip_poll_def)
  next
    case None
    from ok have "okp (zfirst z)" by simp
    then show ?thesis
    proof (cases rule: async_stream.poll_cases [OF p, consumes 1, case_names pending finished item])
      case (item x s')
      let ?z = "z\<lparr>zfirst := s', item_slot := Some x\<rparr>"
      from second [of ?z x] item ok obtain r z' where r: "zip_second q x ?z = Some (r, z')" "delivers ?ok ?it ?td ?z r z'" by auto
      have "delivers ?ok ?it ?td z r z'"
        by (rule delivers_mono [OF r(2)]) (use item None in auto)
      with r(1) item None show ?thesis by (simp add: zip_poll_def)
    qed (use None ok in \<open>simp_all add: zip_poll_def\<close>)
  qed
qed

text \<open>The items of a flattened stream are those of the open inner stream and of all inner streams to
  come.\<close>

definition flatten_ok :: "('s \<Rightarrow> bool) \<Rightarrow> ('s \<Rightarrow> 't list) \<Rightarrow> ('t \<Rightarrow> bool) \<Rightarrow> ('s, 't) Flatten \<Rightarrow> bool" where
  "flatten_ok okp ip okq fl \<longleftrightarrow> okp (outer fl) \<and> list_all okq (ip (outer fl)) \<and> pred_option okq (inner_stream fl)"

definition flatten_items :: "('s \<Rightarrow> 't list) \<Rightarrow> ('t \<Rightarrow> 'a list) \<Rightarrow> ('s, 't) Flatten \<Rightarrow> 'a list" where
  "flatten_items ip iq fl = concat (map iq ((case inner_stream fl of None \<Rightarrow> [] | Some t \<Rightarrow> [t]) @ ip (outer fl)))"

definition flatten_todo :: "('s \<Rightarrow> 't list) \<Rightarrow> ('s \<Rightarrow> nat) \<Rightarrow> ('t \<Rightarrow> nat) \<Rightarrow> ('s, 't) Flatten \<Rightarrow> nat" where
  "flatten_todo ip tp tq fl = tp (outer fl) + sum_list (map tq ((case inner_stream fl of None \<Rightarrow> [] | Some t \<Rightarrow> [t]) @ ip (outer fl)))"

lemmas flatten_defs = flatten_ok_def flatten_items_def flatten_todo_def

lemma flatten_polls:
  assumes p: "async_stream p okp ip tp" and q: "async_stream q okq iq tq"
  defines "dl \<equiv> delivers (flatten_ok okp ip okq) (flatten_items ip iq) (flatten_todo ip tp tq)"
  shows "flatten_ok okp ip okq fl \<Longrightarrow> \<exists>r fl'. flatten_poll p q fl = Some (r, fl') \<and> dl fl r fl'"
proof (induction "tp (outer fl)" arbitrary: fl rule: less_induct)
  case less
  have outer: "\<exists>r fl'. (case p (outer fl) of
        None \<Rightarrow> None
      | Some (Pending, s) \<Rightarrow> Some (Pending, f0\<lparr>outer := s\<rparr>)
      | Some (Ready None, s) \<Rightarrow> Some (Ready None, f0\<lparr>outer := s\<rparr>)
      | Some (Ready (Some t), s) \<Rightarrow> flatten_poll p q \<lparr>outer = s, inner_stream = Some t\<rparr>) = Some (r, fl') \<and> dl fl r fl'"
    if none: "flatten_items ip iq fl = concat (map iq (ip (outer fl)))" and f0: "f0 = fl\<lparr>inner_stream := None\<rparr>" for f0
  proof -
    from less.prems have "okp (outer fl)" by (simp add: flatten_ok_def)
    then show ?thesis
    proof (cases rule: async_stream.poll_cases [OF p, consumes 1, case_names pending finished item])
      case (pending s')
      with less.prems none f0 show ?thesis
        by (auto simp: dl_def flatten_defs split: option.splits)
    next
      case (finished s')
      with none show ?thesis by (simp add: dl_def)
    next
      case (item t s')
      let ?fl = "\<lparr>outer = s', inner_stream = Some t\<rparr>"
      have "flatten_ok okp ip okq ?fl"
        using item less.prems by (simp add: flatten_ok_def)
      with less.hyps [of ?fl] item obtain r fl' where r: "flatten_poll p q ?fl = Some (r, fl')" "dl ?fl r fl'" by auto
      have "dl fl r fl'"
        unfolding dl_def
        by (rule delivers_mono [OF r(2) [unfolded dl_def]]) (use item none in \<open>auto simp: flatten_defs split: option.split\<close>)
      with r(1) item show ?thesis by simp
    qed
  qed
  show ?case
  proof (cases "inner_stream fl")
    case None
    then have "fl = fl\<lparr>inner_stream := None\<rparr>" by simp
    with outer [of fl] None show ?thesis
      by (subst flatten_poll.simps) (simp add: flatten_inner_def flatten_items_def)
  next
    case (Some t)
    with less.prems have "okq t" by (simp add: flatten_ok_def)
    then show ?thesis
    proof (cases rule: async_stream.poll_cases [OF q, consumes 1, case_names pending finished item])
      case (finished t')
      with outer [of "fl\<lparr>inner_stream := None\<rparr>"] Some show ?thesis
        by (subst flatten_poll.simps) (simp add: flatten_inner_def flatten_items_def)
    qed (use Some less.prems in \<open>subst flatten_poll.simps, simp add: flatten_inner_def dl_def flatten_defs\<close>)+
  qed
qed

lemma flatten_stream:
  assumes "async_stream p okp ip tp" "async_stream q okq iq tq"
  shows "async_stream (flatten_poll p q) (flatten_ok okp ip okq) (flatten_items ip iq) (flatten_todo ip tp tq)"
  using flatten_polls [OF assms] by unfold_locales

text \<open>A cycle over a stream that has items never ends and starts over behind the last item.\<close>

lemma cycle_never_ends:
  assumes p: "async_stream p ok items todo" and ok: "ok (orig c)" "ok (source c)" and ne: "items (orig c) \<noteq> []"
  shows "\<exists>r c'. cycle_poll p c = Some (r, c') \<and> orig c' = orig c \<and> ok (source c') \<and> r \<noteq> Ready None \<and>
    (\<forall>x. r = Ready (Some x) \<longrightarrow> x # items (source c') = (if items (source c) = [] then items (orig c) else items (source c)))"
  using ok(2)
proof (cases rule: async_stream.poll_cases [OF p, consumes 1, case_names pending finished item])
  case (finished s')
  from ok(1) show ?thesis
    by (cases rule: async_stream.poll_cases [OF p, consumes 1, case_names pending finished item])
      (use finished ne in \<open>simp_all add: cycle_poll_def\<close>)
qed (use ok in \<open>simp_all add: cycle_poll_def\<close>)

subsection \<open>Properties\<close>

text \<open>
  C30: the adaptors of one stream do what the list functions of the same names do. Over any stream
  that keeps the contract, however often its polls are pending, polling the adaptor until it ends
  takes no more polls than the stream itself and delivers exactly the mapped, filtered, limited or
  skipped items, in order.
\<close>

theorem adaptors_like_lists:
  assumes "async_stream p ok items todo" "ok s" "todo s < n"
  shows "drain n (map_poll (pure f) p) \<lparr>stream = s, clos = ()\<rparr> = Some (map f (items s)) \<and>
    drain n (filter_poll (pure P) p) \<lparr>stream = s, clos = ()\<rparr> = Some (filter P (items s)) \<and>
    drain n (filter_map_poll (pure g) p) \<lparr>stream = s, clos = ()\<rparr> = Some (List.map_filter g (items s)) \<and>
    drain n (take_while_poll (pure P) p) \<lparr>stream = s, clos = ()\<rparr> = Some (takeWhile P (items s)) \<and>
    drain n (skip_while_poll (pure P) p) \<lparr>sw_stream = s, predicate = Some ()\<rparr> = Some (dropWhile P (items s)) \<and>
    drain n (take_poll p) \<lparr>nstream = s, num = k\<rparr> = Some (take k (items s)) \<and>
    drain n (skip_poll p) \<lparr>nstream = s, num = k\<rparr> = Some (drop k (items s))"
  using async_stream.drain_items [OF async_stream.map_stream [OF assms(1)], of "\<lparr>stream = s, clos = ()\<rparr>" n "pure f"]
    async_stream.drain_items [OF async_stream.filter_stream [OF assms(1)], of "\<lparr>stream = s, clos = ()\<rparr>" n "pure P"]
    async_stream.drain_items [OF async_stream.filter_map_stream [OF assms(1)], of "\<lparr>stream = s, clos = ()\<rparr>" n "pure g"]
    async_stream.drain_items [OF async_stream.take_while_stream [OF assms(1)], of "\<lparr>stream = s, clos = ()\<rparr>" n "pure P"]
    async_stream.drain_items [OF async_stream.skip_while_stream [OF assms(1)], of "\<lparr>sw_stream = s, predicate = Some ()\<rparr>" n "pure P"]
    async_stream.drain_items [OF async_stream.take_stream [OF assms(1)], of "\<lparr>nstream = s, num = k\<rparr>" n]
    async_stream.drain_items [OF async_stream.skip_stream [OF assms(1)], of "\<lparr>nstream = s, num = k\<rparr>" n]
    assms(2,3)
  by simp

theorem adaptors_like_lists_witness:
  "drain 4 (filter_poll (pure (\<lambda>x. x \<noteq> 2)) from_iter_poll) \<lparr>stream = [1, 2, 3 :: nat], clos = ()\<rparr> = Some [1, 3]"
  using adaptors_like_lists [OF iter.async_stream_axioms, of "[1, 2, 3 :: nat]" 4 id "\<lambda>x. x \<noteq> 2" Some 0] by simp

text \<open>
  C31: the adaptors of two streams. Chaining delivers the items of the first stream and then those
  of the second, zipping the pairs of items up to the end of the shorter stream, and \<open>flat_map\<close> the
  items of the streams the closure makes, one after the other; a poll of one stream that is pending
  loses no item of the other.
\<close>

theorem combinators_like_lists:
  assumes "async_stream p okp ip tp" "async_stream q okq iq tq" "okp s" "okq t" "tp s + tq t + 2 < n"
    "\<And>x. okq (g x)" "tp s + sum_list (map (\<lambda>x. tq (g x)) (ip s)) < m"
  shows "drain n (chain_stream_poll p q) (chain_stream_new s t) = Some (ip s @ iq t) \<and>
    drain n (zip_poll p q) \<lparr>item_slot = None, zfirst = s, zsecond = t\<rparr> = Some (zip (ip s) (iq t)) \<and>
    drain m (flat_map_poll (pure g) p q) \<lparr>outer = \<lparr>stream = s, clos = ()\<rparr>, inner_stream = None\<rparr> = Some (concat (map (\<lambda>x. iq (g x)) (ip s)))"
  using async_stream.drain_items [OF chain_stream [OF assms(1,2)], of "chain_stream_new s t" n]
    async_stream.drain_items [OF zip_stream [OF assms(1,2)], of "\<lparr>item_slot = None, zfirst = s, zsecond = t\<rparr>" n]
    async_stream.drain_items [OF flatten_stream [OF async_stream.map_stream [OF assms(1), of "pure g"] assms(2)],
      of "\<lparr>outer = \<lparr>stream = s, clos = ()\<rparr>, inner_stream = None\<rparr>" m] assms(3-)
  by (simp add: chain_stream_new_def fuse_defs flatten_defs flat_map_poll_def list_all_iff comp_def)

theorem combinators_like_lists_witness:
  "drain 9 (zip_poll from_iter_poll from_iter_poll) \<lparr>item_slot = None, zfirst = [1, 2 :: nat], zsecond = [7, 8, 9 :: nat]\<rparr>
     = Some [(1, 7), (2, 8)]"
  using combinators_like_lists [OF iter.async_stream_axioms iter.async_stream_axioms,
      of "[1, 2 :: nat]" "[7, 8, 9 :: nat]" 9 "\<lambda>_. []" 3]
  by simp

end
