(* ===== verification/Stream_Futures.thy ===== *)
theory Stream_Futures
  imports Streams
begin

section \<open>Futures over streams\<close>

text \<open>
  The futures that consume a stream (\<open>async_io/src/stream/stream\<close> and
  \<open>async_io/src/stream/double_ended_stream\<close>): searches, folds, extrema and comparisons. Many of them
  look at one item per poll and are pending until the next; a pending task that is still running
  goes back to the ready queue, so it is polled again. The locale \<open>async_future\<close> is the contract of
  a future whose result is known and which needs a bounded number of polls.
\<close>

type_synonym ('s, 'r) future = "'s \<Rightarrow> ('r poll \<times> 's) option"

datatype Ordering = Less | Equal | Greater

subsection \<open>Searches\<close>

definition all_poll :: "('f, 'a, bool) fnmut \<Rightarrow> ('s, 'a) stream \<Rightarrow> (('s, 'f) StreamF, bool) future" where
  "all_poll f p m =
     (case p (stream m) of
        None \<Rightarrow> None
      | Some (Pending, s) \<Rightarrow> Some (Pending, m\<lparr>stream := s\<rparr>)
      | Some (Ready None, s) \<Rightarrow> Some (Ready True, m\<lparr>stream := s\<rparr>)
      | Some (Ready (Some x), s) \<Rightarrow>
          (case f (clos m) x of (b, c) \<Rightarrow> Some (if b then Pending else Ready False, \<lparr>stream = s, clos = c\<rparr>)))"

definition any_poll :: "('f, 'a, bool) fnmut \<Rightarrow> ('s, 'a) stream \<Rightarrow> (('s, 'f) StreamF, bool) future" where
  "any_poll f p m =
     (case p (stream m) of
        None \<Rightarrow> None
      | Some (Pending, s) \<Rightarrow> Some (Pending, m\<lparr>stream := s\<rparr>)
      | Some (Ready None, s) \<Rightarrow> Some (Ready False, m\<lparr>stream := s\<rparr>)
      | Some (Ready (Some x), s) \<Rightarrow>
          (case f (clos m) x of (b, c) \<Rightarrow> Some (if b then Ready True else Pending, \<lparr>stream = s, clos = c\<rparr>)))"

definition find_poll :: "('f, 'a, bool) fnmut \<Rightarrow> ('s, 'a) stream \<Rightarrow> (('s, 'f) StreamF, 'a option) future" where
  "find_poll f p m =
     (case p (stream m) of
        None \<Rightarrow> None
      | Some (Pending, s) \<Rightarrow> Some (Pending, m\<lparr>stream := s\<rparr>)
      | Some (Ready None, s) \<Rightarrow> Some (Ready None, m\<lparr>stream := s\<rparr>)
      | Some (Ready (Some x), s) \<Rightarrow>
          (case f (clos m) x of (b, c) \<Rightarrow> Some (if b then Ready (Some x) else Pending, \<lparr>stream = s, clos = c\<rparr>)))"

definition find_map_poll :: "('f, 'a, 'b option) fnmut \<Rightarrow> ('s, 'a) stream \<Rightarrow> (('s, 'f) StreamF, 'b option) future" where
  "find_map_poll f p m =
     (case p (stream m) of
        None \<Rightarrow> None
      | Some (Pending, s) \<Rightarrow> Some (Pending, m\<lparr>stream := s\<rparr>)
      | Some (Ready None, s) \<Rightarrow> Some (Ready None, m\<lparr>stream := s\<rparr>)
      | Some (Ready (Some x), s) \<Rightarrow>
          (case f (clos m) x of (b, c) \<Rightarrow>
             Some (case b of Some y \<Rightarrow> Ready (Some y) | None \<Rightarrow> Pending, \<lparr>stream = s, clos = c\<rparr>)))"

record ('s, 'f) PositionFuture =
  pos_stream :: 's
  pos_pred :: 'f
  index :: nat

definition position_poll :: "('f, 'a, bool) fnmut \<Rightarrow> ('s, 'a) stream \<Rightarrow> (('s, 'f) PositionFuture, nat option) future" where
  "position_poll f p m =
     (case p (pos_stream m) of
        None \<Rightarrow> None
      | Some (Pending, s) \<Rightarrow> Some (Pending, m\<lparr>pos_stream := s\<rparr>)
      | Some (Ready None, s) \<Rightarrow> Some (Ready None, m\<lparr>pos_stream := s\<rparr>)
      | Some (Ready (Some x), s) \<Rightarrow>
          (case f (pos_pred m) x of (b, c) \<Rightarrow>
             if b then Some (Ready (Some (index m)), \<lparr>pos_stream = s, pos_pred = c, index = index m\<rparr>)
             else Some (Pending, \<lparr>pos_stream = s, pos_pred = c, index = uadd (index m) 1\<rparr>)))"

definition nth_poll :: "('s, 'a) stream \<Rightarrow> ('s StreamN, 'a option) future" where
  "nth_poll p t =
     (case p (nstream t) of
        None \<Rightarrow> None
      | Some (Pending, s) \<Rightarrow> Some (Pending, t\<lparr>nstream := s\<rparr>)
      | Some (Ready None, s) \<Rightarrow> Some (Ready None, t\<lparr>nstream := s\<rparr>)
      | Some (Ready (Some x), s) \<Rightarrow>
          if num t = 0 then Some (Ready (Some x), t\<lparr>nstream := s\<rparr>) else Some (Pending, \<lparr>nstream = s, num = num t - 1\<rparr>))"

subsection \<open>Folds\<close>

definition count_poll :: "('s, 'a) stream \<Rightarrow> ('s StreamN, nat) future" where
  "count_poll p t =
     (case p (nstream t) of
        None \<Rightarrow> None
      | Some (Pending, s) \<Rightarrow> Some (Pending, t\<lparr>nstream := s\<rparr>)
      | Some (Ready None, s) \<Rightarrow> Some (Ready (num t), t\<lparr>nstream := s\<rparr>)
      | Some (Ready (Some x), s) \<Rightarrow> Some (Pending, \<lparr>nstream = s, num = uadd (num t) 1\<rparr>))"

record ('s, 'm) HeldFuture =
  hstream :: 's
  held :: "'m option"

definition last_poll :: "('s, 'a) stream \<Rightarrow> (('s, 'a) HeldFuture, 'a option) future" where
  "last_poll p t =
     (case p (hstream t) of
        None \<Rightarrow> None
      | Some (Pending, s) \<Rightarrow> Some (Pending, t\<lparr>hstream := s\<rparr>)
      | Some (Ready None, s) \<Rightarrow> Some (Ready (held t), t\<lparr>hstream := s\<rparr>)
      | Some (Ready (Some x), s) \<Rightarrow> Some (Pending, \<lparr>hstream = s, held = Some x\<rparr>))"

text \<open>The accumulator is taken out and put back; taking it twice would panic.\<close>

record ('s, 'f, 'b) FoldFuture =
  fo_stream :: 's
  fo_f :: 'f
  acc :: "'b option"

partial_function (option) fold_poll ::
  "('f, 'b \<times> 'a, 'b) fnmut \<Rightarrow> ('s, 'a) stream \<Rightarrow> ('s, 'f, 'b) FoldFuture \<Rightarrow> ('b poll \<times> ('s, 'f, 'b) FoldFuture) option" where
  "fold_poll f p t =
     (case p (fo_stream t) of
        None \<Rightarrow> None
      | Some (Pending, s) \<Rightarrow> Some (Pending, t\<lparr>fo_stream := s\<rparr>)
      | Some (Ready None, s) \<Rightarrow>
          (case acc t of None \<Rightarrow> None | Some a \<Rightarrow> Some (Ready a, t\<lparr>fo_stream := s, acc := None\<rparr>))
      | Some (Ready (Some x), s) \<Rightarrow>
          (case acc t of
             None \<Rightarrow> None
           | Some a \<Rightarrow> fold_poll f p \<lparr>fo_stream = s, fo_f = snd (f (fo_f t) (a, x)), acc = Some (fst (f (fo_f t) (a, x)))\<rparr>))"

partial_function (option) try_fold_poll ::
  "('f, 'b \<times> 'a, 'e + 'b) fnmut \<Rightarrow> ('s, 'a) stream \<Rightarrow> ('s, 'f, 'b) FoldFuture \<Rightarrow> (('e + 'b) poll \<times> ('s, 'f, 'b) FoldFuture) option" where
  "try_fold_poll f p t =
     (case p (fo_stream t) of
        None \<Rightarrow> None
      | Some (Pending, s) \<Rightarrow> Some (Pending, t\<lparr>fo_stream := s\<rparr>)
      | Some (Ready None, s) \<Rightarrow>
          (case acc t of None \<Rightarrow> None | Some a \<Rightarrow> Some (Ready (Inr a), t\<lparr>fo_stream := s, acc := None\<rparr>))
      | Some (Ready (Some x), s) \<Rightarrow>
          (case acc t of
             None \<Rightarrow> None
           | Some a \<Rightarrow>
               (case fst (f (fo_f t) (a, x)) of
                  Inl e \<Rightarrow> Some (Ready (Inl e), \<lparr>fo_stream = s, fo_f = snd (f (fo_f t) (a, x)), acc = None\<rparr>)
                | Inr b \<Rightarrow> try_fold_poll f p \<lparr>fo_stream = s, fo_f = snd (f (fo_f t) (a, x)), acc = Some b\<rparr>)))"

partial_function (option) for_each_poll ::
  "('f, 'a, unit) fnmut \<Rightarrow> ('s, 'a) stream \<Rightarrow> ('s, 'f) StreamF \<Rightarrow> (unit poll \<times> ('s, 'f) StreamF) option" where
  "for_each_poll f p t =
     (case p (stream t) of
        None \<Rightarrow> None
      | Some (Pending, s) \<Rightarrow> Some (Pending, t\<lparr>stream := s\<rparr>)
      | Some (Ready None, s) \<Rightarrow> Some (Ready (), t\<lparr>stream := s\<rparr>)
      | Some (Ready (Some x), s) \<Rightarrow> for_each_poll f p \<lparr>stream = s, clos = snd (f (clos t) x)\<rparr>)"

partial_function (option) try_for_each_poll ::
  "('f, 'a, 'e + unit) fnmut \<Rightarrow> ('s, 'a) stream \<Rightarrow> ('s, 'f) StreamF \<Rightarrow> (('e + unit) poll \<times> ('s, 'f) StreamF) option" where
  "try_for_each_poll f p t =
     (case p (stream t) of
        None \<Rightarrow> None
      | Some (Pending, s) \<Rightarrow> Some (Pending, t\<lparr>stream := s\<rparr>)
      | Some (Ready None, s) \<Rightarrow> Some (Ready (Inr ()), t\<lparr>stream := s\<rparr>)
      | Some (Ready (Some x), s) \<Rightarrow>
          (case fst (f (clos t) x) of
             Inl e \<Rightarrow> Some (Ready (Inl e), \<lparr>stream = s, clos = snd (f (clos t) x)\<rparr>)
           | Inr _ \<Rightarrow> try_for_each_poll f p \<lparr>stream = s, clos = snd (f (clos t) x)\<rparr>))"

text \<open>The two collections of \<open>partition\<close> and \<open>unzip\<close> grow by \<open>Extend::extend\<close> with one item.\<close>

partial_function (option) partition_poll ::
  "('b \<Rightarrow> 'a \<Rightarrow> 'b) \<Rightarrow> ('f, 'a, bool) fnmut \<Rightarrow> ('s, 'a) stream \<Rightarrow> ('s, 'f, 'b \<times> 'b) FoldFuture
     \<Rightarrow> (('b \<times> 'b) poll \<times> ('s, 'f, 'b \<times> 'b) FoldFuture) option" where
  "partition_poll ext f p t =
     (case p (fo_stream t) of
        None \<Rightarrow> None
      | Some (Pending, s) \<Rightarrow> Some (Pending, t\<lparr>fo_stream := s\<rparr>)
      | Some (Ready None, s) \<Rightarrow>
          (case acc t of None \<Rightarrow> None | Some r \<Rightarrow> Some (Ready r, t\<lparr>fo_stream := s, acc := None\<rparr>))
      | Some (Ready (Some x), s) \<Rightarrow>
          (case acc t of
             None \<Rightarrow> None
           | Some (a, b) \<Rightarrow>
               partition_poll ext f p
                 \<lparr>fo_stream = s, fo_f = snd (f (fo_f t) x),
                  acc = Some (if fst (f (fo_f t) x) then (ext a x, b) else (a, ext b x))\<rparr>))"

partial_function (option) unzip_poll ::
  "('l \<Rightarrow> 'a \<Rightarrow> 'l) \<Rightarrow> ('r \<Rightarrow> 'b \<Rightarrow> 'r) \<Rightarrow> ('s, 'a \<times> 'b) stream \<Rightarrow> ('s, 'l \<times> 'r) HeldFuture
     \<Rightarrow> (('l \<times> 'r) poll \<times> ('s, 'l \<times> 'r) HeldFuture) option" where
  "unzip_poll extl extr p t =
     (case p (hstream t) of
        None \<Rightarrow> None
      | Some (Pending, s) \<Rightarrow> Some (Pending, t\<lparr>hstream := s\<rparr>)
      | Some (Ready None, s) \<Rightarrow>
          (case held t of None \<Rightarrow> None | Some r \<Rightarrow> Some (Ready r, \<lparr>hstream = s, held = None\<rparr>))
      | Some (Ready (Some (a, b)), s) \<Rightarrow>
          (case held t of
             None \<Rightarrow> None
           | Some (l, r) \<Rightarrow> unzip_poll extl extr p \<lparr>hstream = s, held = Some (extl l a, extr r b)\<rparr>))"

subsection \<open>Extrema\<close>

definition ord_cmp :: "'a::linorder \<Rightarrow> 'a \<Rightarrow> Ordering" where
  "ord_cmp x y = (if x < y then Less else if x = y then Equal else Greater)"

definition max_poll :: "('s, 'a::linorder) stream \<Rightarrow> (('s, 'a) HeldFuture, 'a option) future" where
  "max_poll p t =
     (case p (hstream t) of
        None \<Rightarrow> None
      | Some (Pending, s) \<Rightarrow> Some (Pending, t\<lparr>hstream := s\<rparr>)
      | Some (Ready None, s) \<Rightarrow> Some (Ready (held t), \<lparr>hstream = s, held = None\<rparr>)
      | Some (Ready (Some new), s) \<Rightarrow>
          Some (Pending, \<lparr>hstream = s, held =
            (case held t of
               None \<Rightarrow> Some new
             | Some old \<Rightarrow> (case ord_cmp new old of Greater \<Rightarrow> Some new | _ \<Rightarrow> Some old))\<rparr>))"

definition min_poll :: "('s, 'a::linorder) stream \<Rightarrow> (('s, 'a) HeldFuture, 'a option) future" where
  "min_poll p t =
     (case p (hstream t) of
        None \<Rightarrow> None
      | Some (Pending, s) \<Rightarrow> Some (Pending, t\<lparr>hstream := s\<rparr>)
      | Some (Ready None, s) \<Rightarrow> Some (Ready (held t), \<lparr>hstream = s, held = None\<rparr>)
      | Some (Ready (Some new), s) \<Rightarrow>
          Some (Pending, \<lparr>hstream = s, held =
            (case held t of
               None \<Rightarrow> Some new
             | Some old \<Rightarrow> (case ord_cmp new old of Less \<Rightarrow> Some new | _ \<Rightarrow> Some old))\<rparr>))"

definition max_by_poll :: "('f, 'a \<times> 'a, Ordering) fnmut \<Rightarrow> ('s, 'a) stream \<Rightarrow> (('s, 'f, 'a) FoldFuture, 'a option) future" where
  "max_by_poll compare p t =
     (case p (fo_stream t) of
        None \<Rightarrow> None
      | Some (Pending, s) \<Rightarrow> Some (Pending, t\<lparr>fo_stream := s\<rparr>)
      | Some (Ready None, s) \<Rightarrow> Some (Ready (acc t), t\<lparr>fo_stream := s, acc := None\<rparr>)
      | Some (Ready (Some new), s) \<Rightarrow>
          (case acc t of
             None \<Rightarrow> Some (Pending, t\<lparr>fo_stream := s, acc := Some new\<rparr>)
           | Some old \<Rightarrow>
               (case compare (fo_f t) (new, old) of (r, c) \<Rightarrow>
                  Some (Pending, \<lparr>fo_stream = s, fo_f = c, acc = (case r of Greater \<Rightarrow> Some new | _ \<Rightarrow> Some old)\<rparr>))))"

definition min_by_poll :: "('f, 'a \<times> 'a, Ordering) fnmut \<Rightarrow> ('s, 'a) stream \<Rightarrow> (('s, 'f, 'a) FoldFuture, 'a option) future" where
  "min_by_poll compare p t =
     (case p (fo_stream t) of
        None \<Rightarrow> None
      | Some (Pending, s) \<Rightarrow> Some (Pending, t\<lparr>fo_stream := s\<rparr>)
      | Some (Ready None, s) \<Rightarrow> Some (Ready (acc t), t\<lparr>fo_stream := s\<rparr>)
      | Some (Ready (Some new), s) \<Rightarrow>
          (case acc t of
             None \<Rightarrow> Some (Pending, t\<lparr>fo_stream := s, acc := Some new\<rparr>)
           | Some old \<Rightarrow>
               (case compare (fo_f t) (new, old) of (r, c) \<Rightarrow>
                  Some (Pending, \<lparr>fo_stream = s, fo_f = c, acc = (case r of Less \<Rightarrow> Some new | _ \<Rightarrow> Some old)\<rparr>))))"

subsection \<open>Comparisons\<close>

record ('s, 't, 'a, 'b) CmpFuture =
  cmp_l :: "'s Fuse"
  cmp_r :: "'t Fuse"
  l_cache :: "'a option"
  r_cache :: "'b option"

definition cmp_new :: "'s \<Rightarrow> 't \<Rightarrow> ('s, 't, 'a, 'b) CmpFuture" where
  "cmp_new s t = \<lparr>cmp_l = \<lparr>fstream = s, fdone = False\<rparr>, cmp_r = \<lparr>fstream = t, fdone = False\<rparr>, l_cache = None, r_cache = None\<rparr>"

text \<open>Getting the next value of one side if it is necessary: \<open>Inl\<close> when the side is pending.\<close>

definition cmp_fill_l :: "('s, 'a) stream \<Rightarrow> ('s, 't, 'a, 'b) CmpFuture \<Rightarrow> (('s, 't, 'a, 'b) CmpFuture + ('s, 't, 'a, 'b) CmpFuture) option" where
  "cmp_fill_l p c =
     (if \<not> fdone (cmp_l c) \<and> l_cache c = None then
        case fuse_poll p (cmp_l c) of
          None \<Rightarrow> None
        | Some (Pending, s) \<Rightarrow> Some (Inl (c\<lparr>cmp_l := s\<rparr>))
        | Some (Ready None, s) \<Rightarrow> Some (Inr (c\<lparr>cmp_l := s\<rparr>))
        | Some (Ready (Some x), s) \<Rightarrow> Some (Inr (c\<lparr>cmp_l := s, l_cache := Some x\<rparr>))
      else Some (Inr c))"

definition cmp_fill_r :: "('t, 'b) stream \<Rightarrow> ('s, 't, 'a, 'b) CmpFuture \<Rightarrow> (('s, 't, 'a, 'b) CmpFuture + ('s, 't, 'a, 'b) CmpFuture) option" where
  "cmp_fill_r q c =
     (if \<not> fdone (cmp_r c) \<and> r_cache c = None then
        case fuse_poll q (cmp_r c) of
          None \<Rightarrow> None
        | Some (Pending, t) \<Rightarrow> Some (Inl (c\<lparr>cmp_r := t\<rparr>))
        | Some (Ready None, t) \<Rightarrow> Some (Inr (c\<lparr>cmp_r := t\<rparr>))
        | Some (Ready (Some x), t) \<Rightarrow> Some (Inr (c\<lparr>cmp_r := t, r_cache := Some x\<rparr>))
      else Some (Inr c))"

text \<open>The loop of \<open>cmp\<close> and of \<open>partial_cmp\<close>. They differ in the type of the result and in that
  \<open>partial_cmp\<close> keeps the compared values when it returns.\<close>

partial_function (option) cmp_loop ::
  "(Ordering \<Rightarrow> 'o) \<Rightarrow> bool \<Rightarrow> ('a \<Rightarrow> 'b \<Rightarrow> 'o) \<Rightarrow> ('s, 'a) stream \<Rightarrow> ('t, 'b) stream
     \<Rightarrow> ('s, 't, 'a, 'b) CmpFuture \<Rightarrow> ('o poll \<times> ('s, 't, 'a, 'b) CmpFuture) option" where
  "cmp_loop ord keep cmp p q c =
     (if (fdone (cmp_l c) \<and> l_cache c = None) \<and> (fdone (cmp_r c) \<and> r_cache c = None) then Some (Ready (ord Equal), c)
      else if fdone (cmp_l c) \<and> l_cache c = None then Some (Ready (ord Less), c)
      else if fdone (cmp_r c) \<and> r_cache c = None then Some (Ready (ord Greater), c)
      else case cmp_fill_l p c of
        None \<Rightarrow> None
      | Some (Inl c1) \<Rightarrow> Some (Pending, c1)
      | Some (Inr c1) \<Rightarrow>
          (case cmp_fill_r q c1 of
             None \<Rightarrow> None
           | Some (Inl c2) \<Rightarrow> Some (Pending, c2)
           | Some (Inr c2) \<Rightarrow>
               (case (l_cache c2, r_cache c2) of
                  (Some x, Some y) \<Rightarrow>
                    if cmp x y = ord Equal then cmp_loop ord keep cmp p q (c2\<lparr>l_cache := None, r_cache := None\<rparr>)
                    else Some (Ready (cmp x y), if keep then c2 else c2\<lparr>l_cache := None, r_cache := None\<rparr>)
                | _ \<Rightarrow> cmp_loop ord keep cmp p q c2)))"

definition cmp_poll :: "('s, 'a::linorder) stream \<Rightarrow> ('t, 'a) stream \<Rightarrow> (('s, 't, 'a, 'a) CmpFuture, Ordering) future" where
  "cmp_poll p q = cmp_loop id False ord_cmp p q"

definition partial_cmp_poll :: "('a \<Rightarrow> 'b \<Rightarrow> Ordering option) \<Rightarrow> ('s, 'a) stream \<Rightarrow> ('t, 'b) stream
    \<Rightarrow> (('s, 't, 'a, 'b) CmpFuture, Ordering option) future" where
  "partial_cmp_poll pc p q = cmp_loop Some True pc p q"

definition cmp_test :: "(Ordering option \<Rightarrow> bool) \<Rightarrow> ('s, Ordering option) future \<Rightarrow> ('s, bool) future" where
  "cmp_test test fut c =
     (case fut c of None \<Rightarrow> None | Some (Pending, c') \<Rightarrow> Some (Pending, c') | Some (Ready r, c') \<Rightarrow> Some (Ready (test r), c'))"

definition lt_poll :: "('a \<Rightarrow> 'b \<Rightarrow> Ordering option) \<Rightarrow> ('s, 'a) stream \<Rightarrow> ('t, 'b) stream \<Rightarrow> (('s, 't, 'a, 'b) CmpFuture, bool) future" where
  "lt_poll pc p q = cmp_test (\<lambda>r. r = Some Less) (partial_cmp_poll pc p q)"

definition le_poll :: "('a \<Rightarrow> 'b \<Rightarrow> Ordering option) \<Rightarrow> ('s, 'a) stream \<Rightarrow> ('t, 'b) stream \<Rightarrow> (('s, 't, 'a, 'b) CmpFuture, bool) future" where
  "le_poll pc p q = cmp_test (\<lambda>r. r = Some Less \<or> r = Some Equal) (partial_cmp_poll pc p q)"

definition gt_poll :: "('a \<Rightarrow> 'b \<Rightarrow> Ordering option) \<Rightarrow> ('s, 'a) stream \<Rightarrow> ('t, 'b) stream \<Rightarrow> (('s, 't, 'a, 'b) CmpFuture, bool) future" where
  "gt_poll pc p q = cmp_test (\<lambda>r. r = Some Greater) (partial_cmp_poll pc p q)"

definition ge_poll :: "('a \<Rightarrow> 'b \<Rightarrow> Ordering option) \<Rightarrow> ('s, 'a) stream \<Rightarrow> ('t, 'b) stream \<Rightarrow> (('s, 't, 'a, 'b) CmpFuture, bool) future" where
  "ge_poll pc p q = cmp_test (\<lambda>r. r = Some Greater \<or> r = Some Equal) (partial_cmp_poll pc p q)"

record ('s, 't) EqFuture =
  eq_l :: "'s Fuse"
  eq_r :: "'t Fuse"

definition eq_new :: "'s \<Rightarrow> 't \<Rightarrow> ('s, 't) EqFuture" where
  "eq_new s t = \<lparr>eq_l = \<lparr>fstream = s, fdone = False\<rparr>, eq_r = \<lparr>fstream = t, fdone = False\<rparr>\<rparr>"

partial_function (option) eq_poll ::
  "('s, 'a) stream \<Rightarrow> ('t, 'a) stream \<Rightarrow> ('s, 't) EqFuture \<Rightarrow> (bool poll \<times> ('s, 't) EqFuture) option" where
  "eq_poll p q c =
     (case fuse_poll p (eq_l c) of
        None \<Rightarrow> None
      | Some (Pending, s) \<Rightarrow> Some (Pending, c\<lparr>eq_l := s\<rparr>)
      | Some (Ready lv, s) \<Rightarrow>
          (case fuse_poll q (eq_r c) of
             None \<Rightarrow> None
           | Some (Pending, t) \<Rightarrow> Some (Pending, \<lparr>eq_l = s, eq_r = t\<rparr>)
           | Some (Ready rv, t) \<Rightarrow>
               if fdone s \<and> fdone t then Some (Ready True, \<lparr>eq_l = s, eq_r = t\<rparr>)
               else if lv \<noteq> None \<and> rv \<noteq> None \<and> lv \<noteq> rv then Some (Ready False, \<lparr>eq_l = s, eq_r = t\<rparr>)
               else eq_poll p q \<lparr>eq_l = s, eq_r = t\<rparr>))"

partial_function (option) ne_poll ::
  "('s, 'a) stream \<Rightarrow> ('t, 'a) stream \<Rightarrow> ('s, 't) EqFuture \<Rightarrow> (bool poll \<times> ('s, 't) EqFuture) option" where
  "ne_poll p q c =
     (case fuse_poll p (eq_l c) of
        None \<Rightarrow> None
      | Some (Pending, s) \<Rightarrow> Some (Pending, c\<lparr>eq_l := s\<rparr>)
      | Some (Ready lv, s) \<Rightarrow>
          (case fuse_poll q (eq_r c) of
             None \<Rightarrow> None
           | Some (Pending, t) \<Rightarrow> Some (Pending, \<lparr>eq_l = s, eq_r = t\<rparr>)
           | Some (Ready rv, t) \<Rightarrow>
               if fdone s \<or> fdone t then Some (Ready False, \<lparr>eq_l = s, eq_r = t\<rparr>)
               else if lv \<noteq> None \<and> rv \<noteq> None \<and> lv = rv then ne_poll p q \<lparr>eq_l = s, eq_r = t\<rparr>
               else Some (Ready True, \<lparr>eq_l = s, eq_r = t\<rparr>)))"

text \<open>The futures over the back of a double-ended stream run the same code on \<open>poll_next_back\<close>.\<close>

definition nth_back_poll :: "('s, 'a) stream \<Rightarrow> ('s StreamN, 'a option) future" where
  "nth_back_poll back = nth_poll back"

definition rfind_poll :: "('f, 'a, bool) fnmut \<Rightarrow> ('s, 'a) stream \<Rightarrow> (('s, 'f) StreamF, 'a option) future" where
  "rfind_poll f back = find_poll f back"

definition rfold_poll :: "('f, 'b \<times> 'a, 'b) fnmut \<Rightarrow> ('s, 'a) stream \<Rightarrow> (('s, 'f, 'b) FoldFuture, 'b) future" where
  "rfold_poll f back = fold_poll f back"

definition try_rfold_poll :: "('f, 'b \<times> 'a, 'e + 'b) fnmut \<Rightarrow> ('s, 'a) stream \<Rightarrow> (('s, 'f, 'b) FoldFuture, 'e + 'b) future" where
  "try_rfold_poll f back = try_fold_poll f back"

subsection \<open>The contract\<close>

fun completes :: "('s \<Rightarrow> bool) \<Rightarrow> ('s \<Rightarrow> 'r) \<Rightarrow> ('s \<Rightarrow> nat) \<Rightarrow> 's \<Rightarrow> 'r poll \<Rightarrow> 's \<Rightarrow> bool" where
  "completes ok result todo s Pending s' \<longleftrightarrow> ok s' \<and> result s' = result s \<and> todo s' < todo s"
| "completes ok result todo s (Ready v) s' \<longleftrightarrow> v = result s"

lemma completes_mono:
  assumes "completes ok result todo s r t'" "result t = result s" "todo s \<le> todo t"
  shows "completes ok result todo t r t'"
  using assms by (cases r) auto

text \<open>Polling a future until it is ready, at most \<open>n\<close> times.\<close>

fun drive :: "nat \<Rightarrow> ('s, 'r) future \<Rightarrow> 's \<Rightarrow> 'r option" where
  "drive 0 p s = None"
| "drive (Suc n) p s =
     (case p s of None \<Rightarrow> None | Some (Pending, s') \<Rightarrow> drive n p s' | Some (Ready v, _) \<Rightarrow> Some v)"

locale async_future =
  fixes poll :: "('s, 'r) future" and ok :: "'s \<Rightarrow> bool" and result :: "'s \<Rightarrow> 'r" and todo :: "'s \<Rightarrow> nat"
  assumes polls: "ok s \<Longrightarrow> \<exists>r s'. poll s = Some (r, s') \<and> completes ok result todo s r s'"
begin

lemma drive_result: "ok s \<Longrightarrow> todo s < n \<Longrightarrow> drive n poll s = Some (result s)"
proof (induction n arbitrary: s)
  case (Suc n)
  from polls [OF Suc.prems(1)] obtain r s' where r: "poll s = Some (r, s')" "completes ok result todo s r s'" by blast
  show ?case
  proof (cases r)
    case Pending
    with r Suc.IH [of s'] Suc.prems(2) show ?thesis by simp
  next
    case (Ready v)
    with r show ?thesis by simp
  qed
qed simp

end

subsection \<open>The results of the futures\<close>

primrec all_fn :: "('f, 'a, bool) fnmut \<Rightarrow> 'f \<Rightarrow> 'a list \<Rightarrow> bool" where
  "all_fn f c [] = True"
| "all_fn f c (x # xs) = (fst (f c x) \<and> all_fn f (snd (f c x)) xs)"

primrec any_fn :: "('f, 'a, bool) fnmut \<Rightarrow> 'f \<Rightarrow> 'a list \<Rightarrow> bool" where
  "any_fn f c [] = False"
| "any_fn f c (x # xs) = (fst (f c x) \<or> any_fn f (snd (f c x)) xs)"

primrec find_fn :: "('f, 'a, bool) fnmut \<Rightarrow> 'f \<Rightarrow> 'a list \<Rightarrow> 'a option" where
  "find_fn f c [] = None"
| "find_fn f c (x # xs) = (if fst (f c x) then Some x else find_fn f (snd (f c x)) xs)"

primrec find_map_fn :: "('f, 'a, 'b option) fnmut \<Rightarrow> 'f \<Rightarrow> 'a list \<Rightarrow> 'b option" where
  "find_map_fn f c [] = None"
| "find_map_fn f c (x # xs) = (case fst (f c x) of Some y \<Rightarrow> Some y | None \<Rightarrow> find_map_fn f (snd (f c x)) xs)"

primrec position_fn :: "('f, 'a, bool) fnmut \<Rightarrow> 'f \<Rightarrow> nat \<Rightarrow> 'a list \<Rightarrow> nat option" where
  "position_fn f c i [] = None"
| "position_fn f c i (x # xs) = (if fst (f c x) then Some i else position_fn f (snd (f c x)) (uadd i 1) xs)"

primrec fold_fn :: "('f, 'b \<times> 'a, 'b) fnmut \<Rightarrow> 'f \<Rightarrow> 'b \<Rightarrow> 'a list \<Rightarrow> 'b" where
  "fold_fn f c a [] = a"
| "fold_fn f c a (x # xs) = fold_fn f (snd (f c (a, x))) (fst (f c (a, x))) xs"

primrec try_fold_fn :: "('f, 'b \<times> 'a, 'e + 'b) fnmut \<Rightarrow> 'f \<Rightarrow> 'b \<Rightarrow> 'a list \<Rightarrow> 'e + 'b" where
  "try_fold_fn f c a [] = Inr a"
| "try_fold_fn f c a (x # xs) = (case fst (f c (a, x)) of Inl e \<Rightarrow> Inl e | Inr b \<Rightarrow> try_fold_fn f (snd (f c (a, x))) b xs)"

primrec partition_fn :: "('b \<Rightarrow> 'a \<Rightarrow> 'b) \<Rightarrow> ('f, 'a, bool) fnmut \<Rightarrow> 'f \<Rightarrow> 'b \<times> 'b \<Rightarrow> 'a list \<Rightarrow> 'b \<times> 'b" where
  "partition_fn ext f c r [] = r"
| "partition_fn ext f c r (x # xs) =
     partition_fn ext f (snd (f c x)) (if fst (f c x) then (ext (fst r) x, snd r) else (fst r, ext (snd r) x)) xs"

primrec best_fn :: "Ordering \<Rightarrow> ('f, 'a \<times> 'a, Ordering) fnmut \<Rightarrow> 'f \<Rightarrow> 'a option \<Rightarrow> 'a list \<Rightarrow> 'a option" where
  "best_fn w f c b [] = b"
| "best_fn w f c b (x # xs) =
     (case b of
        None \<Rightarrow> best_fn w f c (Some x) xs
      | Some y \<Rightarrow> best_fn w f (snd (f c (x, y))) (Some (if fst (f c (x, y)) = w then x else y)) xs)"

lemma pure_results [simp]:
  "all_fn (pure P) c xs = list_all P xs"
  "any_fn (pure P) c xs = list_ex P xs"
  "find_fn (pure P) c xs = List.find P xs"
  "fold_fn (pure g) c a xs = foldl (curry g) a xs"
  by (induction xs arbitrary: a) (simp_all add: pure_def)

lemma partition_fn_pure:
  "partition_fn (\<lambda>xs x. xs @ [x]) (pure P) c (as, bs) xs = (as @ filter P xs, bs @ filter (\<lambda>x. \<not> P x) xs)"
  by (induction xs arbitrary: as bs) (simp_all add: pure_def)

lemma best_fn_Max:
  fixes xs :: "'a::linorder list"
  shows "best_fn Greater (pure (case_prod ord_cmp)) c (Some y) xs = Some (Max (set (y # xs)))"
    and "best_fn Less (pure (case_prod ord_cmp)) c (Some y) xs = Some (Min (set (y # xs)))"
proof -
  have "best_fn Greater (pure (case_prod ord_cmp)) c (Some y) xs = Some (fold max xs y)"
    "best_fn Less (pure (case_prod ord_cmp)) c (Some y) xs = Some (fold min xs y)"
    by (induction xs arbitrary: y) (auto simp: pure_def ord_cmp_def max_def min_def)
  then show "best_fn Greater (pure (case_prod ord_cmp)) c (Some y) xs = Some (Max (set (y # xs)))"
    "best_fn Less (pure (case_prod ord_cmp)) c (Some y) xs = Some (Min (set (y # xs)))"
    by (simp_all only: Max.set_eq_fold Min.set_eq_fold)
qed

context async_stream
begin

lemma all_future:
  "async_future (all_poll f poll) (\<lambda>m. ok (stream m)) (\<lambda>m. all_fn f (clos m) (items (stream m))) (\<lambda>m. todo (stream m))"
  by unfold_locales (erule poll_cases; simp add: all_poll_def split: prod.split)

lemma any_future:
  "async_future (any_poll f poll) (\<lambda>m. ok (stream m)) (\<lambda>m. any_fn f (clos m) (items (stream m))) (\<lambda>m. todo (stream m))"
  by unfold_locales (erule poll_cases; simp add: any_poll_def split: prod.split)

lemma find_future:
  "async_future (find_poll f poll) (\<lambda>m. ok (stream m)) (\<lambda>m. find_fn f (clos m) (items (stream m))) (\<lambda>m. todo (stream m))"
  by unfold_locales (erule poll_cases; simp add: find_poll_def split: prod.split)

lemma find_map_future:
  "async_future (find_map_poll f poll) (\<lambda>m. ok (stream m)) (\<lambda>m. find_map_fn f (clos m) (items (stream m))) (\<lambda>m. todo (stream m))"
  by unfold_locales (erule poll_cases; simp add: find_map_poll_def split: prod.split option.split)

lemma position_future:
  "async_future (position_poll f poll) (\<lambda>m. ok (pos_stream m)) (\<lambda>m. position_fn f (pos_pred m) (index m) (items (pos_stream m)))
     (\<lambda>m. todo (pos_stream m))"
  by unfold_locales (erule poll_cases; simp add: position_poll_def split: prod.split)

lemma nth_future:
  "async_future (nth_poll poll) (\<lambda>t. ok (nstream t))
     (\<lambda>t. if num t < length (items (nstream t)) then Some (items (nstream t) ! num t) else None) (\<lambda>t. todo (nstream t))"
  by unfold_locales (erule poll_cases; simp add: nth_poll_def nth_Cons split: nat.split)

lemma count_future:
  "async_future (count_poll poll) (\<lambda>t. ok (nstream t) \<and> num t < usize_lim)
     (\<lambda>t. (num t + length (items (nstream t))) mod usize_lim) (\<lambda>t. todo (nstream t))"
  by unfold_locales (erule conjE, erule poll_cases; simp add: count_poll_def uadd_def mod_simps usize_lim_def)

lemma last_future:
  "async_future (last_poll poll) (\<lambda>t. ok (hstream t))
     (\<lambda>t. if items (hstream t) = [] then held t else Some (last (items (hstream t)))) (\<lambda>t. todo (hstream t))"
  by unfold_locales (erule poll_cases; simp add: last_poll_def)

lemma max_by_future:
  "async_future (max_by_poll f poll) (\<lambda>t. ok (fo_stream t)) (\<lambda>t. best_fn Greater f (fo_f t) (acc t) (items (fo_stream t)))
     (\<lambda>t. todo (fo_stream t))"
  by unfold_locales (erule poll_cases; simp add: max_by_poll_def split: option.split Ordering.split prod.split)

lemma min_by_future:
  "async_future (min_by_poll f poll) (\<lambda>t. ok (fo_stream t)) (\<lambda>t. best_fn Less f (fo_f t) (acc t) (items (fo_stream t)))
     (\<lambda>t. todo (fo_stream t))"
  by unfold_locales (erule poll_cases; simp add: min_by_poll_def split: option.split Ordering.split prod.split)

lemma fold_polls:
  "ok (fo_stream t) \<and> acc t \<noteq> None \<Longrightarrow> \<exists>r t'. fold_poll f poll t = Some (r, t') \<and>
    completes (\<lambda>t. ok (fo_stream t) \<and> acc t \<noteq> None) (\<lambda>t. fold_fn f (fo_f t) (the (acc t)) (items (fo_stream t))) (\<lambda>t. todo (fo_stream t)) t r t'"
proof (induction "todo (fo_stream t)" arbitrary: t rule: less_induct)
  case less
  then obtain a where a: "acc t = Some a" by auto
  from less.prems have "ok (fo_stream t)" by simp
  then show ?case
  proof (cases rule: poll_cases)
    case (item x s')
    let ?t = "\<lparr>fo_stream = s', fo_f = snd (f (fo_f t) (a, x)), acc = Some (fst (f (fo_f t) (a, x)))\<rparr>"
    from less.hyps [of ?t] item obtain r t' where r: "fold_poll f poll ?t = Some (r, t')"
      "completes (\<lambda>t. ok (fo_stream t) \<and> acc t \<noteq> None) (\<lambda>t. fold_fn f (fo_f t) (the (acc t)) (items (fo_stream t))) (\<lambda>t. todo (fo_stream t)) ?t r t'"
      by auto
    show ?thesis
      by (subst fold_poll.simps) (use item a r(1) completes_mono [OF r(2), of t] in simp)
  qed (subst fold_poll.simps, simp add: a)+
qed

lemma fold_future:
  "async_future (fold_poll f poll) (\<lambda>t. ok (fo_stream t) \<and> acc t \<noteq> None) (\<lambda>t. fold_fn f (fo_f t) (the (acc t)) (items (fo_stream t)))
     (\<lambda>t. todo (fo_stream t))"
  by unfold_locales (rule fold_polls)

lemma try_fold_polls:
  "ok (fo_stream t) \<and> acc t \<noteq> None \<Longrightarrow> \<exists>r t'. try_fold_poll f poll t = Some (r, t') \<and>
    completes (\<lambda>t. ok (fo_stream t) \<and> acc t \<noteq> None) (\<lambda>t. try_fold_fn f (fo_f t) (the (acc t)) (items (fo_stream t))) (\<lambda>t. todo (fo_stream t)) t r t'"
proof (induction "todo (fo_stream t)" arbitrary: t rule: less_induct)
  case less
  then obtain a where a: "acc t = Some a" by auto
  from less.prems have "ok (fo_stream t)" by simp
  then show ?case
  proof (cases rule: poll_cases)
    case (item x s')
    show ?thesis
    proof (cases "fst (f (fo_f t) (a, x))")
      case (Inl e)
      with item a show ?thesis by (subst try_fold_poll.simps) simp
    next
      case (Inr b)
      let ?t = "\<lparr>fo_stream = s', fo_f = snd (f (fo_f t) (a, x)), acc = Some b\<rparr>"
      from less.hyps [of ?t] item obtain r t' where r: "try_fold_poll f poll ?t = Some (r, t')"
        "completes (\<lambda>t. ok (fo_stream t) \<and> acc t \<noteq> None) (\<lambda>t. try_fold_fn f (fo_f t) (the (acc t)) (items (fo_stream t))) (\<lambda>t. todo (fo_stream t)) ?t r t'"
        by auto
      show ?thesis
        by (subst try_fold_poll.simps) (use item a Inr r(1) completes_mono [OF r(2), of t] in simp)
    qed
  qed (subst try_fold_poll.simps, simp add: a)+
qed

lemma try_fold_future:
  "async_future (try_fold_poll f poll) (\<lambda>t. ok (fo_stream t) \<and> acc t \<noteq> None) (\<lambda>t. try_fold_fn f (fo_f t) (the (acc t)) (items (fo_stream t)))
     (\<lambda>t. todo (fo_stream t))"
  by unfold_locales (rule try_fold_polls)

lemma partition_polls:
  "ok (fo_stream t) \<and> acc t \<noteq> None \<Longrightarrow> \<exists>r t'. partition_poll ext f poll t = Some (r, t') \<and>
    completes (\<lambda>t. ok (fo_stream t) \<and> acc t \<noteq> None) (\<lambda>t. partition_fn ext f (fo_f t) (the (acc t)) (items (fo_stream t))) (\<lambda>t. todo (fo_stream t)) t r t'"
proof (induction "todo (fo_stream t)" arbitrary: t rule: less_induct)
  case less
  then obtain a b where a: "acc t = Some (a, b)" by auto
  from less.prems have "ok (fo_stream t)" by simp
  then show ?case
  proof (cases rule: poll_cases)
    case (item x s')
    let ?t = "\<lparr>fo_stream = s', fo_f = snd (f (fo_f t) x), acc = Some (if fst (f (fo_f t) x) then (ext a x, b) else (a, ext b x))\<rparr>"
    from less.hyps [of ?t] item obtain r t' where r: "partition_poll ext f poll ?t = Some (r, t')"
      "completes (\<lambda>t. ok (fo_stream t) \<and> acc t \<noteq> None) (\<lambda>t. partition_fn ext f (fo_f t) (the (acc t)) (items (fo_stream t))) (\<lambda>t. todo (fo_stream t)) ?t r t'"
      by auto
    show ?thesis
      by (subst partition_poll.simps) (use item a r(1) completes_mono [OF r(2), of t] in simp)
  qed (subst partition_poll.simps, simp add: a)+
qed

lemma partition_future:
  "async_future (partition_poll ext f poll) (\<lambda>t. ok (fo_stream t) \<and> acc t \<noteq> None)
     (\<lambda>t. partition_fn ext f (fo_f t) (the (acc t)) (items (fo_stream t))) (\<lambda>t. todo (fo_stream t))"
  by unfold_locales (rule partition_polls)

text \<open>The closure of \<open>for_each\<close> has seen every item when the future is ready.\<close>

lemma for_each_polls:
  "ok (stream t) \<Longrightarrow> \<exists>r t'. for_each_poll f poll t = Some (r, t') \<and>
    foldl (\<lambda>c x. snd (f c x)) (clos t') (if r = Pending then items (stream t') else []) = foldl (\<lambda>c x. snd (f c x)) (clos t) (items (stream t)) \<and>
    (r = Pending \<longrightarrow> ok (stream t') \<and> todo (stream t') < todo (stream t))"
proof (induction "todo (stream t)" arbitrary: t rule: less_induct)
  case less
  from less.prems show ?case
  proof (cases rule: poll_cases)
    case (item x s')
    let ?t = "\<lparr>stream = s', clos = snd (f (clos t) x)\<rparr>"
    from less.hyps [of ?t] item obtain r t' where r: "for_each_poll f poll ?t = Some (r, t')"
      "foldl (\<lambda>c x. snd (f c x)) (clos t') (if r = Pending then items (stream t') else []) = foldl (\<lambda>c x. snd (f c x)) (clos ?t) (items (stream ?t))"
      "r = Pending \<longrightarrow> ok (stream t') \<and> todo (stream t') < todo (stream ?t)"
      by auto
    show ?thesis
      by (subst for_each_poll.simps) (use item r in auto)
  qed (subst for_each_poll.simps, simp)+
qed

end

lemma max_future:
  fixes p :: "('t, 'b::linorder) stream"
  assumes "async_stream p okp ip tp"
  shows "async_future (max_poll p) (\<lambda>t. okp (hstream t))
     (\<lambda>t. best_fn Greater (pure (case_prod ord_cmp)) () (held t) (ip (hstream t))) (\<lambda>t. tp (hstream t))"
  by unfold_locales (erule async_stream.poll_cases [OF assms]; simp add: max_poll_def pure_def split: option.split Ordering.split)

lemma min_future:
  fixes p :: "('t, 'b::linorder) stream"
  assumes "async_stream p okp ip tp"
  shows "async_future (min_poll p) (\<lambda>t. okp (hstream t))
     (\<lambda>t. best_fn Less (pure (case_prod ord_cmp)) () (held t) (ip (hstream t))) (\<lambda>t. tp (hstream t))"
  by unfold_locales (erule async_stream.poll_cases [OF assms]; simp add: min_poll_def pure_def split: option.split Ordering.split)


interpretation iter_count: async_future "count_poll from_iter_poll" "\<lambda>t. num t < usize_lim"
  "\<lambda>t. (num t + length (nstream t)) mod usize_lim" "\<lambda>t. length (nstream t)"
  using iter.count_future by simp

interpretation iter_fold: async_future "fold_poll f from_iter_poll" "\<lambda>t. acc t \<noteq> None"
  "\<lambda>t. fold_fn f (fo_f t) (the (acc t)) (fo_stream t)" "\<lambda>t. length (fo_stream t)" for f
  using iter.fold_future [of f] by simp

subsection \<open>Comparing streams\<close>

fun lex_fn :: "(Ordering \<Rightarrow> 'o) \<Rightarrow> ('a \<Rightarrow> 'b \<Rightarrow> 'o) \<Rightarrow> 'a list \<Rightarrow> 'b list \<Rightarrow> 'o" where
  "lex_fn ord cmp [] [] = ord Equal"
| "lex_fn ord cmp [] (y # ys) = ord Less"
| "lex_fn ord cmp (x # xs) [] = ord Greater"
| "lex_fn ord cmp (x # xs) (y # ys) = (if cmp x y = ord Equal then lex_fn ord cmp xs ys else cmp x y)"

definition side :: "'a option \<Rightarrow> 'a list \<Rightarrow> 'a list" where
  "side cache xs = (case cache of None \<Rightarrow> xs | Some x \<Rightarrow> x # xs)"

lemma side_simps [simp]: "side None xs = xs" "side (Some x) xs = x # xs"
  by (simp_all add: side_def)

lemma fill_l_cases:
  fixes c :: "('s, 't, 'a, 'b) CmpFuture"
  assumes "async_stream p ok items todo" "fuse_ok ok (cmp_l c)"
  obtains (pending) c' where "cmp_fill_l p c = Some (Inl c')" "fuse_ok ok (cmp_l c')" "side (l_cache c') (fuse_items items (cmp_l c')) = side (l_cache c) (fuse_items items (cmp_l c))"
      "cmp_r c' = cmp_r c" "r_cache c' = r_cache c" "l_cache c = None" "l_cache c' = None" "\<not> fdone (cmp_l c')" "fuse_todo todo (cmp_l c') < fuse_todo todo (cmp_l c)"
  | (filled) c' where "cmp_fill_l p c = Some (Inr c')" "fuse_ok ok (cmp_l c')" "side (l_cache c') (fuse_items items (cmp_l c')) = side (l_cache c) (fuse_items items (cmp_l c))"
      "cmp_r c' = cmp_r c" "r_cache c' = r_cache c" "l_cache c' = None \<longrightarrow> fdone (cmp_l c')" "fuse_todo todo (cmp_l c') \<le> fuse_todo todo (cmp_l c)"
      "l_cache c = None \<and> \<not> fdone (cmp_l c) \<longrightarrow> fuse_todo todo (cmp_l c') < fuse_todo todo (cmp_l c)"
      "(l_cache c \<noteq> None \<longrightarrow> \<not> fdone (cmp_l c)) \<longrightarrow> l_cache c' \<noteq> None \<longrightarrow> \<not> fdone (cmp_l c')"
proof (cases "\<not> fdone (cmp_l c) \<and> l_cache c = None")
  case False
  then show thesis using assms(2) by (intro filled [of c]) (auto simp: cmp_fill_l_def)
next
  case True
  show thesis
  proof (cases rule: async_stream.fuse_cases [OF assms, case_names pending finished item])
    case (pending s')
    with True show thesis by (intro that(1) [of "c\<lparr>cmp_l := s'\<rparr>"]) (simp_all add: cmp_fill_l_def)
  next
    case (finished s')
    with True show thesis
      by (intro that(2) [of "c\<lparr>cmp_l := s'\<rparr>"]) (simp_all add: cmp_fill_l_def fuse_ok_def fuse_items_def side_def)
  next
    case (item x s')
    with True show thesis by (intro that(2) [of "c\<lparr>cmp_l := s', l_cache := Some x\<rparr>"]) (simp_all add: cmp_fill_l_def side_def)
  qed
qed

lemma fill_r_cases:
  fixes c :: "('s, 't, 'a, 'b) CmpFuture"
  assumes "async_stream p ok items todo" "fuse_ok ok (cmp_r c)"
  obtains (pending) c' where "cmp_fill_r p c = Some (Inl c')" "fuse_ok ok (cmp_r c')" "side (r_cache c') (fuse_items items (cmp_r c')) = side (r_cache c) (fuse_items items (cmp_r c))"
      "cmp_l c' = cmp_l c" "l_cache c' = l_cache c" "r_cache c = None" "r_cache c' = None" "\<not> fdone (cmp_r c')" "fuse_todo todo (cmp_r c') < fuse_todo todo (cmp_r c)"
  | (filled) c' where "cmp_fill_r p c = Some (Inr c')" "fuse_ok ok (cmp_r c')" "side (r_cache c') (fuse_items items (cmp_r c')) = side (r_cache c) (fuse_items items (cmp_r c))"
      "cmp_l c' = cmp_l c" "l_cache c' = l_cache c" "r_cache c' = None \<longrightarrow> fdone (cmp_r c')" "fuse_todo todo (cmp_r c') \<le> fuse_todo todo (cmp_r c)"
      "r_cache c = None \<and> \<not> fdone (cmp_r c) \<longrightarrow> fuse_todo todo (cmp_r c') < fuse_todo todo (cmp_r c)"
      "(r_cache c \<noteq> None \<longrightarrow> \<not> fdone (cmp_r c)) \<longrightarrow> r_cache c' \<noteq> None \<longrightarrow> \<not> fdone (cmp_r c')"
proof (cases "\<not> fdone (cmp_r c) \<and> r_cache c = None")
  case False
  then show thesis using assms(2) by (intro filled [of c]) (auto simp: cmp_fill_r_def)
next
  case True
  show thesis
  proof (cases rule: async_stream.fuse_cases [OF assms, case_names pending finished item])
    case (pending s')
    with True show thesis by (intro that(1) [of "c\<lparr>cmp_r := s'\<rparr>"]) (simp_all add: cmp_fill_r_def)
  next
    case (finished s')
    with True show thesis
      by (intro that(2) [of "c\<lparr>cmp_r := s'\<rparr>"]) (simp_all add: cmp_fill_r_def fuse_ok_def fuse_items_def side_def)
  next
    case (item x s')
    with True show thesis by (intro that(2) [of "c\<lparr>cmp_r := s', r_cache := Some x\<rparr>"]) (simp_all add: cmp_fill_r_def side_def)
  qed
qed

definition cmp_ok :: "('s \<Rightarrow> bool) \<Rightarrow> ('t \<Rightarrow> bool) \<Rightarrow> ('s, 't, 'a, 'b) CmpFuture \<Rightarrow> bool" where
  "cmp_ok okp okq c \<longleftrightarrow> fuse_ok okp (cmp_l c) \<and> fuse_ok okq (cmp_r c) \<and> (l_cache c = None \<or> r_cache c = None) \<and>
     (fdone (cmp_l c) \<and> l_cache c = None \<longrightarrow> fdone (cmp_r c) \<or> r_cache c \<noteq> None) \<and>
     (fdone (cmp_r c) \<and> r_cache c = None \<longrightarrow> fdone (cmp_l c) \<or> l_cache c \<noteq> None) \<and>
     (l_cache c \<noteq> None \<longrightarrow> \<not> fdone (cmp_l c)) \<and> (r_cache c \<noteq> None \<longrightarrow> \<not> fdone (cmp_r c))"

text \<open>The loop takes a right side that has not finished yet for the longer one when the left side is
  finished. That is right when the right side is never pending.\<close>

definition never_pending :: "('s, 'a) stream \<Rightarrow> ('s \<Rightarrow> bool) \<Rightarrow> bool" where
  "never_pending q ok \<longleftrightarrow> (\<forall>s s'. ok s \<longrightarrow> q s \<noteq> Some (Pending, s'))"

lemma fill_r_ready:
  assumes "never_pending q ok" "fuse_ok ok (cmp_r c)"
  shows "cmp_fill_r q c \<noteq> Some (Inl c')"
  using assms by (auto simp: cmp_fill_r_def never_pending_def fuse_poll_def fuse_ok_def split: option.splits poll.splits prod.splits if_splits)

definition cmp_result :: "(Ordering \<Rightarrow> 'o) \<Rightarrow> ('a \<Rightarrow> 'b \<Rightarrow> 'o) \<Rightarrow> ('s \<Rightarrow> 'a list) \<Rightarrow> ('t \<Rightarrow> 'b list) \<Rightarrow> ('s, 't, 'a, 'b) CmpFuture \<Rightarrow> 'o" where
  "cmp_result ord cmp ip iq c =
     lex_fn ord cmp (side (l_cache c) (fuse_items ip (cmp_l c))) (side (r_cache c) (fuse_items iq (cmp_r c)))"

definition cmp_todo :: "('s \<Rightarrow> nat) \<Rightarrow> ('t \<Rightarrow> nat) \<Rightarrow> ('s, 't, 'a, 'b) CmpFuture \<Rightarrow> nat" where
  "cmp_todo tp tq c = fuse_todo tp (cmp_l c) + fuse_todo tq (cmp_r c)"

lemmas cmp_defs = cmp_ok_def cmp_result_def cmp_todo_def

lemma cmp_loop_polls:
  fixes c :: "('s, 't, 'a, 'b) CmpFuture"
  assumes p: "async_stream p okp ip tp" and q: "async_stream q okq iq tq" and np: "never_pending q okq"
  shows "cmp_ok okp okq c \<Longrightarrow> \<exists>r c'. cmp_loop ord keep cmp p q c = Some (r, c') \<and>
    completes (cmp_ok okp okq) (cmp_result ord cmp ip iq) (cmp_todo tp tq) c r c'"
proof (induction "cmp_todo tp tq c" arbitrary: c rule: less_induct)
  case less
  note ok = less.prems [unfolded cmp_ok_def]
  let ?lc = "fdone (cmp_l c) \<and> l_cache c = None" and ?rc = "fdone (cmp_r c) \<and> r_cache c = None"
  show ?case
  proof (cases "?lc \<or> ?rc")
    case True
    with ok show ?thesis
      by (subst cmp_loop.simps) (auto simp: cmp_result_def fuse_items_def)
  next
    case False
    from ok have okl: "fuse_ok okp (cmp_l c)" by simp
    show ?thesis
    proof (cases rule: fill_l_cases [OF p okl, case_names pending filled])
      case (pending c1)
      with False ok show ?thesis
        by (subst cmp_loop.simps) (auto simp: cmp_defs fuse_ok_def)
    next
      case (filled c1)
      note l = filled
      from ok l(4) have okr: "fuse_ok okq (cmp_r c1)" by simp
      show ?thesis
      proof (cases rule: fill_r_cases [OF q okr, case_names pending filled])
        case (pending c2)
        with fill_r_ready [OF np okr] show ?thesis by blast
      next
        case (filled c2)
        note r = filled
        have same: "cmp_result ord cmp ip iq c2 = cmp_result ord cmp ip iq c"
          using l(3-5) r(3-5) by (simp add: cmp_result_def)
        have dec: "cmp_todo tp tq c2 < cmp_todo tp tq c"
          using l(4,5,7,8) r(4,5,7,8) ok False by (auto simp: cmp_todo_def)
        have next_ok: "fuse_ok okp (cmp_l c2)" "fuse_ok okq (cmp_r c2)"
          using l(2) r(2,4) by simp_all
        have nd: "l_cache c2 \<noteq> None \<longrightarrow> \<not> fdone (cmp_l c2)" "r_cache c2 \<noteq> None \<longrightarrow> \<not> fdone (cmp_r c2)"
          using l(4,5,9) r(4,5,9) ok by auto
        have step: "\<exists>x c'. cmp_loop ord keep cmp p q c3 = Some (x, c') \<and>
            completes (cmp_ok okp okq) (cmp_result ord cmp ip iq) (cmp_todo tp tq) c x c'"
          if "cmp_ok okp okq c3" "cmp_todo tp tq c3 = cmp_todo tp tq c2" "cmp_result ord cmp ip iq c3 = cmp_result ord cmp ip iq c" for c3
        proof -
          have "cmp_todo tp tq c3 < cmp_todo tp tq c" using dec that(2) by simp
          from less.hyps [OF this that(1)] obtain x c' where x: "cmp_loop ord keep cmp p q c3 = Some (x, c')"
            "completes (cmp_ok okp okq) (cmp_result ord cmp ip iq) (cmp_todo tp tq) c3 x c'" by blast
          from x(1) completes_mono [OF x(2), of c] that dec show ?thesis by simp
        qed
        have loop: "cmp_loop ord keep cmp p q c = (case (l_cache c2, r_cache c2) of
              (Some x, Some y) \<Rightarrow>
                if cmp x y = ord Equal then cmp_loop ord keep cmp p q (c2\<lparr>l_cache := None, r_cache := None\<rparr>)
                else Some (Ready (cmp x y), if keep then c2 else c2\<lparr>l_cache := None, r_cache := None\<rparr>)
            | _ \<Rightarrow> cmp_loop ord keep cmp p q c2)"
          using False by (subst cmp_loop.simps) (simp only: l(1) r(1) de_Morgan_disj simp_thms if_False option.case sum.case)
        have cl: "l_cache c2 = None \<longrightarrow> fdone (cmp_l c2)" using l(6) r(4,5) by simp
        consider (none) "l_cache c2 = None \<or> r_cache c2 = None" | (both) x y where "l_cache c2 = Some x" "r_cache c2 = Some y"
          by (cases "l_cache c2"; cases "r_cache c2") auto
        then show ?thesis
        proof cases
          case none
          then have "cmp_ok okp okq c2"
            unfolding cmp_ok_def using next_ok nd cl r(6) by blast
          moreover have "cmp_loop ord keep cmp p q c = cmp_loop ord keep cmp p q c2"
            unfolding loop using none by (auto split: option.split)
          ultimately show ?thesis using step [of c2] same by simp
        next
          case both
          let ?c3 = "c2\<lparr>l_cache := None, r_cache := None\<rparr>"
          show ?thesis
          proof (cases "cmp x y = ord Equal")
            case True
            have "cmp_ok okp okq ?c3"
              using next_ok nd both by (simp add: cmp_ok_def)
            moreover have "cmp_result ord cmp ip iq ?c3 = cmp_result ord cmp ip iq c2"
              using both True by (simp add: cmp_result_def)
            moreover have "cmp_todo tp tq ?c3 = cmp_todo tp tq c2"
              by (simp add: cmp_todo_def)
            ultimately show ?thesis using step [of ?c3] same both True unfolding loop by simp
          next
            case False
            have "cmp_result ord cmp ip iq c2 = cmp x y"
              using both False by (simp add: cmp_result_def)
            with same both False show ?thesis unfolding loop by simp
          qed
        qed
      qed
    qed
  qed
qed

lemma cmp_loop_future:
  assumes "async_stream p okp ip tp" "async_stream q okq iq tq" "never_pending q okq"
  shows "async_future (cmp_loop ord keep cmp p q) (cmp_ok okp okq) (cmp_result ord cmp ip iq) (cmp_todo tp tq)"
  using cmp_loop_polls [OF assms] by unfold_locales

lemma cmp_test_future:
  assumes "async_future fut ok result todo"
  shows "async_future (cmp_test test fut) ok (\<lambda>c. test (result c)) todo"
proof
  fix c
  assume "ok c"
  from async_future.polls [OF assms this] obtain r c' where r: "fut c = Some (r, c')" "completes ok result todo c r c'" by blast
  then show "\<exists>r c'. cmp_test test fut c = Some (r, c') \<and> completes ok (\<lambda>c. test (result c)) todo c r c'"
    by (cases r) (simp_all add: cmp_test_def)
qed

lemma lex_fn_ord:
  fixes xs ys :: "'a::linorder list"
  assumes "inj ord"
  shows "lex_fn ord (\<lambda>x y. ord (ord_cmp x y)) xs ys = ord (if xs = ys then Equal else if ord_class.lexordp xs ys then Less else Greater)"
proof (induction xs arbitrary: ys)
  case Nil
  show ?case by (cases ys) auto
next
  case (Cons x xs)
  show ?case
  proof (cases ys)
    case (Cons y ys')
    with Cons.IH [of ys'] show ?thesis by (auto simp: ord_cmp_def inj_eq [OF assms])
  qed simp
qed

lemma stream_max_min:
  fixes p :: "('s, 'a::linorder) stream"
  assumes "async_stream p ok items todo" "ok s" "todo s < n" "items s \<noteq> []"
  shows "drive n (max_poll p) \<lparr>hstream = s, held = None\<rparr> = Some (Some (Max (set (items s))))"
    "drive n (min_poll p) \<lparr>hstream = s, held = None\<rparr> = Some (Some (Min (set (items s))))"
proof -
  obtain y ys where "items s = y # ys" using assms(4) by (cases "items s") auto
  then show "drive n (max_poll p) \<lparr>hstream = s, held = None\<rparr> = Some (Some (Max (set (items s))))"
    "drive n (min_poll p) \<lparr>hstream = s, held = None\<rparr> = Some (Some (Min (set (items s))))"
    using async_future.drive_result [OF max_future [OF assms(1)], of "\<lparr>hstream = s, held = None\<rparr>" n]
      async_future.drive_result [OF min_future [OF assms(1)], of "\<lparr>hstream = s, held = None\<rparr>" n] assms(2,3) best_fn_Max [of "()" y ys]
    by simp_all
qed

lemma back_futures:
  "drive (Suc (length xs)) (rfind_poll (pure P) from_iter_poll_back) \<lparr>stream = xs, clos = ()\<rparr> = Some (List.find P (rev xs))"
  "drive (Suc (length xs)) (rfold_poll (pure g) from_iter_poll_back) \<lparr>fo_stream = xs, fo_f = (), acc = Some a\<rparr> = Some (foldl (curry g) a (rev xs))"
  using async_future.drive_result [OF iter_back.find_future, of "\<lparr>stream = xs, clos = ()\<rparr>" "Suc (length xs)" "pure P"]
    async_future.drive_result [OF iter_back.fold_future, of "\<lparr>fo_stream = xs, fo_f = (), acc = Some a\<rparr>" "Suc (length xs)" "pure g"]
  by (simp_all add: rfind_poll_def rfold_poll_def)

subsection \<open>Properties\<close>

text \<open>
  C32: the futures over a stream compute what the list functions compute on its items. Over any
  stream that keeps the contract, polling \<open>all\<close>, \<open>any\<close>, \<open>find\<close>, \<open>nth\<close>, \<open>last\<close>, \<open>count\<close>, \<open>fold\<close> or
  \<open>partition\<close> until it is ready returns after no more polls than the stream needs, with the value
  the list function has.
\<close>

theorem futures_like_lists:
  assumes "async_stream p ok items todo" "ok s" "todo s < n"
  shows "drive n (all_poll (pure P) p) \<lparr>stream = s, clos = ()\<rparr> = Some (list_all P (items s)) \<and>
    drive n (any_poll (pure P) p) \<lparr>stream = s, clos = ()\<rparr> = Some (list_ex P (items s)) \<and>
    drive n (find_poll (pure P) p) \<lparr>stream = s, clos = ()\<rparr> = Some (List.find P (items s)) \<and>
    drive n (nth_poll p) \<lparr>nstream = s, num = k\<rparr> = Some (if k < length (items s) then Some (items s ! k) else None) \<and>
    drive n (last_poll p) \<lparr>hstream = s, held = None\<rparr> = Some (if items s = [] then None else Some (last (items s))) \<and>
    drive n (count_poll p) \<lparr>nstream = s, num = 0\<rparr> = Some (length (items s) mod usize_lim) \<and>
    drive n (fold_poll (pure g) p) \<lparr>fo_stream = s, fo_f = (), acc = Some a\<rparr> = Some (foldl (curry g) a (items s)) \<and>
    drive n (partition_poll (\<lambda>xs x. xs @ [x]) (pure P) p) \<lparr>fo_stream = s, fo_f = (), acc = Some ([], [])\<rparr>
      = Some (filter P (items s), filter (\<lambda>x. \<not> P x) (items s))"
  using async_future.drive_result [OF async_stream.all_future [OF assms(1)], of "\<lparr>stream = s, clos = ()\<rparr>" n "pure P"]
    async_future.drive_result [OF async_stream.any_future [OF assms(1)], of "\<lparr>stream = s, clos = ()\<rparr>" n "pure P"]
    async_future.drive_result [OF async_stream.find_future [OF assms(1)], of "\<lparr>stream = s, clos = ()\<rparr>" n "pure P"]
    async_future.drive_result [OF async_stream.nth_future [OF assms(1)], of "\<lparr>nstream = s, num = k\<rparr>" n]
    async_future.drive_result [OF async_stream.last_future [OF assms(1)], of "\<lparr>hstream = s, held = None\<rparr>" n]
    async_future.drive_result [OF async_stream.count_future [OF assms(1)], of "\<lparr>nstream = s, num = 0\<rparr>" n]
    async_future.drive_result [OF async_stream.fold_future [OF assms(1)], of "\<lparr>fo_stream = s, fo_f = (), acc = Some a\<rparr>" n "pure g"]
    async_future.drive_result [OF async_stream.partition_future [OF assms(1)], of "\<lparr>fo_stream = s, fo_f = (), acc = Some ([], [])\<rparr>" n "\<lambda>xs x. xs @ [x]" "pure P"]
    assms(2,3)
  by (simp add: partition_fn_pure usize_lim_def)

theorem futures_like_lists_witness:
  "drive 4 (find_poll (pure (\<lambda>x. 1 < x)) from_iter_poll) \<lparr>stream = [1, 2, 3 :: nat], clos = ()\<rparr> = Some (Some 2)"
  using futures_like_lists [OF iter.async_stream_axioms, of "[1, 2, 3 :: nat]" 4 "\<lambda>x. 1 < x" 0 fst "()"] by simp

text \<open>
  C33: streams compare lexicographically. When the right stream is never pending, \<open>cmp\<close> of two
  finite streams over ordered items is the lexicographic comparison of their items, a proper prefix
  being less, and \<open>lt\<close> is the strict lexicographic order; the left stream may be pending any number
  of times.
\<close>

theorem streams_compare_lexicographically:
  fixes p :: "('s, 'a::linorder) stream" and q :: "('t, 'a) stream"
  assumes "async_stream p okp ip tp" "async_stream q okq iq tq" "never_pending q okq" "okp s" "okq t" "tp s + tq t + 2 < n"
  shows "drive n (cmp_poll p q) (cmp_new s t)
      = Some (if ip s = iq t then Equal else if ord_class.lexordp (ip s) (iq t) then Less else Greater) \<and>
    drive n (lt_poll (\<lambda>x y. Some (ord_cmp x y)) p q) (cmp_new s t) = Some (ord_class.lexordp (ip s) (iq t))"
proof -
  let ?c = "cmp_new s t :: ('s, 't, 'a, 'a) CmpFuture"
  have c: "cmp_ok okp okq ?c" "cmp_todo tp tq ?c < n" "cmp_result ord cmp ip iq ?c = lex_fn ord cmp (ip s) (iq t)" for ord and cmp :: "'a \<Rightarrow> 'a \<Rightarrow> 'o"
    using assms(4-6) by (simp_all add: cmp_defs cmp_new_def fuse_defs)
  have irr: "\<not> ord_class.lexordp xs xs" for xs :: "'a list"
    by (induction xs) auto
  have "drive n (cmp_poll p q) ?c = Some (lex_fn id ord_cmp (ip s) (iq t))"
    using async_future.drive_result [OF cmp_loop_future [OF assms(1-3)] c(1,2), of id False ord_cmp] by (simp add: cmp_poll_def c(3))
  moreover have "drive n (lt_poll (\<lambda>x y. Some (ord_cmp x y)) p q) ?c = Some (lex_fn Some (\<lambda>x y. Some (ord_cmp x y)) (ip s) (iq t) = Some Less)"
    using async_future.drive_result [OF cmp_test_future [OF cmp_loop_future [OF assms(1-3)]] c(1,2)]
    by (simp add: lt_poll_def partial_cmp_poll_def c(3))
  ultimately show ?thesis
    using lex_fn_ord [of id "ip s" "iq t"] lex_fn_ord [of Some "ip s" "iq t"] irr by auto
qed

theorem streams_compare_lexicographically_witness:
  "drive 9 (cmp_poll from_iter_poll from_iter_poll) (cmp_new [1, 2] [1, 3 :: nat]) = Some Less"
proof -
  have "never_pending from_iter_poll (\<lambda>_. True)"
    by (simp add: never_pending_def from_iter_poll_def split: list.split)
  from streams_compare_lexicographically [OF iter.async_stream_axioms iter.async_stream_axioms this, of "[1, 2]" "[1, 3 :: nat]" 9]
  show ?thesis by simp
qed

text \<open>
  Equality of streams ignores what one stream has beyond the end of the other: a stream and any
  extension of it are reported equal, and \<open>ne\<close> agrees.
\<close>

definition late_end :: "(nat, 'a) stream" where
  "late_end n = Some (if n = 0 then (Ready None, 0) else (Pending, n - 1))"

lemma from_iter_simps:
  "from_iter_poll [] = Some (Ready None, [])" "from_iter_poll (x # xs) = Some (Ready (Some x), xs)"
  by (simp_all add: from_iter_poll_def)

lemma eq_one_done:
  "\<exists>c. eq_poll from_iter_poll from_iter_poll \<lparr>eq_l = \<lparr>fstream = xs, fdone = True\<rparr>, eq_r = \<lparr>fstream = ys, fdone = False\<rparr>\<rparr> = Some (Ready True, c)"
proof (induction ys)
  case Nil
  show ?case by (subst eq_poll.simps) (simp add: fuse_poll_def from_iter_simps)
next
  case (Cons y ys)
  then show ?case by (subst eq_poll.simps) (simp add: fuse_poll_def from_iter_simps)
qed

lemma eq_ignores_length:
  "(\<exists>c. eq_poll from_iter_poll from_iter_poll (eq_new xs (xs @ ys)) = Some (Ready True, c)) \<and>
   (\<exists>c. ne_poll from_iter_poll from_iter_poll (eq_new xs (xs @ ys)) = Some (Ready False, c))"
proof (induction xs)
  case Nil
  show ?case
  proof (cases ys)
    case Nil
    show ?thesis
      by (subst eq_poll.simps, subst ne_poll.simps) (simp add: Nil eq_new_def fuse_poll_def from_iter_simps)
  next
    case (Cons z zs)
    then show ?thesis
      by (subst eq_poll.simps, subst ne_poll.simps) (simp add: eq_new_def fuse_poll_def from_iter_simps eq_one_done)
  qed
next
  case (Cons x xs)
  then show ?case
    by (subst eq_poll.simps, subst ne_poll.simps) (simp add: eq_new_def fuse_poll_def from_iter_simps)
qed

text \<open>Two empty streams are reported as different when the right one is pending once before it ends.\<close>

lemma cmp_late_end: "drive 2 (cmp_poll from_iter_poll late_end) (cmp_new ([] :: nat list) 1) = Some Less"
proof -
  let ?d = "\<lparr>cmp_l = \<lparr>fstream = [], fdone = True\<rparr>, cmp_r = \<lparr>fstream = 0, fdone = False\<rparr>, l_cache = None, r_cache = None\<rparr>
    :: (nat list, nat, nat, nat) CmpFuture"
  have "cmp_poll from_iter_poll late_end (cmp_new ([] :: nat list) 1) = Some (Pending, ?d)"
    unfolding cmp_poll_def by (subst cmp_loop.simps)
      (simp add: cmp_new_def cmp_fill_l_def cmp_fill_r_def fuse_poll_def from_iter_simps late_end_def)
  moreover have "cmp_poll from_iter_poll late_end ?d = Some (Ready Less, ?d)"
    unfolding cmp_poll_def by (subst cmp_loop.simps) simp
  ultimately show ?thesis by (simp add: numeral_2_eq_2)
qed

end
