(* ===== verification/Syscall_Mem.thy ===== *)
theory Syscall_Mem
  imports Mem_Claims
begin

section \<open>The memory calls\<close>

text \<open>
  The system calls on the address space of a process (\<open>syscall/src/syscall_mem/imp.rs\<close>): the heap,
  mapping, unmapping, protecting and moving memory, and shared memory segments. The handlers decode
  their arguments, check them and call the operations of the memory set. The bits of the mapping
  flags are those of the external page table crate, a parameter.
\<close>

record map_consts =
  mf_user :: MappingFlags
  mf_read :: MappingFlags
  mf_write :: MappingFlags
  mf_execute :: MappingFlags

datatype fd_entry = FileDesc File | OtherDesc

record 'pt process =
  memory_set :: "'pt MemorySet"
  heap_bottom :: nat
  heap_top :: nat
  fd_table :: "fd_entry option list"
  proc_id :: nat

definition MAX_HEAP_SIZE :: nat where "MAX_HEAP_SIZE = 0x20000"

definition syscall_brk :: "nat \<Rightarrow> 'pt process \<Rightarrow> int sys_result \<times> 'pt process" where
  "syscall_brk brk p =
     (if brk \<noteq> 0 \<and> brk \<ge> heap_bottom p \<and> brk \<le> uadd (heap_bottom p) MAX_HEAP_SIZE then (Inr (swrap (int brk)), p\<lparr>heap_top := brk\<rparr>)
      else (Inr (swrap (int (heap_top p))), p))"

subsection \<open>Flags\<close>

definition bits_contain :: "u32 \<Rightarrow> u32 \<Rightarrow> bool" where
  "bits_contain x f \<longleftrightarrow> x AND f = f"

abbreviation "PROT_READ \<equiv> 1 :: u32"
abbreviation "PROT_WRITE \<equiv> 2 :: u32"
abbreviation "PROT_EXEC \<equiv> 4 :: u32"

definition prot_bits :: "nat \<Rightarrow> u32" where
  "prot_bits x = of_nat x AND (PROT_READ OR PROT_WRITE OR PROT_EXEC)"

definition prot_to_flags :: "map_consts \<Rightarrow> u32 \<Rightarrow> MappingFlags" where
  "prot_to_flags c v =
     mf_user c OR (if bits_contain v PROT_READ then mf_read c else 0) OR (if bits_contain v PROT_WRITE then mf_write c else 0)
       OR (if bits_contain v PROT_EXEC then mf_execute c else 0)"

abbreviation "MAP_SHARED \<equiv> 1 :: u32"
abbreviation "MAP_PRIVATE \<equiv> 2 :: u32"
abbreviation "MAP_FIXED \<equiv> 0x10 :: u32"
abbreviation "MAP_ANONYMOUS \<equiv> 0x20 :: u32"
abbreviation "MAP_NORESERVE \<equiv> 0x4000 :: u32"
abbreviation "MAP_STACK \<equiv> 0x20000 :: u32"

definition mmap_bits :: "nat \<Rightarrow> u32" where
  "mmap_bits x = of_nat x AND (MAP_SHARED OR MAP_PRIVATE OR MAP_FIXED OR MAP_ANONYMOUS OR MAP_NORESERVE OR MAP_STACK)"

abbreviation "MREMAP_MAYMOVE \<equiv> 1 :: u32"
abbreviation "MREMAP_FIXED \<equiv> 2 :: u32"
abbreviation "MREMAP_DONTUNMAP \<equiv> 4 :: u32"

definition mremap_bits :: "nat \<Rightarrow> u32" where
  "mremap_bits x = of_nat x AND (MREMAP_MAYMOVE OR MREMAP_FIXED OR MREMAP_DONTUNMAP)"

subsection \<open>Mappings\<close>

text \<open>Handlers return \<open>None\<close> when they panic.\<close>

definition mmap_result :: "nat ax_result \<Rightarrow> int sys_result" where
  "mmap_result r = (case r of Inr a \<Rightarrow> Inr (swrap (int a)) | Inl NoMemory \<Rightarrow> Inl ENOMEM | Inl _ \<Rightarrow> Inl EINVAL)"

definition syscall_mmap ::
  "map_consts \<Rightarrow> access \<Rightarrow> 'pt paging \<Rightarrow> contiguous \<Rightarrow> nat \<Rightarrow> nat \<Rightarrow> nat \<Rightarrow> nat \<Rightarrow> nat \<Rightarrow> nat \<Rightarrow> nat \<Rightarrow> 'pt process \<Rightarrow> machine
     \<Rightarrow> (int sys_result \<times> 'pt process \<times> machine) option" where
  "syscall_mmap c acc pg contig user_start start len prot0 flags0 fd0 off p m =
     (let prot = prot_to_flags c (prot_bits prot0);
          flags = mmap_bits flags0;
          fd = i32_wrap (int fd0);
          fixed = bits_contain flags MAP_FIXED;
          shr = bits_contain flags MAP_SHARED;
          go = (\<lambda>be. map_option (\<lambda>(r, ms, m'). (mmap_result r, p\<lparr>memory_set := ms\<rparr>, m'))
                 (mmap acc pg contig user_start start len prot shr fixed be (memory_set p) m))
      in if fixed \<and> start = 0 then Some (Inl EINVAL, p, m)
         else if bits_contain flags MAP_ANONYMOUS then (if off \<noteq> 0 then Some (Inl EINVAL, p, m) else go None)
         else if fd \<ge> i32_wrap (int (length (fd_table p))) \<or> fd < 0 then Some (Inl EINVAL, p, m)
         else case fd_table p ! nat fd of
           None \<Rightarrow> Some (Inl EINVAL, p, m)
         | Some OtherDesc \<Rightarrow> None
         | Some (FileDesc f) \<Rightarrow> Option.bind (backend_new acc (mfs m) f off) (\<lambda>be. go (Some be)))"

definition syscall_munmap :: "access \<Rightarrow> 'pt paging \<Rightarrow> nat \<Rightarrow> nat \<Rightarrow> 'pt process \<Rightarrow> machine \<Rightarrow> (int sys_result \<times> 'pt process) option" where
  "syscall_munmap acc pg start len p m =
     map_option (\<lambda>ms. (Inr 0, p\<lparr>memory_set := ms\<rparr>)) (munmap acc pg (mfs m) start len (memory_set p))"

definition syscall_msync :: "access \<Rightarrow> nat \<Rightarrow> nat \<Rightarrow> 'pt process \<Rightarrow> machine \<Rightarrow> (int sys_result \<times> 'pt process \<times> machine) option" where
  "syscall_msync acc start len p m =
     map_option (\<lambda>(ms, m'). (Inr 0, p\<lparr>memory_set := ms\<rparr>, m')) (msync acc start len (memory_set p) m)"

definition syscall_mprotect ::
  "map_consts \<Rightarrow> access \<Rightarrow> 'pt paging \<Rightarrow> nat \<Rightarrow> nat \<Rightarrow> nat \<Rightarrow> 'pt process \<Rightarrow> machine \<Rightarrow> (int sys_result \<times> 'pt process) option" where
  "syscall_mprotect c acc pg start len prot0 p m =
     map_option (\<lambda>ms. (Inr 0, p\<lparr>memory_set := ms\<rparr>))
       (mprotect acc pg (mfs m) start len (prot_to_flags c (prot_bits prot0)) (memory_set p))"

definition syscall_mremap ::
  "access \<Rightarrow> 'pt paging \<Rightarrow> contiguous \<Rightarrow> nat \<Rightarrow> MappingFlags \<Rightarrow> nat \<Rightarrow> nat \<Rightarrow> nat \<Rightarrow> nat \<Rightarrow> nat \<Rightarrow> 'pt process \<Rightarrow> machine
     \<Rightarrow> (int sys_result \<times> 'pt process \<times> machine) option" where
  "syscall_mremap acc pg contig user_start user_rw old_addr old_size new_size flags0 new_addr p m =
     (let flags = mremap_bits flags0;
          maymove = bits_contain flags MREMAP_MAYMOVE;
          fixed = bits_contain flags MREMAP_FIXED;
          dontunmap = bits_contain flags MREMAP_DONTUNMAP
      in if \<not> is_aligned_4k old_addr \<or> new_size = 0 then Some (Inl EINVAL, p, m)
         else if \<not> (uadd new_addr new_size \<le> old_addr \<or> new_addr \<ge> uadd old_addr old_size) then Some (Inl EINVAL, p, m)
         else if fixed \<and> \<not> maymove then Some (Inl EINVAL, p, m)
         else if dontunmap \<and> \<not> maymove then Some (Inl EINVAL, p, m)
         else if dontunmap \<and> old_size \<noteq> new_size then Some (Inl EINVAL, p, m)
         else if old_size = 0 \<and> \<not> maymove then Some (Inl EINVAL, p, m)
         else if fixed then None
         else if old_size > new_size then
           map_option (\<lambda>ms. (Inr (swrap (int old_addr)), p\<lparr>memory_set := ms\<rparr>, m))
             (munmap acc pg (mfs m) (uadd old_addr new_size) (old_size - new_size) (memory_set p))
         else
           map_option (\<lambda>(a, ms, m'). (Inr a, p\<lparr>memory_set := ms\<rparr>, m'))
             (mremap acc pg contig user_start user_rw old_addr old_size new_size (memory_set p) m))"

subsection \<open>Shared memory\<close>

abbreviation "IPC_CREAT \<equiv> 0x200 :: u32"
abbreviation "IPC_EXCL \<equiv> 0x400 :: u32"
abbreviation "SHM_HUGETLB \<equiv> 0x800 :: u32"
abbreviation "SHM_NORESERVE \<equiv> 0x1000 :: u32"

definition shm_flags_from_bits :: "u32 \<Rightarrow> u32 option" where
  "shm_flags_from_bits x = (if x AND NOT (IPC_CREAT OR IPC_EXCL OR SHM_HUGETLB OR SHM_NORESERVE) = 0 then Some x else None)"

text \<open>The permission bits are taken off the flags. When a segment is to be created for a key, the
  lock of the key map is already held and \<open>create_shared_mem\<close> waits for it forever.\<close>

definition syscall_shmget ::
  "(nat \<Rightarrow> nat ax_result) \<Rightarrow> nat \<Rightarrow> nat \<Rightarrow> nat \<Rightarrow> nat \<Rightarrow> 'pt process \<Rightarrow> shm_global \<Rightarrow> (int sys_result \<times> 'pt process \<times> shm_global) option" where
  "syscall_shmget galloc now key0 sz flags0 p g =
     (let key = i32_wrap (int key0);
          bits = of_nat flags0 :: u32;
          mode = bits AND (push_bit 10 1 - 1)
      in case shm_flags_from_bits (bits - mode) of
           None \<Rightarrow> Some (Inl EINVAL, p, g)
         | Some flags \<Rightarrow>
             if key = 0 then
               case create_shared_mem galloc now key sz (proc_id p) 0 0 (unat mode) g of
                 (Inl _, g') \<Rightarrow> Some (Inl EINVAL, p, g')
               | (Inr (shmid, mem), g') \<Rightarrow>
                   map_option (\<lambda>ms. (Inr shmid, p\<lparr>memory_set := ms\<rparr>, g')) (add_private_shared_mem shmid mem (memory_set p))
             else case map_of (KEY_TO_SHMID g) key of
               Some shmid \<Rightarrow>
                 Some (if bits_contain flags IPC_CREAT \<and> bits_contain flags IPC_EXCL then Inl EEXIST else Inr shmid, p, g)
             | None \<Rightarrow> if bits_contain flags IPC_CREAT then None else Some (Inl ENOENT, p, g))"

abbreviation "SHM_RDONLY \<equiv> 0x1000 :: u32"
abbreviation "SHM_RND \<equiv> 0x2000 :: u32"
abbreviation "SHM_REMAP \<equiv> 0x4000 :: u32"
abbreviation "SHM_EXEC \<equiv> 0x8000 :: u32"

definition shmat_flags_from_bits :: "u32 \<Rightarrow> u32 option" where
  "shmat_flags_from_bits x = (if x AND NOT (SHM_RND OR SHM_EXEC OR SHM_RDONLY OR SHM_REMAP) = 0 then Some x else None)"

definition align_up_4k :: "nat \<Rightarrow> nat" where
  "align_up_4k a = align_down_4k (usub (uadd a PAGE_SIZE_4K) 1)"

definition shmat_map_flags :: "map_consts \<Rightarrow> u32 \<Rightarrow> MappingFlags" where
  "shmat_map_flags c flags =
     mf_user c OR (if bits_contain flags SHM_RDONLY then mf_read c else mf_read c OR mf_write c)
       OR (if bits_contain flags SHM_EXEC then mf_execute c else 0)"

definition shmat_addr ::
  "access \<Rightarrow> 'pt paging \<Rightarrow> vfs \<Rightarrow> nat \<Rightarrow> nat \<Rightarrow> nat \<Rightarrow> u32 \<Rightarrow> 'pt MemorySet \<Rightarrow> (nat sys_result \<times> 'pt MemorySet) option" where
  "shmat_addr acc pg fs user_start addr sz flags ms =
     (if addr = 0 then
        Some (case find_free_area user_start addr sz ms of Some a \<Rightarrow> Inr a | None \<Rightarrow> Inl ENOMEM, ms)
      else if \<not> is_aligned_4k addr \<and> \<not> bits_contain flags SHM_RND then Some (Inl EINVAL, ms)
      else let a = (if is_aligned_4k addr then addr else align_up_4k addr)
           in if bits_contain flags SHM_REMAP then map_option (Pair (Inr a)) (split_for_area acc pg fs a sz ms) else None)"

definition syscall_shmat ::
  "map_consts \<Rightarrow> access \<Rightarrow> 'pt paging \<Rightarrow> nat \<Rightarrow> nat \<Rightarrow> nat \<Rightarrow> nat \<Rightarrow> 'pt process \<Rightarrow> machine \<Rightarrow> shm_global \<Rightarrow> (int sys_result \<times> 'pt process) option" where
  "syscall_shmat c acc pg user_start shmid0 addr flags0 p m g = do {
     flags \<leftarrow> shmat_flags_from_bits (of_nat flags0);
     let shmid = i32_wrap (int shmid0);
     (case (case get_private_shared_mem shmid (memory_set p) of Some mem \<Rightarrow> Some mem | None \<Rightarrow> get_shared_mem shmid g) of
        None \<Rightarrow> Some (Inl EINVAL, p)
      | Some mem \<Rightarrow> do {
          (r, ms) \<leftarrow> shmat_addr acc pg (mfs m) user_start addr (sm_size mem) flags (memory_set p);
          (case r of
             Inl e \<Rightarrow> Some (Inl e, p\<lparr>memory_set := ms\<rparr>)
           | Inr a \<Rightarrow>
               map_option (\<lambda>ms'. (Inr (swrap (int a)), p\<lparr>memory_set := ms'\<rparr>)) (attach_shared_mem pg mem a (shmat_map_flags c flags) ms))
        })
   }"

subsection \<open>Lemmas\<close>

text \<open>The heap of a process stays in its range.\<close>

definition heap_ok :: "'pt process \<Rightarrow> bool" where
  "heap_ok p \<longleftrightarrow> heap_bottom p \<le> heap_top p \<and> heap_top p \<le> heap_bottom p + MAX_HEAP_SIZE \<and> heap_bottom p + MAX_HEAP_SIZE < usize_lim"

lemma brk_keeps_heap:
  assumes "heap_ok p" "syscall_brk brk p = (r, p')"
  shows "heap_ok p'" "r = Inr (swrap (int (heap_top p')))" "memory_set p' = memory_set p"
  using assms by (auto simp: syscall_brk_def heap_ok_def uadd_eq split: if_splits)

text \<open>The permission mask of \<open>shmget\<close> is one bit too wide and takes \<open>IPC_CREAT\<close> with it.\<close>

lemma mode_takes_creat: "\<not> bits_contain (bits - (bits AND (push_bit 10 1 - 1))) IPC_CREAT"
proof
  let ?rest = "bits - (bits AND (push_bit 10 1 - 1))"
  have m: "push_bit 10 1 - 1 = (mask 10 :: u32)" by (simp add: mask_eq_exp_minus_1)
  have "?rest AND mask 10 = 0"
    unfolding m by (simp add: mask_eqs)
  moreover have "mask 10 AND IPC_CREAT = IPC_CREAT"
    by (simp add: mask_eq_exp_minus_1)
  moreover have "(?rest AND mask 10) AND IPC_CREAT = ?rest AND (mask 10 AND IPC_CREAT)"
    by (rule and.assoc)
  ultimately have "?rest AND IPC_CREAT = 0"
    by (simp only: zero_and_eq)
  moreover assume "bits_contain ?rest IPC_CREAT"
  ultimately show False by (simp add: bits_contain_def)
qed

text \<open>No segment is ever created for a key: the call fails and changes nothing.\<close>

lemma shmget_never_creates:
  assumes "i32_wrap (int key) \<noteq> 0" "map_of (KEY_TO_SHMID g) (i32_wrap (int key)) = None"
  shows "\<exists>e \<in> {EINVAL, ENOENT}. syscall_shmget galloc now key sz flags p g = Some (Inl e, p, g)"
  using assms mode_takes_creat
  by (auto simp: syscall_shmget_def Let_def shm_flags_from_bits_def)

text \<open>Shrinking a mapping in place unmaps its tail.\<close>

lemma mremap_shrinks:
  assumes "is_aligned_4k old_addr" "0 < new_size" "new_size < old_size" "old_addr + old_size < usize_lim"
    and "uadd new_addr new_size \<le> old_addr \<or> old_addr + old_size \<le> new_addr"
    and "\<not> bits_contain (mremap_bits flags) MREMAP_FIXED" "\<not> bits_contain (mremap_bits flags) MREMAP_DONTUNMAP"
  shows "syscall_mremap acc pg contig user_start user_rw old_addr old_size new_size flags new_addr p m =
    map_option (\<lambda>ms. (Inr (swrap (int old_addr)), p\<lparr>memory_set := ms\<rparr>, m))
      (munmap acc pg (mfs m) (old_addr + new_size) (old_size - new_size) (memory_set p))"
  using assms by (auto simp: syscall_mremap_def Let_def uadd_eq)

subsection \<open>Properties\<close>


text \<open>A process with two areas, a machine without frames, and some flag bits.\<close>

definition small_process :: "(nat \<Rightarrow> pte option) process" where
  "small_process = \<lparr>memory_set = two_areas, heap_bottom = 0, heap_top = 0, fd_table = [], proc_id = 1\<rparr>"

definition bare_machine :: machine where
  "bare_machine = \<lparr>phys = \<lambda>_. [], free_pages = [], mfs = ramfs_new\<rparr>"

definition some_consts :: map_consts where
  "some_consts = \<lparr>mf_user = 8, mf_read = 1, mf_write = 2, mf_execute = 4\<rparr>"


end
