(* ===== verification/Disk.thy ===== *)
theory Disk
  imports Prelude
begin

section \<open>The disk\<close>

text \<open>
  A block device with a cursor (\<open>async_fs/src/dev.rs\<close>) and the byte-wise reads, writes and seeks the
  FAT file system makes on it (\<open>async_fs/src/fs/fatfs.rs\<close>). The block device is external code: its
  operations are the parameter \<open>ops\<close> and \<open>block_laws\<close> states their documentation, with \<open>flat\<close> the
  bytes of the device in order. The lemmas show that the disk behaves as that flat array of bytes.
\<close>

definition BLOCK_SIZE :: nat where "BLOCK_SIZE = 512"

datatype dev_error = DevIo | DevInvalidParam | DevNoMemory

record 'd block_ops =
  num_blocks :: "'d \<Rightarrow> nat"
  block_size :: "'d \<Rightarrow> nat"
  read_block :: "'d \<Rightarrow> nat \<Rightarrow> nat \<Rightarrow> (dev_error + byte list) \<times> 'd"
  write_block :: "'d \<Rightarrow> nat \<Rightarrow> byte list \<Rightarrow> (dev_error + unit) \<times> 'd"

record 'd Disk =
  block_id :: nat
  doffset :: nat
  dev :: 'd

definition disk_new :: "'d block_ops \<Rightarrow> 'd \<Rightarrow> 'd Disk option" where
  "disk_new ops d = Option.bind (rassert (BLOCK_SIZE = block_size ops d)) (\<lambda>_. Some \<lparr>block_id = 0, doffset = 0, dev = d\<rparr>)"

definition disk_size :: "'d block_ops \<Rightarrow> 'd Disk \<Rightarrow> nat" where
  "disk_size ops d = umul (num_blocks ops (dev d)) BLOCK_SIZE"

definition disk_position :: "'d Disk \<Rightarrow> nat" where
  "disk_position d = uadd (umul (block_id d) BLOCK_SIZE) (doffset d)"

definition disk_set_position :: "nat \<Rightarrow> 'd Disk \<Rightarrow> 'd Disk" where
  "disk_set_position pos d = d\<lparr>block_id := pos div BLOCK_SIZE, doffset := pos mod BLOCK_SIZE\<rparr>"

text \<open>The cursor behind a part of a block.\<close>

definition advance_in_block :: "nat \<Rightarrow> 'd Disk \<Rightarrow> 'd Disk" where
  "advance_in_block cnt d =
     (let off = uadd (doffset d) cnt
      in if off \<ge> BLOCK_SIZE then d\<lparr>block_id := uadd (block_id d) 1, doffset := usub off BLOCK_SIZE\<rparr> else d\<lparr>doffset := off\<rparr>)"

definition read_one :: "'d block_ops \<Rightarrow> nat \<Rightarrow> 'd Disk \<Rightarrow> ((dev_error + byte list) \<times> 'd Disk) option" where
  "read_one ops n d =
     (if doffset d = 0 \<and> n \<ge> BLOCK_SIZE then
        case read_block ops (dev d) (block_id d) BLOCK_SIZE of
          (Inl e, dv) \<Rightarrow> Some (Inl e, d\<lparr>dev := dv\<rparr>)
        | (Inr bs, dv) \<Rightarrow> Some (Inr bs, d\<lparr>dev := dv, block_id := uadd (block_id d) 1\<rparr>)
      else
        let start = doffset d; cnt = min n (usub BLOCK_SIZE (doffset d))
        in case read_block ops (dev d) (block_id d) BLOCK_SIZE of
             (Inl e, dv) \<Rightarrow> Some (Inl e, d\<lparr>dev := dv\<rparr>)
           | (Inr data, dv) \<Rightarrow>
               Option.bind (rassert (start + cnt \<le> BLOCK_SIZE))
                 (\<lambda>_. Some (Inr (take cnt (drop start data)), advance_in_block cnt (d\<lparr>dev := dv\<rparr>))))"

definition write_one :: "'d block_ops \<Rightarrow> byte list \<Rightarrow> 'd Disk \<Rightarrow> ((dev_error + nat) \<times> 'd Disk) option" where
  "write_one ops buf d =
     (if doffset d = 0 \<and> length buf \<ge> BLOCK_SIZE then
        case write_block ops (dev d) (block_id d) (take BLOCK_SIZE buf) of
          (Inl e, dv) \<Rightarrow> Some (Inl e, d\<lparr>dev := dv\<rparr>)
        | (Inr _, dv) \<Rightarrow> Some (Inr BLOCK_SIZE, d\<lparr>dev := dv, block_id := uadd (block_id d) 1\<rparr>)
      else
        let start = doffset d; cnt = min (length buf) (usub BLOCK_SIZE (doffset d))
        in case read_block ops (dev d) (block_id d) BLOCK_SIZE of
             (Inl e, dv) \<Rightarrow> Some (Inl e, d\<lparr>dev := dv\<rparr>)
           | (Inr data, dv) \<Rightarrow>
               Option.bind (rassert (start + cnt \<le> BLOCK_SIZE))
                 (\<lambda>_. case write_block ops dv (block_id d) (take start data @ take cnt buf @ drop (start + cnt) data) of
                        (Inl e, dv') \<Rightarrow> Some (Inl e, d\<lparr>dev := dv'\<rparr>)
                      | (Inr _, dv') \<Rightarrow> Some (Inr cnt, advance_in_block cnt (d\<lparr>dev := dv'\<rparr>))))"

definition read_offset :: "'d block_ops \<Rightarrow> nat \<Rightarrow> 'd Disk \<Rightarrow> (byte list \<times> 'd Disk) option" where
  "read_offset ops off d =
     (case read_block ops (dev d) (off div BLOCK_SIZE) BLOCK_SIZE of
        (Inl _, _) \<Rightarrow> None
      | (Inr bs, dv) \<Rightarrow> Some (bs, d\<lparr>dev := dv\<rparr>))"

definition write_offset :: "'d block_ops \<Rightarrow> nat \<Rightarrow> byte list \<Rightarrow> 'd Disk \<Rightarrow> (nat \<times> 'd Disk) option" where
  "write_offset ops off buf d =
     Option.bind (rassert (length buf = BLOCK_SIZE \<and> off mod BLOCK_SIZE = 0))
       (\<lambda>_. case write_block ops (dev d) (off div BLOCK_SIZE) buf of
              (Inl _, _) \<Rightarrow> None
            | (Inr _, dv) \<Rightarrow> Some (length buf, d\<lparr>dev := dv\<rparr>))"

text \<open>The loops of the FAT file system; \<open>acc\<close> are the bytes read so far.\<close>

partial_function (option) disk_read_loop ::
  "'d block_ops \<Rightarrow> nat \<Rightarrow> byte list \<Rightarrow> 'd Disk \<Rightarrow> ((unit + byte list) \<times> 'd Disk) option" where
  "disk_read_loop ops n acc d =
     (if n = 0 then Some (Inr acc, d)
      else case read_one ops n d of
        None \<Rightarrow> None
      | Some (Inl _, d') \<Rightarrow> Some (Inl (), d')
      | Some (Inr bs, d') \<Rightarrow> if bs = [] then Some (Inr acc, d') else disk_read_loop ops (n - length bs) (acc @ bs) d')"

definition disk_read :: "'d block_ops \<Rightarrow> nat \<Rightarrow> 'd Disk \<Rightarrow> ((unit + byte list) \<times> 'd Disk) option" where
  "disk_read ops n d = disk_read_loop ops n [] d"

partial_function (option) disk_write_loop ::
  "'d block_ops \<Rightarrow> byte list \<Rightarrow> nat \<Rightarrow> 'd Disk \<Rightarrow> ((unit + nat) \<times> 'd Disk) option" where
  "disk_write_loop ops buf len d =
     (if buf = [] then Some (Inr len, d)
      else case write_one ops buf d of
        None \<Rightarrow> None
      | Some (Inl _, d') \<Rightarrow> Some (Inl (), d')
      | Some (Inr n, d') \<Rightarrow> if n = 0 then Some (Inr len, d') else disk_write_loop ops (drop n buf) (uadd len n) d')"

definition disk_write :: "'d block_ops \<Rightarrow> byte list \<Rightarrow> 'd Disk \<Rightarrow> ((unit + nat) \<times> 'd Disk) option" where
  "disk_write ops buf d = disk_write_loop ops buf 0 d"

definition disk_seek :: "'d block_ops \<Rightarrow> SeekFrom \<Rightarrow> 'd Disk \<Rightarrow> (unit + nat) \<times> 'd Disk" where
  "disk_seek ops pos d =
     (case (case pos of
              Start p \<Rightarrow> Some p
            | Current off \<Rightarrow> checked_add_signed (disk_position d) off
            | End off \<Rightarrow> checked_add_signed (disk_size ops d) off) of
        None \<Rightarrow> (Inl (), d)
      | Some p \<Rightarrow> (Inr p, disk_set_position p d))"

subsection \<open>The device\<close>

text \<open>A successful read of a block returns its bytes, a successful write replaces them; a failed read
  changes nothing. A device that works (\<open>ok\<close>) has less than \<open>2 ^ 64\<close> bytes and stays one.\<close>

definition block_laws :: "'d block_ops \<Rightarrow> ('d \<Rightarrow> bool) \<Rightarrow> ('d \<Rightarrow> byte list) \<Rightarrow> bool" where
  "block_laws ops ok flat \<longleftrightarrow>
     (\<forall>d. ok d \<longrightarrow> block_size ops d = BLOCK_SIZE \<and> num_blocks ops d * BLOCK_SIZE = length (flat d) \<and> length (flat d) < usize_lim) \<and>
     (\<forall>d b. ok d \<longrightarrow> (case read_block ops d b BLOCK_SIZE of
        (Inl e, d') \<Rightarrow> ok d' \<and> flat d' = flat d
      | (Inr bs, d') \<Rightarrow> ok d' \<and> flat d' = flat d \<and> (b + 1) * BLOCK_SIZE \<le> length (flat d) \<and>
          bs = take BLOCK_SIZE (drop (b * BLOCK_SIZE) (flat d)))) \<and>
     (\<forall>d b bs. ok d \<and> length bs = BLOCK_SIZE \<longrightarrow> (case write_block ops d b bs of
        (Inl e, d') \<Rightarrow> ok d'
      | (Inr _, d') \<Rightarrow> ok d' \<and> (b + 1) * BLOCK_SIZE \<le> length (flat d) \<and>
          flat d' = take (b * BLOCK_SIZE) (flat d) @ bs @ drop ((b + 1) * BLOCK_SIZE) (flat d)))"

lemma block_lawsD:
  assumes "block_laws ops ok flat" "ok d"
  shows "num_blocks ops d * BLOCK_SIZE = length (flat d)" "length (flat d) < usize_lim"
    and "read_block ops d b BLOCK_SIZE = (Inr bs, d') \<Longrightarrow> ok d' \<and> flat d' = flat d \<and> (b + 1) * BLOCK_SIZE \<le> length (flat d) \<and>
          bs = take BLOCK_SIZE (drop (b * BLOCK_SIZE) (flat d))"
    and "read_block ops d b BLOCK_SIZE = (Inl e, d') \<Longrightarrow> ok d' \<and> flat d' = flat d"
    and "length bs = BLOCK_SIZE \<Longrightarrow> write_block ops d b bs = (Inl e, d') \<Longrightarrow> ok d'"
    and "length bs = BLOCK_SIZE \<Longrightarrow> write_block ops d b bs = (Inr u, d') \<Longrightarrow> ok d' \<and> (b + 1) * BLOCK_SIZE \<le> length (flat d) \<and>
        flat d' = take (b * BLOCK_SIZE) (flat d) @ bs @ drop ((b + 1) * BLOCK_SIZE) (flat d)"
proof -
  note l = assms(1) [unfolded block_laws_def]
  from l assms(2) show "num_blocks ops d * BLOCK_SIZE = length (flat d)" "length (flat d) < usize_lim" by auto
  have r: "case read_block ops d b BLOCK_SIZE of (Inl e, d') \<Rightarrow> ok d' \<and> flat d' = flat d
      | (Inr bs, d') \<Rightarrow> ok d' \<and> flat d' = flat d \<and> (b + 1) * BLOCK_SIZE \<le> length (flat d) \<and>
          bs = take BLOCK_SIZE (drop (b * BLOCK_SIZE) (flat d))"
    by (rule l [THEN conjunct2, THEN conjunct1, rule_format, OF assms(2)])
  show "read_block ops d b BLOCK_SIZE = (Inr bs, d') \<Longrightarrow> ok d' \<and> flat d' = flat d \<and> (b + 1) * BLOCK_SIZE \<le> length (flat d) \<and>
          bs = take BLOCK_SIZE (drop (b * BLOCK_SIZE) (flat d))"
    "read_block ops d b BLOCK_SIZE = (Inl e, d') \<Longrightarrow> ok d' \<and> flat d' = flat d"
    using r by simp_all
  assume len: "length bs = BLOCK_SIZE"
  have "case write_block ops d b bs of (Inl e, d') \<Rightarrow> ok d'
      | (Inr _, d') \<Rightarrow> ok d' \<and> (b + 1) * BLOCK_SIZE \<le> length (flat d) \<and>
          flat d' = take (b * BLOCK_SIZE) (flat d) @ bs @ drop ((b + 1) * BLOCK_SIZE) (flat d)"
    by (rule l [THEN conjunct2, THEN conjunct2, rule_format, OF conjI [OF assms(2) len]])
  then show "write_block ops d b bs = (Inl e, d') \<Longrightarrow> ok d'"
    "write_block ops d b bs = (Inr u, d') \<Longrightarrow> ok d' \<and> (b + 1) * BLOCK_SIZE \<le> length (flat d) \<and>
        flat d' = take (b * BLOCK_SIZE) (flat d) @ bs @ drop ((b + 1) * BLOCK_SIZE) (flat d)"
    by simp_all
qed

text \<open>A device that is a list of bytes.\<close>

definition ram_ops :: "byte list block_ops" where
  "ram_ops = \<lparr>num_blocks = (\<lambda>d. length d div BLOCK_SIZE), block_size = (\<lambda>_. BLOCK_SIZE),
     read_block = (\<lambda>d b n. if b * BLOCK_SIZE + n \<le> length d then (Inr (take n (drop (b * BLOCK_SIZE) d)), d) else (Inl DevIo, d)),
     write_block = (\<lambda>d b bs. if b * BLOCK_SIZE + length bs \<le> length d
        then (Inr (), take (b * BLOCK_SIZE) d @ bs @ drop (b * BLOCK_SIZE + length bs) d) else (Inl DevIo, d))\<rparr>"

lemma ram_laws: "block_laws ram_ops (\<lambda>d. length d < usize_lim \<and> length d mod BLOCK_SIZE = 0) (\<lambda>d. d)"
  unfolding block_laws_def by (auto simp: ram_ops_def algebra_simps)

subsection \<open>The disk is a flat array\<close>

text \<open>The cursor is in a block, and its block starts below \<open>2 ^ 64\<close>, so positions do not wrap.\<close>

definition disk_ok :: "('d \<Rightarrow> bool) \<Rightarrow> 'd Disk \<Rightarrow> bool" where
  "disk_ok ok d \<longleftrightarrow> ok (dev d) \<and> doffset d < BLOCK_SIZE \<and> block_id d * BLOCK_SIZE < usize_lim"

lemma block_below: "b * BLOCK_SIZE < usize_lim \<Longrightarrow> off < BLOCK_SIZE \<Longrightarrow> b * BLOCK_SIZE + off < usize_lim"
  by (simp add: BLOCK_SIZE_def usize_lim_def)

lemma disk_position_eq: "disk_ok ok d \<Longrightarrow> disk_position d = block_id d * BLOCK_SIZE + doffset d"
  by (simp add: disk_position_def disk_ok_def umul_eq uadd_eq block_below)

lemma set_position_roundtrip:
  assumes "pos < usize_lim" "ok (dev d)"
  shows "disk_ok ok (disk_set_position pos d)" "disk_position (disk_set_position pos d) = pos"
proof -
  have "pos div BLOCK_SIZE * BLOCK_SIZE \<le> pos" by simp
  then show ok: "disk_ok ok (disk_set_position pos d)"
    using assms by (simp add: disk_ok_def disk_set_position_def BLOCK_SIZE_def)
  show "disk_position (disk_set_position pos d) = pos"
    using disk_position_eq [OF ok] by (simp add: disk_set_position_def)
qed

lemma advance_in_block_eq:
  assumes "disk_ok ok d" "doffset d + cnt \<le> BLOCK_SIZE" "(block_id d + 1) * BLOCK_SIZE < usize_lim"
  shows "disk_ok ok (advance_in_block cnt d)" "disk_position (advance_in_block cnt d) = disk_position d + cnt"
    "dev (advance_in_block cnt d) = dev d"
proof -
  have lim: "doffset d + cnt < usize_lim" "block_id d + 1 < usize_lim"
    using assms by (simp_all add: BLOCK_SIZE_def usize_lim_def)
  have eq: "block_id (advance_in_block cnt d) = (if doffset d + cnt = BLOCK_SIZE then block_id d + 1 else block_id d)"
    "doffset (advance_in_block cnt d) = (if doffset d + cnt = BLOCK_SIZE then 0 else doffset d + cnt)"
    using assms(2) lim by (auto simp: advance_in_block_def Let_def uadd_eq usub_eq)
  show dv: "dev (advance_in_block cnt d) = dev d"
    by (simp add: advance_in_block_def Let_def)
  show ok: "disk_ok ok (advance_in_block cnt d)"
    using assms by (auto simp: disk_ok_def eq dv BLOCK_SIZE_def)
  show "disk_position (advance_in_block cnt d) = disk_position d + cnt"
    unfolding disk_position_eq [OF ok] disk_position_eq [OF assms(1)] eq by simp
qed

lemma read_one_flat:
  assumes laws: "block_laws ops ok flat" and d: "disk_ok ok d" and n: "0 < n"
  shows "\<exists>r d'. read_one ops n d = Some (r, d') \<and> disk_ok ok d' \<and> flat (dev d') = flat (dev d) \<and>
    (\<forall>bs. r = Inr bs \<longrightarrow> bs \<noteq> [] \<and> length bs \<le> n \<and> disk_position d' = disk_position d + length bs \<and>
       disk_position d + length bs \<le> length (flat (dev d)) \<and> bs = take (length bs) (drop (disk_position d) (flat (dev d))))"
proof -
  from d have ok: "ok (dev d)" by (simp add: disk_ok_def)
  note l = block_lawsD [OF laws ok]
  obtain r dv where r: "read_block ops (dev d) (block_id d) BLOCK_SIZE = (r, dv)" by fastforce
  show ?thesis
  proof (cases r)
    case (Inl e)
    with r l(4) [of "block_id d" e dv] d show ?thesis
      by (auto simp: read_one_def disk_ok_def Let_def)
  next
    case (Inr data)
    have data: "ok dv" "flat dv = flat (dev d)" "(block_id d + 1) * BLOCK_SIZE \<le> length (flat (dev d))"
      "data = take BLOCK_SIZE (drop (block_id d * BLOCK_SIZE) (flat (dev d)))"
      using l(3) [of "block_id d" data dv] r Inr by auto
    have lim: "(block_id d + 1) * BLOCK_SIZE < usize_lim" using data(3) l(2) by simp
    show ?thesis
    proof (cases "doffset d = 0 \<and> n \<ge> BLOCK_SIZE")
      case True
      let ?d = "d\<lparr>dev := dv, block_id := uadd (block_id d) 1\<rparr>"
      have bid: "uadd (block_id d) 1 = block_id d + 1"
        using lim by (intro uadd_eq) (simp add: BLOCK_SIZE_def usize_lim_def)
      have ok': "disk_ok ok ?d"
        using d data(1) lim bid by (simp add: disk_ok_def)
      have len: "length data = BLOCK_SIZE" using data(3,4) by simp
      have pos: "disk_position d = block_id d * BLOCK_SIZE" "disk_position ?d = disk_position d + BLOCK_SIZE"
        using disk_position_eq [OF d] disk_position_eq [OF ok'] True bid by simp_all
      have "read_one ops n d = Some (Inr data, ?d)"
        using True r Inr by (simp add: read_one_def)
      with ok' len pos data True show ?thesis by (simp add: BLOCK_SIZE_def)
    next
      case False
      let ?cnt = "min n (BLOCK_SIZE - doffset d)" and ?d = "d\<lparr>dev := dv\<rparr>"
      have off: "doffset d < BLOCK_SIZE" "usub BLOCK_SIZE (doffset d) = BLOCK_SIZE - doffset d"
        using d by (auto simp: disk_ok_def BLOCK_SIZE_def usize_lim_def intro!: usub_eq)
      have ok': "disk_ok ok ?d" using d data(1) by (simp add: disk_ok_def)
      have cnt: "doffset ?d + ?cnt \<le> BLOCK_SIZE" "0 < ?cnt" using off(1) n by auto
      note a = advance_in_block_eq [OF ok' cnt(1)]
      have pos: "disk_position d = block_id d * BLOCK_SIZE + doffset d" "disk_position ?d = disk_position d"
        using disk_position_eq [OF d] by (simp_all add: disk_position_def)
      have bs: "take ?cnt (drop (doffset d) data) = take ?cnt (drop (disk_position d) (flat (dev d)))"
        unfolding data(4) pos(1) using off(1) by (simp add: drop_take add.commute min_def)
      have len: "length (take ?cnt (drop (disk_position d) (flat (dev d)))) = ?cnt"
        using data(3) pos(1) cnt(1) by simp
      have "read_one ops n d = Some (Inr (take ?cnt (drop (disk_position d) (flat (dev d)))), advance_in_block ?cnt ?d)"
        unfolding read_one_def if_not_P [OF False] using r Inr off cnt(1) by (simp add: Let_def bs [symmetric])
      moreover have "disk_position d + ?cnt \<le> length (flat (dev d))"
        using data(3) pos(1) cnt(1) by simp
      ultimately show ?thesis
        using a lim len cnt(2) data(2) pos(2) by auto
    qed
  qed
qed

lemma disk_read_loop_flat:
  assumes laws: "block_laws ops ok flat"
  shows "disk_ok ok d \<Longrightarrow> acc = take (length acc) (drop p0 (flat (dev d))) \<Longrightarrow> disk_position d = p0 + length acc \<Longrightarrow>
    \<exists>r d'. disk_read_loop ops n acc d = Some (r, d') \<and> disk_ok ok d' \<and> flat (dev d') = flat (dev d) \<and>
      (\<forall>bs. r = Inr bs \<longrightarrow> length bs = length acc + n \<and> bs = take (length acc + n) (drop p0 (flat (dev d))) \<and> disk_position d' = disk_position d + n)"
proof (induction n arbitrary: acc d rule: less_induct)
  case (less n)
  show ?case
  proof (cases "n = 0")
    case True
    with less.prems show ?thesis by (subst disk_read_loop.simps) auto
  next
    case False
    then have n: "0 < n" by simp
    from read_one_flat [OF laws less.prems(1) n] obtain r d' where r: "read_one ops n d = Some (r, d')" "disk_ok ok d'" "flat (dev d') = flat (dev d)"
      "\<forall>bs. r = Inr bs \<longrightarrow> bs \<noteq> [] \<and> length bs \<le> n \<and> disk_position d' = disk_position d + length bs \<and>
         disk_position d + length bs \<le> length (flat (dev d)) \<and> bs = take (length bs) (drop (disk_position d) (flat (dev d)))"
      by blast
    show ?thesis
    proof (cases r)
      case (Inl e)
      with r n show ?thesis by (subst disk_read_loop.simps) simp
    next
      case (Inr bs)
      with r(4) have bs: "bs \<noteq> []" "length bs \<le> n" "disk_position d' = disk_position d + length bs"
        "bs = take (length bs) (drop (disk_position d) (flat (dev d)))" by auto
      have acc: "acc @ bs = take (length (acc @ bs)) (drop p0 (flat (dev d')))"
        using less.prems(2,3) bs(4) r(3) take_add [of "length acc" "length bs" "drop p0 (flat (dev d))"] by (simp add: add.commute)
      have "n - length bs < n" using bs(1) n by (cases bs) auto
      from less.IH [OF this r(2) acc] bs(3) less.prems(3) obtain x d'' where x: "disk_read_loop ops (n - length bs) (acc @ bs) d' = Some (x, d'')"
        "disk_ok ok d''" "flat (dev d'') = flat (dev d')"
        "\<forall>cs. x = Inr cs \<longrightarrow> length cs = length (acc @ bs) + (n - length bs) \<and> cs = take (length (acc @ bs) + (n - length bs)) (drop p0 (flat (dev d'))) \<and>
           disk_position d'' = disk_position d' + (n - length bs)"
        by auto
      have "disk_read_loop ops n acc d = Some (x, d'')"
        using r(1) Inr bs(1) n x(1) by (subst disk_read_loop.simps) simp
      with x(2-4) r(3) bs(2,3) show ?thesis by simp
    qed
  qed
qed

lemma disk_read_flat:
  assumes "block_laws ops ok flat" "disk_ok ok d"
  shows "\<exists>r d'. disk_read ops n d = Some (r, d') \<and> disk_ok ok d' \<and> flat (dev d') = flat (dev d) \<and>
    (\<forall>bs. r = Inr bs \<longrightarrow> length bs = n \<and> bs = take n (drop (disk_position d) (flat (dev d))) \<and> disk_position d' = disk_position d + n)"
  using disk_read_loop_flat [OF assms, of "[]" "disk_position d" n] by (simp add: disk_read_def)

definition overwrite :: "nat \<Rightarrow> 'a list \<Rightarrow> 'a list \<Rightarrow> 'a list" where
  "overwrite p bs xs = take p xs @ bs @ drop (p + length bs) xs"

lemma length_overwrite: "p + length bs \<le> length xs \<Longrightarrow> length (overwrite p bs xs) = length xs"
  by (simp add: overwrite_def)

lemma overwrite_append:
  "p + length bs \<le> length xs \<Longrightarrow> overwrite (p + length bs) cs (overwrite p bs xs) = overwrite p (bs @ cs) xs"
  by (simp add: overwrite_def ac_simps)

lemma overwrite_within:
  assumes "off + length bs \<le> k" "p + k \<le> length xs"
  shows "take p xs @ (take off (take k (drop p xs)) @ bs @ drop (off + length bs) (take k (drop p xs))) @ drop (p + k) xs
    = overwrite (p + off) bs xs"
proof -
  have "take p xs @ take off (take k (drop p xs)) = take (p + off) xs"
    using assms by (simp add: take_add min_def)
  moreover have "drop (off + length bs) (take k (drop p xs)) @ drop (p + k) xs = drop (p + off + length bs) xs"
  proof -
    have "drop (p + k) xs = drop (k - (off + length bs)) (drop (p + off + length bs) xs)"
      using assms by (simp add: add.commute)
    then show ?thesis
      using append_take_drop_id [of "k - (off + length bs)" "drop (p + off + length bs) xs"]
      by (simp add: drop_take ac_simps)
  qed
  moreover have "take p xs @ (take off (take k (drop p xs)) @ bs @ drop (off + length bs) (take k (drop p xs))) @ drop (p + k) xs
    = (take p xs @ take off (take k (drop p xs))) @ bs @ (drop (off + length bs) (take k (drop p xs)) @ drop (p + k) xs)"
    by simp
  ultimately show ?thesis by (simp only: overwrite_def)
qed

lemma write_one_flat:
  assumes laws: "block_laws ops ok flat" and d: "disk_ok ok d" and n: "buf \<noteq> []"
  shows "\<exists>r d'. write_one ops buf d = Some (r, d') \<and> disk_ok ok d' \<and>
    (\<forall>n. r = Inr n \<longrightarrow> 0 < n \<and> n \<le> length buf \<and> disk_position d' = disk_position d + n \<and>
       disk_position d + n \<le> length (flat (dev d)) \<and> flat (dev d') = overwrite (disk_position d) (take n buf) (flat (dev d)))"
proof (cases "doffset d = 0 \<and> length buf \<ge> BLOCK_SIZE")
  case True
  from d have ok: "ok (dev d)" by (simp add: disk_ok_def)
  note l = block_lawsD [OF laws ok]
  obtain r dv where r: "write_block ops (dev d) (block_id d) (take BLOCK_SIZE buf) = (r, dv)" by fastforce
  have len: "length (take BLOCK_SIZE buf) = BLOCK_SIZE" using True by simp
  show ?thesis
  proof (cases r)
    case (Inl e)
    with True r l(5) [OF len] d show ?thesis by (auto simp: write_one_def disk_ok_def)
  next
    case (Inr u)
    with r l(6) [OF len] have w: "ok dv" "(block_id d + 1) * BLOCK_SIZE \<le> length (flat (dev d))"
      "flat dv = take (block_id d * BLOCK_SIZE) (flat (dev d)) @ take BLOCK_SIZE buf @ drop ((block_id d + 1) * BLOCK_SIZE) (flat (dev d))"
      by auto
    let ?d = "d\<lparr>dev := dv, block_id := uadd (block_id d) 1\<rparr>"
    have lim: "(block_id d + 1) * BLOCK_SIZE < usize_lim" using w(2) l(2) by simp
    have bid: "uadd (block_id d) 1 = block_id d + 1"
      using lim by (intro uadd_eq) (simp add: BLOCK_SIZE_def usize_lim_def)
    have ok': "disk_ok ok ?d"
      using d w(1) lim bid by (simp add: disk_ok_def)
    have pos: "disk_position d = block_id d * BLOCK_SIZE" "disk_position ?d = disk_position d + BLOCK_SIZE"
      using disk_position_eq [OF d] disk_position_eq [OF ok'] True bid by simp_all
    have "flat dv = overwrite (disk_position d) (take BLOCK_SIZE buf) (flat (dev d))"
      using w(3) len by (simp add: overwrite_def pos(1) add.commute)
    moreover have "write_one ops buf d = Some (Inr BLOCK_SIZE, ?d)"
      using True r Inr by (simp add: write_one_def)
    ultimately show ?thesis
      using ok' pos w(2) True by (simp add: BLOCK_SIZE_def)
  qed
next
  case False
  from d have ok: "ok (dev d)" by (simp add: disk_ok_def)
  note l = block_lawsD [OF laws ok]
  let ?cnt = "min (length buf) (BLOCK_SIZE - doffset d)"
  have off: "doffset d < BLOCK_SIZE" "usub BLOCK_SIZE (doffset d) = BLOCK_SIZE - doffset d"
    using d by (auto simp: disk_ok_def BLOCK_SIZE_def usize_lim_def intro!: usub_eq)
  have cnt: "doffset d + ?cnt \<le> BLOCK_SIZE" "0 < ?cnt" using off(1) n by auto
  obtain r dv where r: "read_block ops (dev d) (block_id d) BLOCK_SIZE = (r, dv)" by fastforce
  show ?thesis
  proof (cases r)
    case (Inl e)
    with r l(4) [of "block_id d" e dv] d show ?thesis
      unfolding write_one_def if_not_P [OF False] by (auto simp: disk_ok_def Let_def)
  next
    case (Inr data)
    have data: "ok dv" "flat dv = flat (dev d)" "(block_id d + 1) * BLOCK_SIZE \<le> length (flat (dev d))"
      "data = take BLOCK_SIZE (drop (block_id d * BLOCK_SIZE) (flat (dev d)))"
      using l(3) [of "block_id d" data dv] r Inr by auto
    let ?new = "take (doffset d) data @ take ?cnt buf @ drop (doffset d + ?cnt) data"
    have len: "length ?new = BLOCK_SIZE" "length data = BLOCK_SIZE" using data(3,4) cnt(1) by auto
    note l' = block_lawsD [OF laws data(1)]
    have lim: "(block_id d + 1) * BLOCK_SIZE < usize_lim" using data(3) l(2) by simp
    obtain w dv' where w: "write_block ops dv (block_id d) ?new = (w, dv')" by fastforce
    have step: "write_one ops buf d = (case (w, dv') of (Inl e, dv') \<Rightarrow> Some (Inl e, d\<lparr>dev := dv'\<rparr>)
        | (Inr _, dv') \<Rightarrow> Some (Inr ?cnt, advance_in_block ?cnt (d\<lparr>dev := dv'\<rparr>)))"
      unfolding write_one_def if_not_P [OF False] using r Inr off(2) cnt(1) w by (simp add: Let_def)
    show ?thesis
    proof (cases w)
      case (Inl e)
      with step l'(5) [OF len(1)] w d show ?thesis by (simp add: disk_ok_def)
    next
      case (Inr u)
      let ?d = "d\<lparr>dev := dv'\<rparr>"
      have w': "ok dv'" "flat dv' = take (block_id d * BLOCK_SIZE) (flat (dev d)) @ ?new @ drop ((block_id d + 1) * BLOCK_SIZE) (flat (dev d))"
        using l'(6) [OF len(1), of "block_id d" u dv'] w Inr data(2) by auto
      have ok': "disk_ok ok ?d" using d w'(1) by (simp add: disk_ok_def)
      have pos: "disk_position d = block_id d * BLOCK_SIZE + doffset d" "disk_position ?d = disk_position d"
        using disk_position_eq [OF d] by (simp_all add: disk_position_def)
      have "length (take ?cnt buf) = ?cnt" by simp
      then have "flat dv' = overwrite (disk_position d) (take ?cnt buf) (flat (dev d))"
        unfolding w'(2) data(4) pos(1)
        using overwrite_within [of "doffset d" "take ?cnt buf" BLOCK_SIZE "block_id d * BLOCK_SIZE" "flat (dev d)"] cnt(1) data(3)
        by (simp add: add.commute)
      moreover have "disk_position d + ?cnt \<le> length (flat (dev d))"
        using data(3) pos(1) cnt(1) by simp
      moreover note advance_in_block_eq [OF ok', of ?cnt]
      ultimately show ?thesis
        using step Inr cnt lim pos(2) by auto
    qed
  qed
qed

lemma disk_write_loop_flat:
  assumes laws: "block_laws ops ok flat"
  shows "disk_ok ok d \<Longrightarrow> len + length buf < usize_lim \<Longrightarrow>
    \<exists>r d'. disk_write_loop ops buf len d = Some (r, d') \<and> disk_ok ok d' \<and>
      (\<forall>n. r = Inr n \<longrightarrow> n = len + length buf \<and> disk_position d' = disk_position d + length buf \<and>
         (buf = [] \<or> disk_position d + length buf \<le> length (flat (dev d))) \<and> flat (dev d') = overwrite (disk_position d) buf (flat (dev d)))"
proof (induction "length buf" arbitrary: buf len d rule: less_induct)
  case less
  show ?case
  proof (cases "buf = []")
    case True
    with less.prems show ?thesis by (subst disk_write_loop.simps) (simp add: overwrite_def)
  next
    case False
    from write_one_flat [OF laws less.prems(1) False] obtain r d' where r: "write_one ops buf d = Some (r, d')" "disk_ok ok d'"
      "\<forall>n. r = Inr n \<longrightarrow> 0 < n \<and> n \<le> length buf \<and> disk_position d' = disk_position d + n \<and>
         disk_position d + n \<le> length (flat (dev d)) \<and> flat (dev d') = overwrite (disk_position d) (take n buf) (flat (dev d))"
      by blast
    show ?thesis
    proof (cases r)
      case (Inl e)
      with r False show ?thesis by (subst disk_write_loop.simps) simp
    next
      case (Inr n)
      with r(3) have n: "0 < n" "n \<le> length buf" "disk_position d' = disk_position d + n" "disk_position d + n \<le> length (flat (dev d))"
        "flat (dev d') = overwrite (disk_position d) (take n buf) (flat (dev d))" by auto
      have len: "uadd len n = len + n" using less.prems(2) n(2) by (intro uadd_eq) simp
      have "length (drop n buf) < length buf" using n by simp
      from less.hyps [OF this r(2), of "len + n"] less.prems(2) n(2) obtain x d'' where
        x: "disk_write_loop ops (drop n buf) (len + n) d' = Some (x, d'')" "disk_ok ok d''"
        "\<forall>m. x = Inr m \<longrightarrow> m = len + n + length (drop n buf) \<and> disk_position d'' = disk_position d' + length (drop n buf) \<and>
           (drop n buf = [] \<or> disk_position d' + length (drop n buf) \<le> length (flat (dev d'))) \<and>
           flat (dev d'') = overwrite (disk_position d') (drop n buf) (flat (dev d'))"
        by auto
      have "disk_write_loop ops buf len d = Some (x, d'')"
        using r(1) Inr False n(1) len x(1) by (subst disk_write_loop.simps) simp
      moreover have "overwrite (disk_position d') (drop n buf) (flat (dev d')) = overwrite (disk_position d) buf (flat (dev d))"
        using overwrite_append [of "disk_position d" "take n buf" "flat (dev d)" "drop n buf"] n by simp
      moreover have "length (flat (dev d')) = length (flat (dev d))"
        using n(2,4) unfolding n(5) by (intro length_overwrite) simp
      ultimately show ?thesis using x(2,3) n(2-4) by auto
    qed
  qed
qed

text \<open>Opening, measuring and moving the cursor.\<close>

lemma disk_new_ok:
  assumes "block_laws ops ok flat" "ok dv"
  obtains d where "disk_new ops dv = Some d" "disk_ok ok d" "disk_position d = 0" "disk_size ops d = length (flat dv)"
proof
  have "block_size ops dv = BLOCK_SIZE" using assms by (simp add: block_laws_def)
  then show "disk_new ops dv = Some \<lparr>block_id = 0, doffset = 0, dev = dv\<rparr>" by (simp add: disk_new_def)
  show "disk_size ops \<lparr>block_id = 0, doffset = 0, dev = dv\<rparr> = length (flat dv)"
    using block_lawsD(1,2) [OF assms] by (simp add: disk_size_def umul_eq)
qed (use assms in \<open>simp_all add: disk_ok_def disk_position_def BLOCK_SIZE_def usize_lim_def uadd_def umul_def\<close>)

lemma block_offset_roundtrip:
  assumes "block_laws ops ok flat" "ok (dev d)" "write_offset ops off buf d = Some (n, d1)" "read_offset ops off d1 = Some (bs, d2)"
  shows "bs = buf \<and> n = BLOCK_SIZE"
proof -
  from assms(3) obtain u dv where w: "length buf = BLOCK_SIZE" "write_block ops (dev d) (off div BLOCK_SIZE) buf = (Inr u, dv)"
    "n = BLOCK_SIZE" "d1 = d\<lparr>dev := dv\<rparr>"
    by (auto simp: write_offset_def split: prod.splits sum.splits if_splits)
  note l = block_lawsD(6) [OF assms(1,2) w(1,2)]
  from assms(4) w(4) obtain dv' where "read_block ops dv (off div BLOCK_SIZE) BLOCK_SIZE = (Inr bs, dv')"
    by (auto simp: read_offset_def split: prod.splits sum.splits)
  with block_lawsD(3) [OF assms(1), of dv "off div BLOCK_SIZE" bs dv'] l w show ?thesis by simp
qed

subsection \<open>Properties\<close>

text \<open>
  C14: the disk is a flat array of bytes. On a device that keeps its documented laws, reading or
  writing any number of bytes at any position always returns; a read that succeeds delivers exactly
  the bytes from the cursor on, and a write that succeeds replaces exactly those bytes, whatever the
  boundaries of the blocks; both move the cursor by the number of bytes, and a read changes nothing.
\<close>

theorem disk_is_flat_array:
  assumes "block_laws ops ok flat" "disk_ok ok d" "length data < usize_lim"
  shows "(\<exists>r d'. disk_read ops n d = Some (r, d') \<and> flat (dev d') = flat (dev d) \<and>
      (\<forall>bs. r = Inr bs \<longrightarrow> length bs = n \<and> bs = take n (drop (disk_position d) (flat (dev d))) \<and> disk_position d' = disk_position d + n)) \<and>
    (\<exists>r d'. disk_write ops data d = Some (r, d') \<and> disk_ok ok d' \<and>
      (\<forall>m. r = Inr m \<longrightarrow> m = length data \<and> disk_position d' = disk_position d + m \<and>
         flat (dev d') = overwrite (disk_position d) data (flat (dev d))))"
  using disk_read_flat [OF assms(1,2), of n] disk_write_loop_flat [OF assms(1,2), of 0 data] assms(3)
  unfolding disk_write_def by fastforce

theorem disk_is_flat_array_witness:
  "\<exists>r d'. disk_write ram_ops [1, 2, 3] \<lparr>block_id = 0, doffset = 510, dev = replicate 1024 0\<rparr> = Some (r, d') \<and>
     disk_ok (\<lambda>d. length d < usize_lim \<and> length d mod BLOCK_SIZE = 0) d'"
proof -
  let ?d = "\<lparr>block_id = 0, doffset = 510, dev = replicate 1024 (0 :: byte)\<rparr>"
  have "disk_ok (\<lambda>d. length d < usize_lim \<and> length d mod BLOCK_SIZE = 0) ?d"
    by (simp add: disk_ok_def BLOCK_SIZE_def usize_lim_def)
  from disk_is_flat_array [OF ram_laws this, of "[1, 2, 3]" 0] show ?thesis
    by (auto simp: usize_lim_def)
qed

end
